(* ===== verification/Prelude.thy ===== *)
theory Prelude
  imports Main "HOL-Library.Word" "HOL-Library.Sublist"
begin

unbundle bit_operations_syntax

text \<open>
  Shared vocabulary of the development: the fixed-width integers of the C and C++ sources,
  their byte-level representation on the little-endian target (the ARM32 AST2600), C strings
  and C++ strings, \<open>std::to_string\<close>, \<open>std::tolower\<close> and substring search, and the generic
  list, option and word lemmas the component theories use.  A C \<open>char\<close> array and a
  \<open>std::string\<close> are both a \<open>string\<close>; a C \<open>char\<close> array of \<open>N\<close> elements is a \<open>string\<close> of
  length \<open>N\<close>.
\<close>

named_theorems guard_simps \<open>characteristic equations of the operations\<close>
named_theorems wf_intros \<open>well-formedness of the values the operations build\<close>

type_synonym u8 = "8 word"
type_synonym u16 = "16 word"
type_synonym u32 = "32 word"
type_synonym u64 = "64 word"

section \<open>Bytes and integers\<close>

subsection \<open>Byte order\<close>

text \<open>\<open>leN_of\<close> reads an integer of \<open>N\<close> bits from its memory bytes on a little-endian machine,
  \<open>leN_bytes\<close> stores it; \<open>be16_of\<close> is a network-order load, \<open>bswap16\<close> is \<open>htons\<close> there.\<close>

definition le16_of :: "u8 \<Rightarrow> u8 \<Rightarrow> u16" where
  "le16_of b0 b1 = ucast b0 OR push_bit 8 (ucast b1)"

definition le32_of :: "u8 \<Rightarrow> u8 \<Rightarrow> u8 \<Rightarrow> u8 \<Rightarrow> u32" where
  "le32_of b0 b1 b2 b3 =
     ucast b0 OR push_bit 8 (ucast b1) OR push_bit 16 (ucast b2) OR push_bit 24 (ucast b3)"

definition be16_of :: "u8 \<Rightarrow> u8 \<Rightarrow> u16" where
  "be16_of hi lo = push_bit 8 (ucast hi) OR ucast lo"

definition byte_at :: "nat \<Rightarrow> 'a::len word \<Rightarrow> u8" where
  "byte_at i w = ucast (drop_bit (8 * i) w)"

text \<open>The memory bytes of a word, lowest address first, and the word they spell.\<close>

definition le_bytes :: "nat \<Rightarrow> 'a::len word \<Rightarrow> u8 list" where
  "le_bytes n w = map (\<lambda>i. byte_at i w) [0..<n]"

definition le_word :: "u8 list \<Rightarrow> 'a::len word" where
  "le_word bs = foldr (\<lambda>b acc. ucast b OR push_bit 8 acc) bs 0"

definition bswap16 :: "u16 \<Rightarrow> u16" where
  "bswap16 w = be16_of (byte_at 0 w) (byte_at 1 w)"

lemma byte_at_le16 [simp]:
  "byte_at 0 (le16_of b0 b1) = b0" "byte_at (Suc 0) (le16_of b0 b1) = b1"
  by (rule bit_word_eqI; auto simp: byte_at_def le16_of_def bit_simps dest: bit_imp_le_length)+

lemma byte_at_le32 [simp]:
  "byte_at 0 (le32_of b0 b1 b2 b3) = b0" "byte_at (Suc 0) (le32_of b0 b1 b2 b3) = b1"
  "byte_at 2 (le32_of b0 b1 b2 b3) = b2" "byte_at 3 (le32_of b0 b1 b2 b3) = b3"
  by (rule bit_word_eqI; auto simp: byte_at_def le32_of_def bit_simps dest: bit_imp_le_length)+

lemma le16_of_byte_at [simp]: "le16_of (byte_at 0 w) (byte_at (Suc 0) w) = w"
  by (rule bit_word_eqI) (auto simp: byte_at_def le16_of_def bit_simps)

lemma le32_of_byte_at [simp]:
  "le32_of (byte_at 0 w) (byte_at (Suc 0) w) (byte_at 2 w) (byte_at 3 w) = w"
proof (rule bit_word_eqI)
  fix n assume "n < LENGTH(32)"
  then consider "n < 8" | "8 \<le> n \<and> n < 16" | "16 \<le> n \<and> n < 24" | "24 \<le> n \<and> n < 32"
    by fastforce
  then show "bit (le32_of (byte_at 0 w) (byte_at (Suc 0) w) (byte_at 2 w) (byte_at 3 w)) n = bit w n"
    by cases (auto simp: byte_at_def le32_of_def bit_simps)
qed

lemma be16_of_swap: "be16_of hi lo = le16_of lo hi"
  by (simp add: be16_of_def le16_of_def or.commute)

lemma bswap16_involution [simp]: "bswap16 (bswap16 w) = w"
  by (simp add: bswap16_def be16_of_swap)

lemma bswap16_inject [simp]: "bswap16 a = bswap16 b \<longleftrightarrow> a = b"
  by (metis bswap16_involution)

lemma length_le_bytes [simp]: "length (le_bytes n w) = n"
  by (simp add: le_bytes_def)

lemma bit_le_word_map:
  fixes w :: "'a::len word"
  shows "bit (foldr (\<lambda>b acc. ucast b OR push_bit 8 acc) (map (\<lambda>i. byte_at i w) [m..<n]) (0 :: 'a word)) k
   \<longleftrightarrow> k < LENGTH('a) \<and> k < 8 * (n - m) \<and> bit w (8 * m + k)"
proof (induction "n - m" arbitrary: m k)
  case 0
  then show ?case by simp
next
  case (Suc d)
  then have mn: "m < n" and d: "d = n - Suc m" by simp_all
  show ?case
  proof (cases "k < 8")
    case True
    then show ?thesis using mn
      by (auto simp: upt_conv_Cons byte_at_def bit_simps)
  next
    case False
    have eq: "8 + (8 * m + (k - 8)) = 8 * m + k" using False by simp
    show ?thesis using False mn Suc.hyps(1) [OF d, of "k - 8"]
      by (auto simp: upt_conv_Cons byte_at_def bit_simps eq dest: bit_imp_le_length)
  qed
qed

lemma le_word_le_bytes: "le_word (le_bytes n w) = take_bit (8 * n) w"
  by (rule bit_word_eqI) (auto simp: le_word_def le_bytes_def bit_le_word_map bit_simps)

lemma le_word_le_bytes_full [simp]:
  "8 * n = LENGTH('a) \<Longrightarrow> le_word (le_bytes n w) = (w :: 'a::len word)"
  by (simp add: le_word_le_bytes take_bit_word_eq_self)

lemma unat_u8_bound [simp]: "unat (b :: u8) < 256"
  using unsigned_less [of b] by simp

lemma unat_u16_bound [simp]: "unat (b :: u16) < 65536"
  using unsigned_less [of b] by simp

lemma unat_u32_bound [simp]: "unat (b :: u32) < 4294967296"
  using unsigned_less [of b] by simp

lemma unat_u64_bound [simp]: "unat (b :: u64) < 18446744073709551616"
  using unsigned_less [of b] by simp

section \<open>Strings\<close>

subsection \<open>Characters and C strings\<close>

definition chr8 :: "u8 \<Rightarrow> char" where
  "chr8 b = char_of (unat b)"

definition ord8 :: "char \<Rightarrow> u8" where
  "ord8 c = word_of_nat (of_char c)"

lemma ord8_chr8 [simp]: "ord8 (chr8 b) = b"
  by (simp add: ord8_def chr8_def)

lemma of_char_less_256 [simp]: "of_char c < (256 :: nat)"
  by (metis char_of_mod_256 mod_less_divisor of_char_of zero_less_numeral char_of_char)

lemma chr8_ord8 [simp]: "chr8 (ord8 c) = c"
  by (simp add: ord8_def chr8_def unsigned_of_nat take_bit_eq_mod)

lemma chr8_inject [simp]: "chr8 a = chr8 b \<longleftrightarrow> a = b"
  by (metis ord8_chr8)

abbreviation NUL :: char where "NUL \<equiv> CHR 0x00"

lemma chr8_0 [simp]: "chr8 0 = NUL"
  by (simp add: chr8_def char_of_def)

lemma chr8_eq_NUL [simp]: "chr8 b = NUL \<longleftrightarrow> b = 0"
  by (metis chr8_0 chr8_inject)

text \<open>\<open>programs/utils/bounded_string.hpp\<close>: \<open>boundedString\<close> stops at the first null byte or at
  the end of the array.\<close>

definition boundedString :: "string \<Rightarrow> string" where
  "boundedString raw = takeWhile (\<lambda>c. c \<noteq> NUL) raw"

lemma boundedString_no_NUL: "NUL \<notin> set (boundedString raw)"
  by (auto simp: boundedString_def dest: set_takeWhileD)

lemma length_boundedString [simp]: "length (boundedString raw) \<le> length raw"
  by (simp add: boundedString_def length_takeWhile_le)

lemma boundedString_terminated:
  "NUL \<notin> set s \<Longrightarrow> boundedString (s @ NUL # rest) = s"
  by (induction s) (auto simp: boundedString_def)

lemma boundedString_full: "NUL \<notin> set s \<Longrightarrow> boundedString s = s"
  by (induction s) (auto simp: boundedString_def)

subsection \<open>Numbers as strings\<close>

definition digit_char :: "nat \<Rightarrow> char" where
  "digit_char d = char_of (48 + d)"

text \<open>\<open>std::to_string\<close> of an unsigned value.\<close>

fun to_string :: "nat \<Rightarrow> string" where
  "to_string n = (if n < 10 then [digit_char n] else to_string (n div 10) @ [digit_char (n mod 10)])"

declare to_string.simps [simp del]

text \<open>The decimal reading, used to state that \<open>to_string\<close> loses nothing.\<close>

definition dec_value :: "string \<Rightarrow> nat" where
  "dec_value s = foldl (\<lambda>acc c. 10 * acc + (of_char c - 48)) 0 s"

lemma dec_value_snoc: "dec_value (s @ [c]) = 10 * dec_value s + (of_char c - 48)"
  by (simp add: dec_value_def)

lemma of_char_digit_char [simp]: "d < 10 \<Longrightarrow> of_char (digit_char d) = 48 + d"
  by (simp add: digit_char_def)

lemma dec_value_to_string [simp]: "dec_value (to_string n) = n"
proof (induction n rule: to_string.induct)
  case (1 n)
  show ?case
  proof (cases "n < 10")
    case True
    then show ?thesis by (simp add: to_string.simps [of n] dec_value_def)
  next
    case False
    with 1 have "dec_value (to_string (n div 10)) = n div 10" by simp
    with False show ?thesis by (simp add: to_string.simps [of n] dec_value_snoc)
  qed
qed

lemma to_string_inject [simp]: "to_string m = to_string n \<longleftrightarrow> m = n"
  by (metis dec_value_to_string)

lemma to_string_not_empty [simp]: "to_string n \<noteq> []"
  by (simp add: to_string.simps [of n])

lemma to_string_small:
  "n < 10 \<Longrightarrow> to_string n = [digit_char n]"
  "10 \<le> n \<Longrightarrow> n < 100 \<Longrightarrow> to_string n = [digit_char (n div 10), digit_char (n mod 10)]"
  by (simp_all add: to_string.simps [of n] to_string.simps [of "n div 10"] less_mult_imp_div_less)

lemma to_string_hundreds:
  assumes "100 \<le> n" "n < 1000"
  shows "to_string n = [digit_char (n div 100), digit_char (n div 10 mod 10), digit_char (n mod 10)]"
proof -
  have "10 \<le> n div 10" using div_le_mono [OF assms(1), of 10] by simp
  moreover have "n div 10 < 100" using assms(2) by (simp add: less_mult_imp_div_less)
  moreover have "n div 10 div 10 = n div 100" by (simp add: div_mult2_eq [symmetric])
  ultimately show ?thesis using assms by (simp add: to_string.simps [of n] to_string_small(2))
qed

lemma length_to_string_u8: "n < 256 \<Longrightarrow> length (to_string n) \<le> 3"
  by (cases "n < 10"; cases "n < 100") (simp_all add: to_string_small to_string_hundreds)

subsection \<open>Lower case and substring search\<close>

text \<open>\<open>std::tolower\<close> in the C locale, the one the daemon runs in.\<close>

definition tolower_char :: "char \<Rightarrow> char" where
  "tolower_char c =
     (let n = of_char c :: nat in if 65 \<le> n \<and> n \<le> 90 then char_of (n + 32) else c)"

definition toLower :: "string \<Rightarrow> string" where
  "toLower s = map tolower_char s"

lemma tolower_char_idem [simp]: "tolower_char (tolower_char c) = tolower_char c"
  by (auto simp: tolower_char_def Let_def)

lemma toLower_idem [simp]: "toLower (toLower s) = toLower s"
  by (simp add: toLower_def)

lemma toLower_Nil [simp]: "toLower [] = []" "toLower s = [] \<longleftrightarrow> s = []"
  by (simp_all add: toLower_def)

text \<open>\<open>haystack.find(needle) != std::string::npos\<close>.\<close>

fun str_find :: "string \<Rightarrow> string \<Rightarrow> bool" where
  "str_find needle [] \<longleftrightarrow> needle = []"
| "str_find needle (c # cs) \<longleftrightarrow> prefix needle (c # cs) \<or> str_find needle cs"

lemma str_find_sublist: "str_find needle hay \<longleftrightarrow> sublist needle hay"
  by (induction hay) (auto simp: sublist_Cons_right)

section \<open>Lists\<close>

lemma list_update_id_out: "length xs \<le> i \<Longrightarrow> xs[i := v] = xs"
  by (rule list_update_beyond)

lemma nth_take_drop: "i < n \<Longrightarrow> n + k \<le> length xs \<Longrightarrow> take n (drop k xs) ! i = xs ! (k + i)"
  by simp

end
