(* ===== verification/Bpf_Map.thy ===== *)
theory Bpf_Map
  imports Prelude
begin

text \<open>
  BPF maps as the kernel programs and the daemon share them.  The contents of a map are a
  partial function; \<open>bpf_map_lookup_elem\<close> is application and \<open>bpf_map_delete_elem\<close> clears one
  key.  \<open>bpf_map_update_elem\<close> is kernel code: the model takes it as an argument, and the
  locales below state what its documentation promises for every map (\<open>bpf_map\<close>), for
  \<open>BPF_MAP_TYPE_HASH\<close> (\<open>bpf_hash_map\<close>: no other key is touched, and a full map refuses a new
  key) and for \<open>BPF_MAP_TYPE_LRU_HASH\<close> (\<open>bpf_lru_map\<close>: an update always succeeds, possibly
  by evicting another key).  \<open>hash_update\<close> and \<open>lru_update\<close> are the updates of maps of
  \<open>cap\<close> entries; the component theories instantiate them at the sizes the sources declare.
\<close>

type_synonym ('k, 'v) bpf_update = "('k \<rightharpoonup> 'v) \<Rightarrow> 'k \<Rightarrow> 'v \<Rightarrow> int \<times> ('k \<rightharpoonup> 'v)"

definition E2BIG :: int where "E2BIG = 7"

definition map_delete_elem :: "('k \<rightharpoonup> 'v) \<Rightarrow> 'k \<Rightarrow> ('k \<rightharpoonup> 'v)" where
  "map_delete_elem m k = m(k := None)"

definition hash_update :: "nat \<Rightarrow> ('k, 'v) bpf_update" where
  "hash_update cap m k v =
     (if m k = None \<and> cap \<le> card (dom m) then (- E2BIG, m) else (0, m(k \<mapsto> v)))"

definition lru_update :: "nat \<Rightarrow> (('k \<rightharpoonup> 'v) \<Rightarrow> 'k) \<Rightarrow> ('k, 'v) bpf_update" where
  "lru_update cap victim m k v =
     (if m k = None \<and> cap \<le> card (dom m) then (0, (m(victim m := None))(k \<mapsto> v))
      else (0, m(k \<mapsto> v)))"

lemma map_delete_elem_apply [simp]:
  "map_delete_elem m k k' = (if k' = k then None else m k')"
  by (simp add: map_delete_elem_def)

lemma dom_map_delete_elem [simp]: "dom (map_delete_elem m k) = dom m - {k}"
  by (simp add: map_delete_elem_def)

locale bpf_map =
  fixes upd :: "('k, 'v) bpf_update"
  assumes upd_stored: "fst (upd m k v) = 0 \<Longrightarrow> snd (upd m k v) k = Some v"
    and upd_others: "k' \<noteq> k \<Longrightarrow> snd (upd m k v) k' = m k' \<or> snd (upd m k v) k' = None"
    and upd_failed: "fst (upd m k v) \<noteq> 0 \<Longrightarrow> snd (upd m k v) = m"
begin

text \<open>No update invents a value: what is in the map afterwards is the new value or an old one.\<close>

lemma upd_origin:
  assumes "snd (upd m k v) k' = Some x"
  shows "(k' = k \<and> x = v) \<or> m k' = Some x"
proof (cases "k' = k")
  case True
  then show ?thesis using assms upd_stored [of m k v] upd_failed [of m k v] by (cases "fst (upd m k v) = 0") auto
next
  case False
  then show ?thesis using assms upd_others [of k' k m v] by auto
qed

lemma upd_pred:
  "(\<And>x. x \<in> ran m \<Longrightarrow> P x) \<Longrightarrow> P v \<Longrightarrow> x \<in> ran (snd (upd m k v)) \<Longrightarrow> P x"
  unfolding ran_def by (auto dest: upd_origin)

end

locale bpf_hash_map = bpf_map +
  assumes upd_frame: "k' \<noteq> k \<Longrightarrow> snd (upd m k v) k' = m k'"
    and upd_existing: "m k \<noteq> None \<Longrightarrow> fst (upd m k v) = 0"
begin

lemma upd_contents:
  "snd (upd m k v) = (if fst (upd m k v) = 0 then m(k \<mapsto> v) else m)"
proof (cases "fst (upd m k v) = 0")
  case True
  then show ?thesis using upd_stored [of m k v] upd_frame [of _ k m v] by (auto simp: fun_eq_iff)
next
  case False
  then show ?thesis using upd_failed [of m k v] by simp
qed

end

locale bpf_lru_map = bpf_map +
  assumes upd_total: "fst (upd m k v) = 0"
begin

lemma upd_now [simp]: "snd (upd m k v) k = Some v"
  by (rule upd_stored [OF upd_total])

end

lemma hash_update_bpf_hash_map: "bpf_hash_map (hash_update cap)"
  by unfold_locales (auto simp: hash_update_def E2BIG_def split: if_splits)

lemma lru_update_bpf_lru_map: "bpf_lru_map (lru_update cap victim)"
  by unfold_locales (auto simp: lru_update_def split: if_splits)

text \<open>The declared capacity bounds the map.\<close>

lemma hash_update_bounded:
  assumes "finite (dom m)" "card (dom m) \<le> cap"
  shows "finite (dom (snd (hash_update cap m k v))) \<and> card (dom (snd (hash_update cap m k v))) \<le> cap"
proof (cases "m k = None")
  case True
  then have "k \<notin> dom m" by blast
  with True assms show ?thesis by (simp add: hash_update_def)
next
  case False
  then have "insert k (dom m) = dom m" by blast
  with False assms show ?thesis by (simp add: hash_update_def)
qed

lemma lru_update_bounded:
  assumes "finite (dom m)" "card (dom m) \<le> cap" "0 < cap" "victim m \<in> dom m"
  shows "finite (dom (snd (lru_update cap victim m k v)))
       \<and> card (dom (snd (lru_update cap victim m k v))) \<le> cap"
proof (cases "m k = None")
  case True
  have pos: "0 < card (dom m)" using assms(1,4) by (auto simp: card_gt_0_iff)
  have "k \<notin> dom m" using True by blast
  moreover have "card (dom m - {victim m}) = card (dom m) - 1" using assms(1,4) by simp
  ultimately show ?thesis using True assms pos by (simp add: lru_update_def)
next
  case False
  then have "insert k (dom m) = dom m" by blast
  with False assms show ?thesis by (auto simp: lru_update_def)
qed

end
