(* ===== verification/Blocklist.thy ===== *)
theory Blocklist
  imports Bpf_Map
begin

text \<open>
  The source blocklist.  \<open>actions/blocklist/blocklist.bpf.h\<close>: the map from a source address to
  the expiry of its entry and the check every packet makes (\<open>blocklist_check\<close>).
  \<open>actions/blocklist/Blocklist.cpp\<close> and \<open>BlocklistAction.cpp\<close>: the daemon's side, which adopts
  the map and inserts entries.  Both sides read the same monotonic clock; each reading is an
  argument.  The locale \<open>source_filter\<close> is the contract the packet path relies on, and it is
  interpreted on \<open>blocklist_check\<close>.
\<close>

section \<open>The kernel side\<close>

datatype xdp_action = XDP_DROP | XDP_PASS

type_synonym blocklist_map = "u32 \<rightharpoonup> u64"

definition HTTPS_GUARD_BLOCKLIST_MAX_ENTRIES :: nat where
  "HTTPS_GUARD_BLOCKLIST_MAX_ENTRIES = 1024"

definition src_blocklist_update :: "(u32, u64) bpf_update" where
  "src_blocklist_update = hash_update HTTPS_GUARD_BLOCKLIST_MAX_ENTRIES"

definition blocklist_check :: "u64 \<Rightarrow> blocklist_map \<Rightarrow> u32 \<Rightarrow> xdp_action \<times> blocklist_map" where
  "blocklist_check now src_blocklist src_ip_v4 =
     (case src_blocklist src_ip_v4 of
        None \<Rightarrow> (XDP_PASS, src_blocklist)
      | Some expiry \<Rightarrow>
          if expiry \<le> now then (XDP_PASS, map_delete_elem src_blocklist src_ip_v4)
          else (XDP_DROP, src_blocklist))"

section \<open>The daemon side\<close>

text \<open>\<open>inet_ntop(AF_INET, ...)\<close>: the four memory bytes of the address in dotted decimal.\<close>

definition inet_ntop4 :: "u32 \<Rightarrow> string" where
  "inet_ntop4 ip =
     to_string (unat (byte_at 0 ip)) @ ''.'' @ to_string (unat (byte_at 1 ip)) @ ''.'' @
     to_string (unat (byte_at 2 ip)) @ ''.'' @ to_string (unat (byte_at 3 ip))"

record blocklist =
  bl_fd :: int

definition Blocklist_init :: blocklist where
  "Blocklist_init = \<lparr>bl_fd = -1\<rparr>"

definition adopt :: "blocklist \<Rightarrow> int \<Rightarrow> bool \<times> blocklist" where
  "adopt bl map_fd = (if map_fd < 0 then (False, bl) else (True, bl\<lparr>bl_fd := map_fd\<rparr>))"

definition Blocklist_reset :: "blocklist \<Rightarrow> blocklist" where
  "Blocklist_reset bl = bl\<lparr>bl_fd := -1\<rparr>"

text \<open>Clock readings of the daemon are the signed 64-bit nanosecond count of
  \<open>std::chrono::steady_clock\<close>.\<close>

definition contains :: "blocklist \<Rightarrow> int \<Rightarrow> blocklist_map \<Rightarrow> u32 \<Rightarrow> bool" where
  "contains bl now_ns m src_ip_v4 =
     (if bl_fd bl < 0 then False
      else case m src_ip_v4 of
             None \<Rightarrow> False
           | Some expiry \<Rightarrow> word_of_int now_ns < expiry)"

definition ENOENT :: int where "ENOENT = 2"
definition EINVAL :: int where "EINVAL = 22"

definition ns_per_s :: int where "ns_per_s = 1000000000"

definition add ::
  "(u32, u64) bpf_update \<Rightarrow> blocklist \<Rightarrow> int \<Rightarrow> blocklist_map \<Rightarrow> u32 \<Rightarrow> int
   \<Rightarrow> int \<times> blocklist_map" where
  "add upd bl now_ns m src_ip_v4 ttl =
     (if bl_fd bl < 0 then (- ENOENT, m)
      else if ttl \<le> 0 then (- EINVAL, m)
      else let ttl_ns = ttl * ns_per_s;
               expiry = word_of_int (now_ns + ttl_ns)
           in upd m src_ip_v4 expiry)"

definition formatIp :: "u32 \<Rightarrow> string" where
  "formatIp src_ip_v4_network_order = inet_ntop4 src_ip_v4_network_order"

text \<open>\<open>BlocklistAddAction\<close>: the source, the time to live in seconds and the reason; what
  \<open>execute_async\<close> writes to the error stream is its outcome.\<close>

record blocklist_add_action =
  act_src_ip_v4 :: u32
  act_ttl :: int
  act_reason :: string

datatype blocklist_outcome =
    AddFailed string int string
  | Blocklisted string int string

definition BlocklistAddAction_execute ::
  "(u32, u64) bpf_update \<Rightarrow> blocklist \<Rightarrow> int \<Rightarrow> blocklist_add_action \<Rightarrow> blocklist_map
   \<Rightarrow> blocklist_outcome \<times> blocklist_map" where
  "BlocklistAddAction_execute upd bl now_ns act m =
     (let (rc, m') = add upd bl now_ns m (act_src_ip_v4 act) (act_ttl act)
      in if rc \<noteq> 0 then (AddFailed (formatIp (act_src_ip_v4 act)) rc (act_reason act), m')
         else (Blocklisted (formatIp (act_src_ip_v4 act)) (act_ttl act) (act_reason act), m'))"

section \<open>What the packet path relies on\<close>

fun run_checks ::
  "(u64 \<Rightarrow> 's \<Rightarrow> u32 \<Rightarrow> xdp_action \<times> 's) \<Rightarrow> 's \<Rightarrow> (u64 \<times> u32) list \<Rightarrow> xdp_action list" where
  "run_checks check s [] = []"
| "run_checks check s ((t, ip) # ps) =
     fst (check t s ip) # run_checks check (snd (check t s ip)) ps"

text \<open>\<open>active t s\<close> is the set of sources that are blocked at time \<open>t\<close>.  A filter answers
  according to it, and its own bookkeeping does not change it for any later time.\<close>

locale source_filter =
  fixes check :: "u64 \<Rightarrow> 's \<Rightarrow> u32 \<Rightarrow> xdp_action \<times> 's"
    and active :: "u64 \<Rightarrow> 's \<Rightarrow> u32 set"
  assumes check_action: "fst (check t s ip) = XDP_DROP \<longleftrightarrow> ip \<in> active t s"
    and check_silent: "t \<le> t' \<Longrightarrow> active t' (snd (check t s ip)) = active t' s"
begin

lemma check_pass: "fst (check t s ip) = XDP_PASS \<longleftrightarrow> ip \<notin> active t s"
  using check_action [of t s ip] by (cases "fst (check t s ip)") auto

text \<open>A run of checks at non-decreasing times answers from the first state throughout.\<close>

lemma run_checks_decided:
  assumes "sorted (map fst ps)"
  shows "run_checks check s ps = map (\<lambda>(t, ip). if ip \<in> active t s then XDP_DROP else XDP_PASS) ps"
  using assms
proof (induction ps arbitrary: s)
  case Nil
  then show ?case by simp
next
  case (Cons p ps)
  obtain t ip where p: "p = (t, ip)" by (cases p)
  let ?s' = "snd (check t s ip)"
  have later: "\<forall>q \<in> set ps. t \<le> fst q" and "sorted (map fst ps)" using Cons.prems p by auto
  then have "run_checks check ?s' ps = map (\<lambda>(t, ip). if ip \<in> active t ?s' then XDP_DROP else XDP_PASS) ps"
    by (intro Cons.IH)
  also have "\<dots> = map (\<lambda>(t, ip). if ip \<in> active t s then XDP_DROP else XDP_PASS) ps"
    using later by (auto simp: check_silent)
  finally show ?case using p check_action [of t s ip] check_pass [of t s ip] by (auto split: if_splits)
qed

end

definition blocked :: "u64 \<Rightarrow> blocklist_map \<Rightarrow> u32 set" where
  "blocked t m = {ip. \<exists>expiry. m ip = Some expiry \<and> t < expiry}"

interpretation bl: source_filter blocklist_check blocked
  by unfold_locales
     (auto simp: blocklist_check_def blocked_def split: option.splits if_splits
           dest: order.strict_trans1)

interpretation bl_map: bpf_hash_map src_blocklist_update
  unfolding src_blocklist_update_def by (rule hash_update_bpf_hash_map)

lemma blocklist_check_prunes:
  "blocklist_check t m ip = (XDP_PASS, m') \<Longrightarrow> m' ip = None"
  by (auto simp: blocklist_check_def split: option.splits if_splits)

lemma blocklist_check_frame:
  "ip' \<noteq> ip \<Longrightarrow> snd (blocklist_check t m ip) ip' = m ip'"
  by (auto simp: blocklist_check_def split: option.splits if_splits)

lemma uint_u64_of_int: "0 \<le> x \<Longrightarrow> x < 2 ^ 63 \<Longrightarrow> uint (word_of_int x :: u64) = x"
  by (simp add: unsigned_of_int take_bit_int_eq_self)

lemma less_u64_of_int: "0 \<le> x \<Longrightarrow> x < 2 ^ 63 \<Longrightarrow> t < (word_of_int x :: u64) \<longleftrightarrow> uint t < x"
  by (simp add: word_less_def uint_u64_of_int)

lemma add_success_map:
  assumes "bpf_hash_map upd" "add upd bl now_ns m ip ttl = (0, m')"
  shows "0 \<le> bl_fd bl \<and> 0 < ttl \<and> m' = m(ip \<mapsto> word_of_int (now_ns + ttl * ns_per_s))"
  using assms(2) bpf_hash_map.upd_contents [OF assms(1), of m ip "word_of_int (now_ns + ttl * ns_per_s)"]
  by (auto simp: add_def ENOENT_def EINVAL_def Let_def split: if_splits)

lemma add_failure_map:
  assumes "bpf_map upd" "add upd bl now_ns m ip ttl = (rc, m')" "rc \<noteq> 0"
  shows "m' = m"
  using assms bpf_map.upd_failed [OF assms(1), of m ip "word_of_int (now_ns + ttl * ns_per_s)"]
  by (auto simp: add_def Let_def split: if_splits)

section \<open>Properties\<close>

text \<open>C26: over any sequence of packets with non-decreasing clock readings, the blocklist check
  drops exactly the packets whose source has an unexpired entry in the map as it was at the
  start: pruning expired entries on the way never changes a later answer.\<close>

theorem blocklist_run_decided:
  assumes "sorted (map fst ps)"
  shows "run_checks blocklist_check m ps =
           map (\<lambda>(t, ip). if ip \<in> blocked t m then XDP_DROP else XDP_PASS) ps"
  using assms by (rule bl.run_checks_decided)

theorem blocklist_run_decided_witness:
  "run_checks blocklist_check [1 \<mapsto> 100] [(50, 1), (60, 2), (100, 1), (100, 1)] =
     [XDP_DROP, XDP_PASS, XDP_PASS, XDP_PASS]"
  by (subst blocklist_run_decided) (simp_all add: blocked_def)

text \<open>a successful \<open>Blocklist::add\<close> with a positive time to live blocks its source exactly
  until the expiry: every later check of that source drops iff the clock is before
  \<open>now + ttl\<close> (in nanoseconds, within the signed 64-bit range of the clock), and the set of
  blocked sources changes in no other way.\<close>

theorem add_blocks_until_expiry:
  assumes "bpf_hash_map upd"
    and "add upd bl now_ns m ip ttl = (0, m')"
    and "0 \<le> now_ns" and "now_ns + ttl * ns_per_s < 2 ^ 63"
  shows "(fst (blocklist_check t m' ip) = XDP_DROP \<longleftrightarrow> uint t < now_ns + ttl * ns_per_s)
       \<and> blocked t m' - {ip} = blocked t m - {ip}"
proof -
  have ttl: "0 < ttl" and m': "m' = m(ip \<mapsto> word_of_int (now_ns + ttl * ns_per_s))"
    using add_success_map [OF assms(1,2)] by simp_all
  have "0 \<le> now_ns + ttl * ns_per_s" using assms(3) ttl by (simp add: ns_per_s_def)
  then have "t < (word_of_int (now_ns + ttl * ns_per_s) :: u64) \<longleftrightarrow> uint t < now_ns + ttl * ns_per_s"
    using assms(4) by (rule less_u64_of_int)
  then show ?thesis by (auto simp: bl.check_action blocked_def m')
qed

theorem add_blocks_until_expiry_witness:
  "fst (blocklist_check 300000000999 [7 \<mapsto> 300000001000] 7) = XDP_DROP
   \<and> blocked 300000000999 [7 \<mapsto> 300000001000] - {7} = blocked 300000000999 Map.empty - {7}"
  using add_blocks_until_expiry
    [OF bl_map.bpf_hash_map_axioms, of "\<lparr>bl_fd = 3\<rparr>" 1000 Map.empty 7 300 "[7 \<mapsto> 300000001000]" 300000000999]
  by (simp add: add_def src_blocklist_update_def hash_update_def HTTPS_GUARD_BLOCKLIST_MAX_ENTRIES_def
      ns_per_s_def Let_def)

text \<open>The daemon's \<open>Blocklist::contains\<close> and the kernel's \<open>blocklist_check\<close> agree: with the
  map adopted, a source is contained at a clock reading iff a packet from it is dropped at
  that reading; without a map nothing is contained.\<close>

theorem contains_agrees_with_check:
  "contains bl now_ns m ip \<longleftrightarrow>
     0 \<le> bl_fd bl \<and> fst (blocklist_check (word_of_int now_ns) m ip) = XDP_DROP"
  by (auto simp: contains_def bl.check_action blocked_def split: option.splits)

text \<open>\<open>BlocklistAddAction\<close> reports success iff the entry is in the map afterwards with the
  intended expiry; a missing map, a non-positive time to live and a refused update are each
  reported with their error code and leave the map as it was.\<close>

theorem BlocklistAddAction_outcome:
  assumes "bpf_hash_map upd"
    and "BlocklistAddAction_execute upd bl now_ns act m = (out, m')"
  shows "case out of
           Blocklisted ip ttl why \<Rightarrow>
             ip = formatIp (act_src_ip_v4 act) \<and> ttl = act_ttl act \<and> why = act_reason act \<and>
             0 \<le> bl_fd bl \<and> 0 < act_ttl act \<and>
             m' = m(act_src_ip_v4 act \<mapsto> word_of_int (now_ns + act_ttl act * ns_per_s))
         | AddFailed ip rc why \<Rightarrow>
             m' = m \<and> rc \<noteq> 0 \<and>
             (bl_fd bl < 0 \<longrightarrow> rc = - ENOENT) \<and>
             (0 \<le> bl_fd bl \<and> act_ttl act \<le> 0 \<longrightarrow> rc = - EINVAL)"
proof -
  obtain rc m1 where a: "add upd bl now_ns m (act_src_ip_v4 act) (act_ttl act) = (rc, m1)"
    by fastforce
  have base: "bpf_map upd" using assms(1) by (rule bpf_hash_map.axioms)
  show ?thesis
  proof (cases "rc = 0")
    case True
    then show ?thesis using assms(2) a add_success_map [OF assms(1), of bl now_ns m]
      by (auto simp: BlocklistAddAction_execute_def)
  next
    case False
    then have "m1 = m" using add_failure_map [OF base a] by simp
    then show ?thesis using assms(2) a False
      by (auto simp: BlocklistAddAction_execute_def add_def)
  qed
qed

theorem BlocklistAddAction_outcome_witness:
  "BlocklistAddAction_execute src_blocklist_update \<lparr>bl_fd = -1\<rparr> 5
     \<lparr>act_src_ip_v4 = 9, act_ttl = 300, act_reason = ''r''\<rparr> Map.empty = (AddFailed ''9.0.0.0'' (-2) ''r'', Map.empty)
   \<and> (-2 :: int) = - ENOENT"
proof -
  have e: "BlocklistAddAction_execute src_blocklist_update \<lparr>bl_fd = -1\<rparr> 5
     \<lparr>act_src_ip_v4 = 9, act_ttl = 300, act_reason = ''r''\<rparr> Map.empty = (AddFailed ''9.0.0.0'' (-2) ''r'', Map.empty)"
    by (simp add: BlocklistAddAction_execute_def add_def ENOENT_def formatIp_def inet_ntop4_def byte_at_def
        to_string_small digit_char_def char_of_def bit_0)
  show ?thesis using e BlocklistAddAction_outcome [OF bl_map.bpf_hash_map_axioms e] by simp
qed

end
