(* ===== verification/Conn_Rate.thy ===== *)
theory Conn_Rate
  imports Bpf_Map
begin

text \<open>
  \<open>programs/xdp_tls/ebpf/conn_rate.bpf.h\<close>: the per-source counters.  \<open>conn_rate_record\<close> is the
  whole BPF function; \<open>conn_rate_entry\<close> is what it does to the entry of one source, the view
  the sweep has of it.  The locale \<open>source_counters\<close> states that view as a contract and derives
  that no source is ever charged with more than it sent, whatever the LRU map evicts.
\<close>

definition HTTPS_GUARD_CONN_RATE_MAX_ENTRIES :: nat where
  "HTTPS_GUARD_CONN_RATE_MAX_ENTRIES = 4096"

definition HTTPS_GUARD_CONN_RATE_WINDOW_SEC :: nat where
  "HTTPS_GUARD_CONN_RATE_WINDOW_SEC = 10"

text \<open>\<open>open_conns\<close> is the \<open>int32_t\<close> level: the same 32 bits read with \<open>sint\<close>.  The struct's trailing
  \<open>padding\<close>, which nothing reads, is left out.\<close>

record hg_conn_rate =
  window_start_ns :: u64
  syn_count :: u32
  hello_count :: u32
  open_conns :: u32

datatype hg_conn_event = HG_CONN_ATTEMPT | HG_CONN_CLOSED | HG_CONN_HELLO

type_synonym conn_rate_map = "u32 \<rightharpoonup> hg_conn_rate"

text \<open>The map as declared: LRU, 4096 entries; which entry it evicts is the kernel's choice.\<close>

definition conn_rate_map_update :: "(conn_rate_map \<Rightarrow> u32) \<Rightarrow> (u32, hg_conn_rate) bpf_update" where
  "conn_rate_map_update victim = lru_update HTTPS_GUARD_CONN_RATE_MAX_ENTRIES victim"

definition window_ns :: u64 where
  "window_ns = of_nat HTTPS_GUARD_CONN_RATE_WINDOW_SEC * 1000000000"

definition conn_rate_fresh :: "u64 \<Rightarrow> hg_conn_event \<Rightarrow> hg_conn_rate" where
  "conn_rate_fresh now what =
     \<lparr>window_start_ns = now,
      syn_count = (if what = HG_CONN_ATTEMPT then 1 else 0),
      hello_count = (if what = HG_CONN_HELLO then 1 else 0),
      open_conns = (if what = HG_CONN_ATTEMPT then 1 else 0)\<rparr>"

definition conn_rate_roll :: "u64 \<Rightarrow> hg_conn_rate \<Rightarrow> hg_conn_rate" where
  "conn_rate_roll now entry =
     (if window_ns < now - window_start_ns entry
      then entry\<lparr>window_start_ns := now, syn_count := 0, hello_count := 0\<rparr>
      else entry)"

fun conn_rate_bump :: "hg_conn_event \<Rightarrow> hg_conn_rate \<Rightarrow> hg_conn_rate" where
  "conn_rate_bump HG_CONN_ATTEMPT entry =
     (let entry = (if syn_count entry < 0xFFFFFFFF
                   then entry\<lparr>syn_count := syn_count entry + 1\<rparr> else entry)
      in if sint (open_conns entry) < 0x7FFFFFFF
         then entry\<lparr>open_conns := open_conns entry + 1\<rparr> else entry)"
| "conn_rate_bump HG_CONN_HELLO entry =
     (if hello_count entry < 0xFFFFFFFF
      then entry\<lparr>hello_count := hello_count entry + 1\<rparr> else entry)"
| "conn_rate_bump HG_CONN_CLOSED entry =
     (if 0 < sint (open_conns entry)
      then entry\<lparr>open_conns := open_conns entry - 1\<rparr> else entry)"

definition conn_rate_record ::
  "(u32, hg_conn_rate) bpf_update \<Rightarrow> u64 \<Rightarrow> conn_rate_map \<Rightarrow> u32 \<Rightarrow> hg_conn_event \<Rightarrow> conn_rate_map" where
  "conn_rate_record upd now conn_rate src_ip what =
     (case conn_rate src_ip of
        None \<Rightarrow> if what = HG_CONN_CLOSED then conn_rate
                else snd (upd conn_rate src_ip (conn_rate_fresh now what))
      | Some entry \<Rightarrow> conn_rate(src_ip \<mapsto> conn_rate_bump what (conn_rate_roll now entry)))"

section \<open>One source\<close>

definition conn_rate_entry :: "u64 \<Rightarrow> hg_conn_event \<Rightarrow> hg_conn_rate option \<Rightarrow> hg_conn_rate option" where
  "conn_rate_entry now what e =
     (case e of
        None \<Rightarrow> if what = HG_CONN_CLOSED then None else Some (conn_rate_fresh now what)
      | Some entry \<Rightarrow> Some (conn_rate_bump what (conn_rate_roll now entry)))"

definition level :: "hg_conn_rate \<Rightarrow> nat" where
  "level e = nat (sint (open_conns e))"

text \<open>The invariant: the level is never negative.\<close>

definition wf_conn_rate :: "hg_conn_rate \<Rightarrow> bool" where
  "wf_conn_rate e \<longleftrightarrow> 0 \<le> sint (open_conns e)"

lemma sint_u32_bounds: "- (2 ^ 31) \<le> sint (w :: u32)" "sint (w :: u32) < 2 ^ 31"
  using sint_range_size [of w] by (simp_all add: word_size)

lemma sint_u32_of_int: "- (2 ^ 31) \<le> k \<Longrightarrow> k < 2 ^ 31 \<Longrightarrow> sint (word_of_int k :: u32) = k"
  by (simp add: signed_of_int signed_take_bit_int_eq_self)

lemma sint_u32_add1: "sint (w :: u32) < 0x7FFFFFFF \<Longrightarrow> sint (w + 1) = sint w + 1"
  using sint_u32_of_int [of "sint w + 1"] sint_u32_bounds [of w] by simp

lemma sint_u32_sub1: "0 < sint (w :: u32) \<Longrightarrow> sint (w - 1) = sint w - 1"
  using sint_u32_of_int [of "sint w - 1"] sint_u32_bounds [of w] by simp

lemma unat_u32_add1: "w < 0xFFFFFFFF \<Longrightarrow> unat (w + 1 :: u32) = unat w + 1"
  by (simp add: word_less_nat_alt unat_word_ariths)

lemma unat_u32_saturate:
  "unat (if w < 0xFFFFFFFF then w + 1 else (w :: u32)) = min (unat w + 1) 4294967295"
proof (cases "w < 0xFFFFFFFF")
  case True
  then have "unat w < 4294967295" by (simp add: word_less_nat_alt)
  with True show ?thesis by (simp add: unat_u32_add1)
next
  case False
  then have "4294967295 \<le> unat w" by (simp add: word_less_nat_alt)
  with False unat_u32_bound [of w] have "unat w = 4294967295" by linarith
  with False show ?thesis by simp
qed

lemma conn_rate_bump_fields:
  "syn_count (conn_rate_bump what e) =
     (if what = HG_CONN_ATTEMPT then (if syn_count e < 0xFFFFFFFF then syn_count e + 1 else syn_count e)
      else syn_count e)"
  "hello_count (conn_rate_bump what e) =
     (if what = HG_CONN_HELLO then (if hello_count e < 0xFFFFFFFF then hello_count e + 1 else hello_count e)
      else hello_count e)"
  "open_conns (conn_rate_bump what e) =
     (case what of
        HG_CONN_ATTEMPT \<Rightarrow> if sint (open_conns e) < 0x7FFFFFFF then open_conns e + 1 else open_conns e
      | HG_CONN_CLOSED \<Rightarrow> if 0 < sint (open_conns e) then open_conns e - 1 else open_conns e
      | HG_CONN_HELLO \<Rightarrow> open_conns e)"
  by (cases what; simp add: Let_def)+

declare conn_rate_bump.simps [simp del]

lemma level_bound: "level e < 2 ^ 31"
  using sint_u32_bounds(2) [of "open_conns e"] by (simp add: level_def)

lemma wf_conn_rate_fresh [simp, wf_intros]: "wf_conn_rate (conn_rate_fresh now what)"
  by (simp add: wf_conn_rate_def conn_rate_fresh_def)

lemma conn_rate_roll_open [simp]: "open_conns (conn_rate_roll now e) = open_conns e"
  by (simp add: conn_rate_roll_def)

lemma wf_conn_rate_roll [simp]: "wf_conn_rate (conn_rate_roll now e) = wf_conn_rate e"
  by (simp add: wf_conn_rate_def)

lemma wf_conn_rate_bump [wf_intros]: "wf_conn_rate e \<Longrightarrow> wf_conn_rate (conn_rate_bump what e)"
  by (cases what) (auto simp: wf_conn_rate_def conn_rate_bump_fields sint_u32_add1 sint_u32_sub1)

text \<open>What one bump does to the three counters, read as natural numbers.\<close>

lemma conn_rate_bump_counts:
  "unat (syn_count (conn_rate_bump what e)) =
     (if what = HG_CONN_ATTEMPT then min (unat (syn_count e) + 1) 4294967295 else unat (syn_count e))"
  "unat (hello_count (conn_rate_bump what e)) =
     (if what = HG_CONN_HELLO then min (unat (hello_count e) + 1) 4294967295 else unat (hello_count e))"
  by (simp_all only: conn_rate_bump_fields unat_u32_saturate split: if_split) simp_all

lemma conn_rate_bump_level:
  assumes "wf_conn_rate e"
  shows "level (conn_rate_bump what e) =
           (case what of HG_CONN_ATTEMPT \<Rightarrow> min (level e + 1) 0x7FFFFFFF
                       | HG_CONN_CLOSED \<Rightarrow> level e - 1
                       | HG_CONN_HELLO \<Rightarrow> level e)"
  using assms sint_u32_bounds [of "open_conns e"]
  by (cases what) (auto simp: level_def wf_conn_rate_def conn_rate_bump_fields sint_u32_add1 sint_u32_sub1
      nat_diff_distrib nat_add_distrib min_def)

lemma conn_rate_roll_level [simp]: "level (conn_rate_roll now e) = level e"
  by (simp add: level_def)

lemma conn_rate_roll_same: "now - window_start_ns e \<le> window_ns \<Longrightarrow> conn_rate_roll now e = e"
  by (auto simp: conn_rate_roll_def)

lemma conn_rate_bump_window [simp]: "window_start_ns (conn_rate_bump what e) = window_start_ns e"
  by (cases what) (simp_all add: conn_rate_bump.simps Let_def)

text \<open>The abstract level, as a count of held-open connections.\<close>

definition level_step :: "nat \<Rightarrow> hg_conn_event \<Rightarrow> nat" where
  "level_step n what = (case what of HG_CONN_ATTEMPT \<Rightarrow> min (n + 1) 0x7FFFFFFF
                        | HG_CONN_CLOSED \<Rightarrow> n - 1 | HG_CONN_HELLO \<Rightarrow> n)"

section \<open>The map\<close>

lemma conn_rate_record_own:
  assumes "bpf_lru_map upd"
  shows "conn_rate_record upd t m ip w ip = conn_rate_entry t w (m ip)"
  by (simp add: conn_rate_record_def conn_rate_entry_def bpf_lru_map.upd_now [OF assms] split: option.splits)

lemma conn_rate_record_other:
  assumes "bpf_map upd" "ip' \<noteq> ip"
  shows "conn_rate_record upd t m ip w ip' = m ip' \<or> conn_rate_record upd t m ip w ip' = None"
  using assms(2) bpf_map.upd_others [OF assms]
  by (auto simp: conn_rate_record_def split: option.splits)

fun run_obs :: "(u64 \<Rightarrow> 'm \<Rightarrow> u32 \<Rightarrow> hg_conn_event \<Rightarrow> 'm) \<Rightarrow> 'm
    \<Rightarrow> (u64 \<times> u32 \<times> hg_conn_event) list \<Rightarrow> 'm" where
  "run_obs rec m [] = m"
| "run_obs rec m ((t, ip, w) # os) = run_obs rec (rec t m ip w) os"

lemma run_obs_snoc: "run_obs rec m (os @ [(t, ip, w)]) = rec t (run_obs rec m os) ip w"
  by (induction os arbitrary: m) auto

definition sent :: "u32 \<Rightarrow> hg_conn_event \<Rightarrow> (u64 \<times> u32 \<times> hg_conn_event) list \<Rightarrow> nat" where
  "sent ip w os = length (filter (\<lambda>(t, i, v). i = ip \<and> v = w) os)"

lemma sent_snoc:
  "sent ip w (os @ [(t, i, v)]) = sent ip w os + (if i = ip \<and> v = w then 1 else 0)"
  by (simp add: sent_def)

text \<open>The bound of a counter by what the source sent, for one entry.\<close>

definition charged_at_most :: "nat \<Rightarrow> nat \<Rightarrow> hg_conn_rate \<Rightarrow> bool" where
  "charged_at_most a h e \<longleftrightarrow>
     wf_conn_rate e \<and> unat (syn_count e) \<le> a \<and> unat (hello_count e) \<le> h \<and> level e \<le> a"

lemma charged_mono: "charged_at_most a h e \<Longrightarrow> a \<le> a' \<Longrightarrow> h \<le> h' \<Longrightarrow> charged_at_most a' h' e"
  by (auto simp: charged_at_most_def)

lemma charged_roll: "charged_at_most a h e \<Longrightarrow> charged_at_most a h (conn_rate_roll t e)"
  by (auto simp: charged_at_most_def conn_rate_roll_def level_def wf_conn_rate_def)

lemma charged_fresh:
  "w \<noteq> HG_CONN_CLOSED \<Longrightarrow>
   charged_at_most (if w = HG_CONN_ATTEMPT then 1 else 0) (if w = HG_CONN_HELLO then 1 else 0) (conn_rate_fresh t w)"
  by (cases w) (auto simp: charged_at_most_def conn_rate_fresh_def level_def wf_conn_rate_def)

lemma charged_bump:
  assumes "charged_at_most a h e"
  shows "charged_at_most (a + (if w = HG_CONN_ATTEMPT then 1 else 0)) (h + (if w = HG_CONN_HELLO then 1 else 0))
           (conn_rate_bump w e)"
  using assms wf_conn_rate_bump [of e w]
  by (cases w) (auto simp: charged_at_most_def conn_rate_bump_counts conn_rate_bump_level)

lemma charged_entry:
  assumes "conn_rate_entry t w x = Some e" "\<And>e0. x = Some e0 \<Longrightarrow> charged_at_most a h e0"
  shows "charged_at_most (a + (if w = HG_CONN_ATTEMPT then 1 else 0)) (h + (if w = HG_CONN_HELLO then 1 else 0)) e"
proof (cases x)
  case None
  with assms(1) have "w \<noteq> HG_CONN_CLOSED" "e = conn_rate_fresh t w"
    by (auto simp: conn_rate_entry_def split: if_splits)
  then show ?thesis by (auto intro: charged_mono [OF charged_fresh])
next
  case (Some e0)
  with assms(1) have "e = conn_rate_bump w (conn_rate_roll t e0)" by (simp add: conn_rate_entry_def)
  with assms(2) [OF Some] show ?thesis by (simp only: charged_bump charged_roll)
qed

locale source_counters =
  fixes rec :: "u64 \<Rightarrow> 'm \<Rightarrow> u32 \<Rightarrow> hg_conn_event \<Rightarrow> 'm"
    and entry_of :: "'m \<Rightarrow> u32 \<Rightarrow> hg_conn_rate option"
  assumes rec_own: "entry_of (rec t m ip w) ip = conn_rate_entry t w (entry_of m ip)"
    and rec_other: "ip' \<noteq> ip \<Longrightarrow>
      entry_of (rec t m ip w) ip' = entry_of m ip' \<or> entry_of (rec t m ip w) ip' = None"
begin

lemma run_charged:
  assumes "\<And>ip. entry_of m ip = None" "entry_of (run_obs rec m os) ip = Some e"
  shows "charged_at_most (sent ip HG_CONN_ATTEMPT os) (sent ip HG_CONN_HELLO os) e"
  using assms(2)
proof (induction os arbitrary: e rule: rev_induct)
  case Nil
  then show ?case using assms(1) by simp
next
  case (snoc ob os)
  obtain t i w where ob: "ob = (t, i, w)" by (cases ob)
  show ?case
  proof (cases "i = ip")
    case True
    have "conn_rate_entry t w (entry_of (run_obs rec m os) ip) = Some e"
      using snoc.prems True by (simp add: ob run_obs_snoc rec_own)
    from charged_entry [OF this snoc.IH] show ?thesis using True by (simp add: ob sent_snoc)
  next
    case False
    then have "entry_of (run_obs rec m os) ip = Some e"
      using snoc.prems rec_other [of ip i t "run_obs rec m os" w] by (auto simp: ob run_obs_snoc)
    from snoc.IH [OF this] False show ?thesis by (simp add: ob sent_snoc)
  qed
qed

end

lemma conn_rate_lru: "bpf_lru_map (conn_rate_map_update victim)"
  unfolding conn_rate_map_update_def by (rule lru_update_bpf_lru_map)

definition conn_rate_lookup :: "conn_rate_map \<Rightarrow> u32 \<Rightarrow> hg_conn_rate option" where
  "conn_rate_lookup m ip = m ip"

interpretation cr: source_counters "conn_rate_record (conn_rate_map_update victim)" conn_rate_lookup for victim
proof unfold_locales
  fix t m ip w
  show "conn_rate_lookup (conn_rate_record (conn_rate_map_update victim) t m ip w) ip =
          conn_rate_entry t w (conn_rate_lookup m ip)"
    unfolding conn_rate_lookup_def by (rule conn_rate_record_own [OF conn_rate_lru])
next
  fix ip' ip :: u32 and t m w
  assume "ip' \<noteq> ip"
  then show "conn_rate_lookup (conn_rate_record (conn_rate_map_update victim) t m ip w) ip' = conn_rate_lookup m ip' \<or>
             conn_rate_lookup (conn_rate_record (conn_rate_map_update victim) t m ip w) ip' = None"
    unfolding conn_rate_lookup_def by (rule conn_rate_record_other [OF bpf_lru_map.axioms(1) [OF conn_rate_lru]])
qed

lemma min_add_saturate: "min (min a M + n) M = min (a + n) (M :: nat)"
  by auto

section \<open>Properties\<close>

text \<open>C16: no source is ever charged with more than it sent.  After any interleaving of
  observations of any sources, on the LRU map whatever it evicts, an entry that is present has
  at most as many SYNs and held-open connections as its source made attempts, at most as many
  handshakes as its source sent, and a level that is not negative.\<close>

theorem conn_rate_no_overcharge:
  assumes "run_obs (conn_rate_record (conn_rate_map_update victim)) Map.empty os ip = Some e"
  shows "unat (syn_count e) \<le> sent ip HG_CONN_ATTEMPT os
       \<and> unat (hello_count e) \<le> sent ip HG_CONN_HELLO os
       \<and> 0 \<le> sint (open_conns e) \<and> sint (open_conns e) \<le> int (sent ip HG_CONN_ATTEMPT os)"
  using cr.run_charged [of Map.empty victim os ip e] assms
  by (auto simp: conn_rate_lookup_def charged_at_most_def level_def wf_conn_rate_def)

theorem conn_rate_no_overcharge_witness:
  "\<exists>e. run_obs (conn_rate_record (conn_rate_map_update (\<lambda>_. 0))) Map.empty
         [(5, 1, HG_CONN_ATTEMPT), (6, 2, HG_CONN_ATTEMPT), (7, 1, HG_CONN_HELLO)] 1 = Some e
     \<and> unat (hello_count e) \<le> sent 1 HG_CONN_HELLO
         [(5, 1, HG_CONN_ATTEMPT), (6, 2, HG_CONN_ATTEMPT), (7, 1, HG_CONN_HELLO)]"
proof -
  let ?os = "[(5, 1, HG_CONN_ATTEMPT), (6, 2, HG_CONN_ATTEMPT), (7, 1, HG_CONN_HELLO)]"
  have "\<exists>e. run_obs (conn_rate_record (conn_rate_map_update (\<lambda>_. 0))) Map.empty ?os 1 = Some e"
    by (simp add: conn_rate_record_def conn_rate_map_update_def lru_update_def
        HTTPS_GUARD_CONN_RATE_MAX_ENTRIES_def)
  then show ?thesis using conn_rate_no_overcharge [of "\<lambda>_. 0" ?os 1] by blast
qed

text \<open>Within one window nothing is lost.  While every observation of a source falls inside
  the window its entry opened, the SYN and handshake counters are exactly the number of
  attempts and handshakes, saturated at \<open>0xFFFFFFFF\<close> instead of wrapping to an innocent value.\<close>

theorem conn_rate_window_exact:
  assumes "m ip = Some e"
    and "\<forall>(t, i, w) \<in> set os. i = ip \<and> t - window_start_ns e \<le> window_ns"
  shows "\<exists>e'. run_obs (conn_rate_record upd) m os ip = Some e'
       \<and> unat (syn_count e') = min (unat (syn_count e) + sent ip HG_CONN_ATTEMPT os) 0xFFFFFFFF
       \<and> unat (hello_count e') = min (unat (hello_count e) + sent ip HG_CONN_HELLO os) 0xFFFFFFFF"
  using assms
proof (induction os arbitrary: m e)
  case Nil
  have "unat (syn_count e) \<le> 0xFFFFFFFF" "unat (hello_count e) \<le> 0xFFFFFFFF"
    using unat_u32_bound [of "syn_count e"] unat_u32_bound [of "hello_count e"] by linarith+
  with Nil show ?case by (simp add: sent_def)
next
  case (Cons ob os)
  obtain t w where ob: "ob = (t, ip, w)" and t: "t - window_start_ns e \<le> window_ns"
    using Cons.prems(2) by (cases ob) auto
  let ?e = "conn_rate_bump w e" and ?m = "conn_rate_record upd t m ip w"
  have m: "?m ip = Some ?e"
    by (simp add: conn_rate_record_def Cons.prems(1) conn_rate_roll_same [OF t])
  obtain e' where e': "run_obs (conn_rate_record upd) ?m os ip = Some e'"
      "unat (syn_count e') = min (unat (syn_count ?e) + sent ip HG_CONN_ATTEMPT os) 0xFFFFFFFF"
      "unat (hello_count e') = min (unat (hello_count ?e) + sent ip HG_CONN_HELLO os) 0xFFFFFFFF"
    using Cons.IH [of ?m ?e] m Cons.prems(2) by auto
  have s: "sent ip v (ob # os) = (if w = v then 1 else 0) + sent ip v os" for v
    by (simp add: sent_def ob)
  have "unat (syn_count e') = min (unat (syn_count e) + sent ip HG_CONN_ATTEMPT (ob # os)) 0xFFFFFFFF"
    "unat (hello_count e') = min (unat (hello_count e) + sent ip HG_CONN_HELLO (ob # os)) 0xFFFFFFFF"
    by (simp_all add: e'(2,3) s conn_rate_bump_counts min_add_saturate)
  with e'(1) show ?case by (auto simp: ob)
qed

theorem conn_rate_window_exact_witness:
  "\<exists>e'. run_obs (conn_rate_record (conn_rate_map_update (\<lambda>_. 0)))
          [1 \<mapsto> conn_rate_fresh 0 HG_CONN_ATTEMPT]
          [(5, 1, HG_CONN_ATTEMPT), (10000000000, 1, HG_CONN_ATTEMPT), (6, 1, HG_CONN_HELLO)] 1 = Some e'
       \<and> unat (syn_count e') = 3 \<and> unat (hello_count e') = 1"
  using conn_rate_window_exact
    [of "[1 \<mapsto> conn_rate_fresh 0 HG_CONN_ATTEMPT]" 1 "conn_rate_fresh 0 HG_CONN_ATTEMPT"
        "[(5, 1, HG_CONN_ATTEMPT), (10000000000, 1, HG_CONN_ATTEMPT), (6, 1, HG_CONN_HELLO)]"
        "conn_rate_map_update (\<lambda>_. 0)"]
  by (auto simp: conn_rate_fresh_def window_ns_def HTTPS_GUARD_CONN_RATE_WINDOW_SEC_def sent_def numeral_3_eq_3)

text \<open>C33: the held-open level refines the abstract count.  Starting from a well-formed entry,
  any sequence of observations of the source, at any times, leaves an entry whose level is
  the fold of \<open>level_step\<close>: a window roll resets the rates and never the level, closes floor at
  zero, and the level saturates below the sign bit.\<close>

theorem conn_rate_level_refines:
  assumes "m ip = Some e" and "wf_conn_rate e" and "\<forall>(t, i, w) \<in> set os. i = ip"
  shows "\<exists>e'. run_obs (conn_rate_record upd) m os ip = Some e' \<and> wf_conn_rate e'
       \<and> level e' = foldl level_step (level e) (map (\<lambda>(t, i, w). w) os)"
  using assms
proof (induction os arbitrary: m e)
  case Nil
  then show ?case by simp
next
  case (Cons ob os)
  obtain t w where ob: "ob = (t, ip, w)" using Cons.prems(3) by (cases ob) auto
  let ?e = "conn_rate_bump w (conn_rate_roll t e)" and ?m = "conn_rate_record upd t m ip w"
  have m: "?m ip = Some ?e" by (simp add: conn_rate_record_def Cons.prems(1))
  have wf: "wf_conn_rate ?e" using Cons.prems(2) by (simp add: wf_conn_rate_bump)
  have "level ?e = level_step (level e) w"
    using Cons.prems(2) by (simp add: conn_rate_bump_level level_step_def split: hg_conn_event.split)
  with Cons.IH [of ?m ?e] m wf Cons.prems(3) show ?case by (auto simp: ob)
qed

theorem conn_rate_level_refines_witness:
  "\<exists>e'. run_obs (conn_rate_record (conn_rate_map_update (\<lambda>_. 0)))
          [1 \<mapsto> conn_rate_fresh 0 HG_CONN_ATTEMPT]
          [(20000000000, 1, HG_CONN_CLOSED), (20000000001, 1, HG_CONN_CLOSED), (40000000000, 1, HG_CONN_ATTEMPT)] 1
        = Some e' \<and> level e' = 1"
  using conn_rate_level_refines
    [of "[1 \<mapsto> conn_rate_fresh 0 HG_CONN_ATTEMPT]" 1 "conn_rate_fresh 0 HG_CONN_ATTEMPT"
        "[(20000000000, 1, HG_CONN_CLOSED), (20000000001, 1, HG_CONN_CLOSED), (40000000000, 1, HG_CONN_ATTEMPT)]"
        "conn_rate_map_update (\<lambda>_. 0)"]
  by (auto simp: level_step_def level_def conn_rate_fresh_def wf_conn_rate_def)

end
