(* ===== verification/Client_Hello.thy ===== *)
theory Client_Hello
  imports Prelude
begin

unbundle bit_operations_syntax

text \<open>
  \<open>programs/xdp_tls/ebpf/parse_client_hello.h\<close>: the bounds-checked walk of a ClientHello that
  extracts the offered cipher suites and the SNI host name.  The bytes from \<open>ch\<close> up to \<open>end\<close> are
  a list; \<open>hg_ch_u8\<close> is the only read and refuses an offset past its end or past
  \<open>HG_CH_MAX_SCAN\<close>.  The \<open>uint32_t\<close> offsets are natural numbers: an offset only advances
  after a successful read at it, hence from below 1024 and by at most 516, so no offset comes
  near \<open>2^32\<close> and none wraps.  The two unrolled loops recurse on the number of trips left.
  \<open>encode_hello\<close> is the wire format of RFC 8446, written independently of the parser, against
  which the parser is proved.
\<close>

definition HG_CH_MAX_SCAN :: nat where "HG_CH_MAX_SCAN = 1024"
definition HG_CH_MAX_EXTS :: nat where "HG_CH_MAX_EXTS = 16"
definition HG_MAX_CIPHER_SUITES :: nat where "HG_MAX_CIPHER_SUITES = 32"
definition HG_SNI_LEN :: nat where "HG_SNI_LEN = 64"

lemmas ch_consts [simp] =
  HG_CH_MAX_SCAN_def HG_CH_MAX_EXTS_def HG_MAX_CIPHER_SUITES_def HG_SNI_LEN_def

record hg_client_hello =
  cipher_suites :: "u16 list"
  cipher_suite_count :: u16
  cipher_suites_offered :: u16
  sni_present :: u8
  sni_malformed :: u8
  ch_padding :: u16
  sni_hostname :: string

definition zero_client_hello :: hg_client_hello where
  "zero_client_hello =
     \<lparr>cipher_suites = replicate HG_MAX_CIPHER_SUITES 0, cipher_suite_count = 0,
      cipher_suites_offered = 0, sni_present = 0, sni_malformed = 0, ch_padding = 0,
      sni_hostname = replicate HG_SNI_LEN NUL\<rparr>"

section \<open>The parser\<close>

definition hg_ch_u8 :: "u8 list \<Rightarrow> nat \<Rightarrow> nat option" where
  "hg_ch_u8 bs off =
     (if HG_CH_MAX_SCAN \<le> off then None
      else if length bs < off + 1 then None
      else Some (unat (bs ! off)))"

definition hg_ch_u16 :: "u8 list \<Rightarrow> nat \<Rightarrow> nat option" where
  "hg_ch_u16 bs off =
     (case hg_ch_u8 bs off of
        None \<Rightarrow> None
      | Some hi \<Rightarrow> (case hg_ch_u8 bs (off + 1) of
                      None \<Rightarrow> None
                    | Some lo \<Rightarrow> Some (push_bit 8 hi OR lo)))"

text \<open>\<open>capture_suites trips i\<close>: the loop over the offered suites at iteration \<open>i\<close>, with the
  array and \<open>captured\<close>.\<close>

fun capture_suites ::
  "nat \<Rightarrow> nat \<Rightarrow> u8 list \<Rightarrow> nat \<Rightarrow> nat \<Rightarrow> u16 list \<Rightarrow> nat \<Rightarrow> u16 list \<times> nat" where
  "capture_suites 0 i bs off cs_len suites captured = (suites, captured)"
| "capture_suites (Suc trips) i bs off cs_len suites captured =
     (if cs_len \<le> i * 2 then (suites, captured)
      else case hg_ch_u16 bs (off + i * 2) of
             None \<Rightarrow> (suites, captured)
           | Some suite \<Rightarrow>
               capture_suites trips (Suc i) bs off cs_len
                 (suites[i := word_of_nat suite]) (captured + 1))"

text \<open>\<open>capture_name trips k\<close>: the loop over the bytes of the host name, with the array and \<open>n\<close>.\<close>

fun capture_name ::
  "nat \<Rightarrow> nat \<Rightarrow> u8 list \<Rightarrow> nat \<Rightarrow> nat \<Rightarrow> string \<Rightarrow> nat \<Rightarrow> string \<times> nat" where
  "capture_name 0 k bs off nlen name n = (name, n)"
| "capture_name (Suc trips) k bs off nlen name n =
     (if nlen \<le> k then (name, n)
      else case hg_ch_u8 bs (off + k) of
             None \<Rightarrow> (name, n)
           | Some c \<Rightarrow>
               capture_name trips (Suc k) bs off nlen (name[k := char_of c]) (n + 1))"

definition parse_server_name :: "hg_client_hello \<Rightarrow> u8 list \<Rightarrow> nat \<Rightarrow> hg_client_hello" where
  "parse_server_name out bs off =
     (case (hg_ch_u16 bs off, hg_ch_u8 bs (off + 2), hg_ch_u16 bs (off + 3)) of
        (Some list_len, Some ntype, Some nlen) \<Rightarrow>
          if ntype \<noteq> 0 \<or> nlen = 0 \<or> list_len < nlen + 3 then out\<lparr>sni_malformed := 1\<rparr>
          else
            let (name, n) = capture_name (HG_SNI_LEN - 1) 0 bs (off + 5) nlen (sni_hostname out) 0;
                n = (if HG_SNI_LEN - 1 < n then HG_SNI_LEN - 1 else n);
                out = out\<lparr>sni_hostname := name[n := NUL]\<rparr>;
                out = out\<lparr>sni_present := (if 0 < n then 1 else 0)\<rparr>
            in if n < nlen then out\<lparr>sni_malformed := 1\<rparr> else out
      | _ \<Rightarrow> out\<lparr>sni_malformed := 1\<rparr>)"

text \<open>\<open>ext_walk trips off\<close>: the loop over the extensions.\<close>

fun ext_walk :: "nat \<Rightarrow> hg_client_hello \<Rightarrow> u8 list \<Rightarrow> nat \<Rightarrow> hg_client_hello" where
  "ext_walk 0 out bs off = out"
| "ext_walk (Suc trips) out bs off =
     (case hg_ch_u16 bs off of
        None \<Rightarrow> out
      | Some etype \<Rightarrow>
          (case hg_ch_u16 bs (off + 2) of
             None \<Rightarrow> out
           | Some elen \<Rightarrow>
               if 512 < elen then out
               else if etype \<noteq> 0 then ext_walk trips out bs (off + 4 + elen)
               else parse_server_name out bs (off + 4)))"

definition parse_client_hello_detail :: "hg_client_hello \<Rightarrow> u8 list \<Rightarrow> hg_client_hello" where
  "parse_client_hello_detail out bs =
     (let off = 2 + 32 in
      case hg_ch_u8 bs off of None \<Rightarrow> out
      | Some sid_len \<Rightarrow>
        if 32 < sid_len then out\<lparr>sni_malformed := 1\<rparr>
        else let off = off + 1 + sid_len in
        case hg_ch_u16 bs off of None \<Rightarrow> out
        | Some cs_len \<Rightarrow>
          let off = off + 2 in
          if cs_len = 0 \<or> odd cs_len then out\<lparr>sni_malformed := 1\<rparr>
          else
            let out = out\<lparr>cipher_suites_offered := word_of_nat (cs_len div 2)\<rparr>;
                (suites, captured) =
                  capture_suites HG_MAX_CIPHER_SUITES 0 bs off cs_len (cipher_suites out) 0;
                out = out\<lparr>cipher_suites := suites, cipher_suite_count := word_of_nat captured\<rparr>
            in
            if 512 < cs_len then out
            else let off = off + cs_len in
            case hg_ch_u8 bs off of None \<Rightarrow> out
            | Some comp_len \<Rightarrow>
              if 16 < comp_len then out\<lparr>sni_malformed := 1\<rparr>
              else let off = off + 1 + comp_len in
              case hg_ch_u16 bs off of None \<Rightarrow> out
              | Some ext_total \<Rightarrow> ext_walk HG_CH_MAX_EXTS out bs (off + 2))"

section \<open>The wire format\<close>

definition be16_bytes :: "nat \<Rightarrow> u8 list" where
  "be16_bytes n = [word_of_nat (n div 256), word_of_nat (n mod 256)]"

datatype ext = Server_name "u8 list" | Other nat "u8 list"

record hello =
  h_prefix :: "u8 list"  \<comment> \<open>legacy version and random, 34 bytes\<close>
  h_session_id :: "u8 list"
  h_suites :: "u16 list"
  h_compression :: "u8 list"
  h_exts :: "ext list"

fun encode_ext :: "ext \<Rightarrow> u8 list" where
  "encode_ext (Server_name name) =
     be16_bytes 0 @ be16_bytes (length name + 5) @
     be16_bytes (length name + 3) @ [0] @ be16_bytes (length name) @ name"
| "encode_ext (Other etype body) = be16_bytes etype @ be16_bytes (length body) @ body"

fun wf_ext :: "ext \<Rightarrow> bool" where
  "wf_ext (Server_name name) \<longleftrightarrow> name \<noteq> [] \<and> length name \<le> 507"
| "wf_ext (Other etype body) \<longleftrightarrow> etype \<noteq> 0 \<and> etype < 65536 \<and> length body \<le> 512"

definition encode_hello :: "hello \<Rightarrow> u8 list" where
  "encode_hello h =
     h_prefix h @ [word_of_nat (length (h_session_id h))] @ h_session_id h @
     be16_bytes (2 * length (h_suites h)) @ concat (map (\<lambda>s. be16_bytes (unat s)) (h_suites h)) @
     [word_of_nat (length (h_compression h))] @ h_compression h @
     be16_bytes (length (concat (map encode_ext (h_exts h)))) @ concat (map encode_ext (h_exts h))"

section \<open>Reads\<close>

lemma or_byte: "lo < 256 \<Longrightarrow> push_bit 8 hi OR lo = hi * 256 + (lo :: nat)"
proof -
  assume lo: "lo < 256"
  have lt: "take_bit 8 lo = lo" using lo by (simp add: take_bit_eq_mod)
  have "push_bit 8 hi AND lo = push_bit 8 hi AND take_bit 8 lo" by (simp add: lt)
  also have "\<dots> = 0" by (rule bit_eqI) (auto simp: bit_simps)
  finally have "push_bit 8 hi OR lo = push_bit 8 hi + lo" by (simp add: disjunctive_add_eq_or)
  then show ?thesis by (simp add: push_bit_eq_mult)
qed

lemma hg_ch_u8_Some_iff:
  "hg_ch_u8 bs off = Some v \<longleftrightarrow> off < 1024 \<and> off < length bs \<and> v = unat (bs ! off)"
  by (auto simp: hg_ch_u8_def)

lemma hg_ch_u8_less: "hg_ch_u8 bs off = Some v \<Longrightarrow> v < 256"
  by (auto simp: hg_ch_u8_Some_iff)

lemma hg_ch_u16_Some_iff:
  "hg_ch_u16 bs off = Some v \<longleftrightarrow>
     off + 1 < 1024 \<and> off + 1 < length bs \<and> v = unat (bs ! off) * 256 + unat (bs ! (off + 1))"
  by (auto simp: hg_ch_u16_def hg_ch_u8_Some_iff or_byte split: option.splits)
     (auto simp: hg_ch_u8_def split: if_splits)

lemma hg_ch_u16_less: "hg_ch_u16 bs off = Some v \<Longrightarrow> v < 65536"
proof -
  assume "hg_ch_u16 bs off = Some v"
  then have "v = unat (bs ! off) * 256 + unat (bs ! (off + 1))" by (simp add: hg_ch_u16_Some_iff)
  then show ?thesis using unat_u8_bound [of "bs ! off"] unat_u8_bound [of "bs ! (off + 1)"] by linarith
qed

lemma hg_ch_u8_at: "length pre < 1024 \<Longrightarrow> hg_ch_u8 (pre @ b # post) (length pre) = Some (unat b)"
  by (simp add: hg_ch_u8_Some_iff)

lemma length_be16_bytes [simp]: "length (be16_bytes n) = 2"
  by (simp add: be16_bytes_def)

lemma unat_of_nat_u8: "n < 256 \<Longrightarrow> unat (word_of_nat n :: u8) = n"
  by (simp add: unsigned_of_nat take_bit_eq_mod)

lemma hg_ch_u16_at:
  "length pre + 1 < 1024 \<Longrightarrow> n < 65536 \<Longrightarrow> hg_ch_u16 (pre @ be16_bytes n @ post) (length pre) = Some n"
  by (simp add: hg_ch_u16_Some_iff be16_bytes_def nth_append unat_of_nat_u8 less_mult_imp_div_less)

section \<open>The loops\<close>

lemma capture_suites_spec:
  assumes "capture_suites trips i bs off cs_len suites captured = (suites', captured')"
  shows "\<exists>d \<le> trips. captured' = captured + d \<and> length suites' = length suites
     \<and> (\<forall>j. i \<le> j \<and> j < i + d \<longrightarrow> j * 2 < cs_len)
     \<and> (\<forall>j < length suites. i \<le> j \<and> j < i + d \<longrightarrow>
          (\<exists>v. hg_ch_u16 bs (off + j * 2) = Some v \<and> suites' ! j = word_of_nat v))
     \<and> (\<forall>j < length suites. \<not> (i \<le> j \<and> j < i + d) \<longrightarrow> suites' ! j = suites ! j)
     \<and> (d = trips \<or> cs_len \<le> (i + d) * 2 \<or> hg_ch_u16 bs (off + (i + d) * 2) = None)"
  using assms
proof (induction trips arbitrary: i suites captured)
  case 0
  then show ?case by auto
next
  case (Suc trips)
  show ?case
  proof (cases "cs_len \<le> i * 2 \<or> hg_ch_u16 bs (off + i * 2) = None")
    case True
    then have "suites' = suites \<and> captured' = captured" using Suc.prems by (auto split: if_splits)
    then show ?thesis using True by (intro exI [of _ 0]) auto
  next
    case False
    then obtain v where v: "hg_ch_u16 bs (off + i * 2) = Some v" by auto
    have "capture_suites trips (Suc i) bs off cs_len (suites[i := word_of_nat v]) (captured + 1) = (suites', captured')"
      using Suc.prems False v by simp
    from Suc.IH [OF this] obtain d where d: "d \<le> trips" "captured' = captured + 1 + d"
      "length suites' = length suites" "\<forall>j. Suc i \<le> j \<and> j < Suc i + d \<longrightarrow> j * 2 < cs_len"
      "\<forall>j < length suites. Suc i \<le> j \<and> j < Suc i + d \<longrightarrow>
          (\<exists>v. hg_ch_u16 bs (off + j * 2) = Some v \<and> suites' ! j = word_of_nat v)"
      "\<forall>j < length suites. \<not> (Suc i \<le> j \<and> j < Suc i + d) \<longrightarrow> suites' ! j = suites[i := word_of_nat v] ! j"
      "d = trips \<or> cs_len \<le> (Suc i + d) * 2 \<or> hg_ch_u16 bs (off + (Suc i + d) * 2) = None"
      by auto
    have at_i: "i < length suites \<Longrightarrow> suites' ! i = word_of_nat v" using d(6) by simp
    show ?thesis
    proof (rule exI [of _ "Suc d"], intro conjI allI impI)
      fix j assume "i \<le> j \<and> j < i + Suc d"
      then show "j * 2 < cs_len" using False d(4) by (cases "j = i") auto
    next
      fix j assume "j < length suites" "i \<le> j \<and> j < i + Suc d"
      then show "\<exists>v. hg_ch_u16 bs (off + j * 2) = Some v \<and> suites' ! j = word_of_nat v"
        using v at_i d(5) by (cases "j = i") auto
    next
      fix j assume "j < length suites" "\<not> (i \<le> j \<and> j < i + Suc d)"
      then show "suites' ! j = suites ! j" using d(6) by (auto simp: nth_list_update)
    qed (use d in auto)
  qed
qed

lemma capture_name_spec:
  assumes "capture_name trips k bs off nlen name n = (name', n')"
  shows "\<exists>d \<le> trips. n' = n + d \<and> length name' = length name
     \<and> (\<forall>j. k \<le> j \<and> j < k + d \<longrightarrow> j < nlen)
     \<and> (\<forall>j < length name. k \<le> j \<and> j < k + d \<longrightarrow>
          off + j < 1024 \<and> off + j < length bs \<and> name' ! j = chr8 (bs ! (off + j)))
     \<and> (\<forall>j < length name. \<not> (k \<le> j \<and> j < k + d) \<longrightarrow> name' ! j = name ! j)
     \<and> (d = trips \<or> nlen \<le> k + d \<or> hg_ch_u8 bs (off + (k + d)) = None)"
  using assms
proof (induction trips arbitrary: k name n)
  case 0
  then show ?case by auto
next
  case (Suc trips)
  show ?case
  proof (cases "nlen \<le> k \<or> hg_ch_u8 bs (off + k) = None")
    case True
    then have "name' = name \<and> n' = n" using Suc.prems by (auto split: if_splits)
    then show ?thesis using True by (intro exI [of _ 0]) auto
  next
    case False
    then obtain c where c: "hg_ch_u8 bs (off + k) = Some c" by auto
    then have c': "off + k < 1024" "off + k < length bs" "char_of c = chr8 (bs ! (off + k))"
      by (auto simp: hg_ch_u8_Some_iff chr8_def)
    have "capture_name trips (Suc k) bs off nlen (name[k := char_of c]) (n + 1) = (name', n')"
      using Suc.prems False c by simp
    from Suc.IH [OF this] obtain d where d: "d \<le> trips" "n' = n + 1 + d"
      "length name' = length name" "\<forall>j. Suc k \<le> j \<and> j < Suc k + d \<longrightarrow> j < nlen"
      "\<forall>j < length name. Suc k \<le> j \<and> j < Suc k + d \<longrightarrow>
          off + j < 1024 \<and> off + j < length bs \<and> name' ! j = chr8 (bs ! (off + j))"
      "\<forall>j < length name. \<not> (Suc k \<le> j \<and> j < Suc k + d) \<longrightarrow> name' ! j = name[k := char_of c] ! j"
      "d = trips \<or> nlen \<le> Suc k + d \<or> hg_ch_u8 bs (off + (Suc k + d)) = None"
      by auto
    have at_k: "k < length name \<Longrightarrow> name' ! k = chr8 (bs ! (off + k))" using d(6) c'(3) by simp
    show ?thesis
    proof (rule exI [of _ "Suc d"], intro conjI allI impI)
      fix j assume "k \<le> j \<and> j < k + Suc d"
      then show "j < nlen" using False d(4) by (cases "j = k") auto
    next
      fix j assume j: "j < length name" "k \<le> j \<and> j < k + Suc d"
      show "off + j < 1024" "off + j < length bs" "name' ! j = chr8 (bs ! (off + j))"
        using j c' at_k d(5) by (cases "j = k"; auto)+
    next
      fix j assume "j < length name" "\<not> (k \<le> j \<and> j < k + Suc d)"
      then show "name' ! j = name ! j" using d(6) by (auto simp: nth_list_update)
    qed (use d in auto)
  qed
qed

section \<open>Invariants of the parse\<close>

text \<open>One rule for every exit of the parse: a property holds of the result if it holds of the
  input, is kept by the malformed flag, by the captured suites and by the extension walk.\<close>

definition with_suites :: "hg_client_hello \<Rightarrow> nat \<Rightarrow> u16 list \<Rightarrow> nat \<Rightarrow> hg_client_hello" where
  "with_suites out cs_len suites captured =
     out\<lparr>cipher_suites_offered := word_of_nat (cs_len div 2), cipher_suites := suites,
         cipher_suite_count := word_of_nat captured\<rparr>"

lemma parse_rule:
  assumes out: "P out"
    and imp: "\<And>x. P x \<Longrightarrow> Q x"
    and mal: "\<And>x. P x \<Longrightarrow> Q (x\<lparr>sni_malformed := 1\<rparr>)"
    and suites: "\<And>sid_len cs_len suites captured.
       \<lbrakk>hg_ch_u8 bs 34 = Some sid_len; sid_len \<le> 32; hg_ch_u16 bs (35 + sid_len) = Some cs_len;
        cs_len \<noteq> 0; even cs_len;
        capture_suites HG_MAX_CIPHER_SUITES 0 bs (37 + sid_len) cs_len (cipher_suites out) 0 = (suites, captured)\<rbrakk>
       \<Longrightarrow> P (with_suites out cs_len suites captured)"
    and walk: "\<And>x off. P x \<Longrightarrow> Q (ext_walk HG_CH_MAX_EXTS x bs off)"
  shows "Q (parse_client_hello_detail out bs)"
  unfolding parse_client_hello_detail_def
  by (auto simp: Let_def out imp mal walk numeral_eq_Suc [symmetric] with_suites_def [symmetric]
      simp del: ch_consts split: option.split prod.split
      intro!: imp mal walk dest!: suites [unfolded with_suites_def])

lemma ext_walk_rule:
  assumes "Q x" "\<And>off. hg_ch_u16 bs off = Some 0 \<Longrightarrow> Q (parse_server_name x bs (off + 4))"
  shows "Q (ext_walk trips x bs off)"
  by (induction trips arbitrary: off) (auto split: option.split simp: assms)

text \<open>The host name capture: how many bytes, and where they come from.\<close>

lemma capture_name_zero:
  assumes "capture_name 63 0 bs off nlen (replicate 64 NUL) 0 = (name, n)"
  shows "n \<le> 63 \<and> n \<le> nlen \<and> name = map chr8 (take n (drop off bs)) @ replicate (64 - n) NUL
       \<and> n \<le> length bs - off \<and> (n = 63 \<or> n = nlen \<or> 1024 \<le> off + n \<or> length bs \<le> off + n)"
proof -
  obtain d where d: "d \<le> 63" "n = d" "length name = 64" "\<forall>j. j < d \<longrightarrow> j < nlen"
    "\<forall>j < 64. j < d \<longrightarrow> off + j < 1024 \<and> off + j < length bs \<and> name ! j = chr8 (bs ! (off + j))"
    "\<forall>j < 64. \<not> j < d \<longrightarrow> name ! j = NUL"
    "d = 63 \<or> nlen \<le> d \<or> hg_ch_u8 bs (off + d) = None"
    using capture_name_spec [OF assms] by auto
  have nlen: "d \<le> nlen" using d(4) by (metis less_irrefl not_le)
  have len: "d \<le> length bs - off" using d(1,5) by (cases d) (auto dest!: spec [of _ "d - 1"])
  have "name = map chr8 (take d (drop off bs)) @ replicate (64 - d) NUL"
    using d(1,3,5,6) len by (intro nth_equalityI) (auto simp: nth_append)
  then show ?thesis using d(1,2,7) nlen len by (auto simp: hg_ch_u8_def split: if_splits)
qed

definition wf_client_hello :: "hg_client_hello \<Rightarrow> bool" where
  "wf_client_hello out \<longleftrightarrow>
     length (cipher_suites out) = HG_MAX_CIPHER_SUITES \<and>
     unat (cipher_suite_count out) \<le> HG_MAX_CIPHER_SUITES \<and>
     cipher_suite_count out \<le> cipher_suites_offered out \<and>
     sni_present out \<in> {0, 1} \<and> sni_malformed out \<in> {0, 1} \<and>
     length (sni_hostname out) = HG_SNI_LEN \<and> sni_hostname out ! (HG_SNI_LEN - 1) = NUL"

lemma wf_zero_client_hello [wf_intros]: "wf_client_hello zero_client_hello"
  by (simp add: wf_client_hello_def zero_client_hello_def)

lemma wf_sni_malformed [wf_intros]: "wf_client_hello x \<Longrightarrow> wf_client_hello (x\<lparr>sni_malformed := 1\<rparr>)"
  by (simp add: wf_client_hello_def)

lemma capture_suites_top:
  assumes "capture_suites 32 0 bs off cs_len suites 0 = (suites', captured)" "length suites = 32"
  shows "captured \<le> 32 \<and> captured * 2 < cs_len + 2 \<and> length suites' = 32
     \<and> (\<forall>j < captured. \<exists>v. hg_ch_u16 bs (off + j * 2) = Some v \<and> suites' ! j = word_of_nat v)
     \<and> (\<forall>j < 32. captured \<le> j \<longrightarrow> suites' ! j = suites ! j)
     \<and> (captured = 32 \<or> cs_len \<le> captured * 2 \<or> hg_ch_u16 bs (off + captured * 2) = None)"
proof -
  obtain d where d: "d \<le> 32" "captured = d" "length suites' = 32" "\<forall>j. j < d \<longrightarrow> j * 2 < cs_len"
      "\<forall>j < 32. j < d \<longrightarrow> (\<exists>v. hg_ch_u16 bs (off + j * 2) = Some v \<and> suites' ! j = word_of_nat v)"
      "\<forall>j < 32. \<not> j < d \<longrightarrow> suites' ! j = suites ! j"
      "d = 32 \<or> cs_len \<le> d * 2 \<or> hg_ch_u16 bs (off + d * 2) = None"
    using capture_suites_spec [OF assms(1)] assms(2) by auto
  have "d * 2 < cs_len + 2" using d(4) by (cases d) (auto dest!: spec [of _ "d - 1"])
  then show ?thesis using d by auto
qed

lemma unat_of_nat_u16: "n < 65536 \<Longrightarrow> unat (word_of_nat n :: u16) = n"
  by (simp add: unsigned_of_nat take_bit_eq_mod)

lemma wf_with_suites:
  assumes "wf_client_hello out" "hg_ch_u16 bs k = Some cs_len" "even cs_len"
    "capture_suites HG_MAX_CIPHER_SUITES 0 bs off cs_len (cipher_suites out) 0 = (suites, captured)"
  shows "wf_client_hello (with_suites out cs_len suites captured)"
proof -
  have "captured \<le> 32" "captured * 2 < cs_len + 2" "length suites = 32"
    using capture_suites_top [of bs off cs_len "cipher_suites out" suites captured] assms(1,4)
    by (auto simp: wf_client_hello_def)
  moreover have "cs_len < 65536" using assms(2) by (rule hg_ch_u16_less)
  moreover have "captured \<le> cs_len div 2" using calculation(2) assms(3) by (elim evenE) simp
  ultimately show ?thesis using assms(1)
    by (auto simp: wf_client_hello_def with_suites_def word_le_nat_alt unat_of_nat_u16)
qed

text \<open>The two exits of the SNI extension.\<close>

lemma parse_server_name_captured:
  assumes "hg_ch_u16 bs off = Some list_len" "hg_ch_u8 bs (off + 2) = Some 0" "hg_ch_u16 bs (off + 3) = Some nlen"
    "nlen \<noteq> 0" "nlen + 3 \<le> list_len" "capture_name 63 0 bs (off + 5) nlen (sni_hostname x) 0 = (name, n)"
  shows "parse_server_name x bs off =
     x\<lparr>sni_hostname := name[n := NUL], sni_present := (if 0 < n then 1 else 0),
       sni_malformed := (if n < nlen then 1 else sni_malformed x)\<rparr>"
  using assms capture_name_spec [OF assms(6)] by (auto simp: parse_server_name_def)

lemma parse_server_name_cases:
  obtains "parse_server_name x bs off = x\<lparr>sni_malformed := 1\<rparr>"
  | list_len nlen name n where "hg_ch_u16 bs off = Some list_len" "hg_ch_u8 bs (off + 2) = Some 0"
      "hg_ch_u16 bs (off + 3) = Some nlen" "nlen \<noteq> 0" "nlen + 3 \<le> list_len"
      "capture_name 63 0 bs (off + 5) nlen (sni_hostname x) 0 = (name, n)" "n \<le> 63"
proof (cases "\<exists>list_len nlen. hg_ch_u16 bs off = Some list_len \<and> hg_ch_u8 bs (off + 2) = Some 0
     \<and> hg_ch_u16 bs (off + 3) = Some nlen \<and> nlen \<noteq> 0 \<and> nlen + 3 \<le> list_len")
  case True
  then obtain list_len nlen where r: "hg_ch_u16 bs off = Some list_len" "hg_ch_u8 bs (off + 2) = Some 0"
      "hg_ch_u16 bs (off + 3) = Some nlen" "nlen \<noteq> 0" "nlen + 3 \<le> list_len" by blast
  obtain name n where c: "capture_name 63 0 bs (off + 5) nlen (sni_hostname x) 0 = (name, n)" by fastforce
  show ?thesis using that(2) [OF r c] capture_name_spec [OF c] by auto
next
  case False
  then show ?thesis by (intro that(1)) (auto simp: parse_server_name_def split: option.split)
qed

lemma wf_parse_server_name [wf_intros]:
  assumes "wf_client_hello x"
  shows "wf_client_hello (parse_server_name x bs off)"
proof (cases rule: parse_server_name_cases [of x bs off])
  case 1
  then show ?thesis using assms by (simp add: wf_sni_malformed)
next
  case (2 list_len nlen name n)
  have "length name = 64" "n < 63 \<Longrightarrow> name ! 63 = NUL"
    using capture_name_spec [OF 2(6)] assms by (auto simp: wf_client_hello_def)
  then show ?thesis using assms parse_server_name_captured [OF 2(1-6)] 2(7)
    by (cases "n = 63") (auto simp: wf_client_hello_def nth_list_update)
qed

text \<open>What the host name of a result can be: nothing, a prefix flagged as malformed, or the
  whole name of a server-name extension at \<open>off\<close>.\<close>

definition no_sni :: "hg_client_hello \<Rightarrow> bool" where
  "no_sni x \<longleftrightarrow> sni_present x = 0 \<and> sni_hostname x = replicate HG_SNI_LEN NUL"

definition sni_from_wire :: "u8 list \<Rightarrow> hg_client_hello \<Rightarrow> bool" where
  "sni_from_wire bs x \<longleftrightarrow>
     (sni_present x = 1 \<and> sni_malformed x = 0 \<longrightarrow>
       (\<exists>off nlen. hg_ch_u16 bs off = Some 0 \<and> hg_ch_u8 bs (off + 6) = Some 0 \<and>
          hg_ch_u16 bs (off + 7) = Some nlen \<and> 0 < nlen \<and> nlen < HG_SNI_LEN \<and>
          off + 9 + nlen \<le> length bs \<and>
          sni_hostname x = map chr8 (take nlen (drop (off + 9) bs)) @ replicate (HG_SNI_LEN - nlen) NUL))"

lemma sni_from_wire_server_name:
  assumes "no_sni x" "hg_ch_u16 bs off = Some 0"
  shows "sni_from_wire bs (parse_server_name x bs (off + 4))"
proof (cases rule: parse_server_name_cases [of x bs "off + 4"])
  case 1
  then show ?thesis by (simp add: sni_from_wire_def)
next
  case (2 list_len nlen name n)
  have "capture_name 63 0 bs (off + 9) nlen (replicate 64 NUL) 0 = (name, n)"
    using 2(6) assms(1) by (simp add: no_sni_def add.commute [of _ off])
  then have n: "n \<le> 63" "n \<le> nlen" "name = map chr8 (take n (drop (off + 9) bs)) @ replicate (64 - n) NUL"
    "n \<le> length bs - (off + 9)" using capture_name_zero by blast+
  have "name[n := NUL] = name" using n(1,4) by (intro list_update_same_conv [THEN iffD2]) (auto simp: n(3) nth_append)
  then show ?thesis using 2(2,3,4) n assms(2) parse_server_name_captured [OF 2(1-6)]
    unfolding sni_from_wire_def
    by (intro impI exI [of _ off] exI [of _ nlen]) (auto simp: add.commute [of _ off] split: if_splits)
qed

section \<open>The parser on the wire format\<close>

lemma parse_through:
  assumes "hg_ch_u8 bs 34 = Some sid" "sid \<le> 32"
    "hg_ch_u16 bs (35 + sid) = Some cs" "cs \<noteq> 0" "even cs" "cs \<le> 512"
    "capture_suites 32 0 bs (37 + sid) cs (cipher_suites out) 0 = (suites, captured)"
    "hg_ch_u8 bs (37 + sid + cs) = Some clen" "clen \<le> 16" "hg_ch_u16 bs (38 + sid + cs + clen) = Some tot"
  shows "parse_client_hello_detail out bs =
           ext_walk 16 (with_suites out cs suites captured) bs (40 + sid + cs + clen)"
  using assms by (simp add: parse_client_hello_detail_def with_suites_def Let_def add.assoc)

fun first_name :: "ext list \<Rightarrow> u8 list option" where
  "first_name [] = None"
| "first_name (Server_name name # es) = Some name"
| "first_name (Other etype body # es) = first_name es"

definition with_name :: "hg_client_hello \<Rightarrow> u8 list \<Rightarrow> hg_client_hello" where
  "with_name x name =
     x\<lparr>sni_hostname := map chr8 (take 63 name) @ replicate (64 - min 63 (length name)) NUL,
       sni_present := 1, sni_malformed := (if 63 < length name then 1 else 0)\<rparr>"

definition hello_detail :: "hello \<Rightarrow> hg_client_hello" where
  "hello_detail h =
     (let base = zero_client_hello\<lparr>cipher_suites_offered := word_of_nat (length (h_suites h)),
            cipher_suites := take 32 (h_suites h @ replicate 32 0),
            cipher_suite_count := word_of_nat (min 32 (length (h_suites h)))\<rparr>
      in case first_name (take 16 (h_exts h)) of None \<Rightarrow> base | Some name \<Rightarrow> with_name base name)"

definition wf_hello :: "hello \<Rightarrow> bool" where
  "wf_hello h \<longleftrightarrow>
     length (h_prefix h) = 34 \<and> length (h_session_id h) \<le> 32 \<and>
     h_suites h \<noteq> [] \<and> length (h_suites h) \<le> 256 \<and> length (h_compression h) \<le> 16 \<and>
     list_all wf_ext (h_exts h) \<and> length (encode_hello h) \<le> HG_CH_MAX_SCAN"

lemma read_u16:
  "bs = pre @ be16_bytes n @ post \<Longrightarrow> length bs \<le> 1024 \<Longrightarrow> n < 65536 \<Longrightarrow> off = length pre
   \<Longrightarrow> hg_ch_u16 bs off = Some n"
  using hg_ch_u16_at [of pre n post] by simp

lemma read_u8:
  "bs = pre @ b # post \<Longrightarrow> length bs \<le> 1024 \<Longrightarrow> off = length pre \<Longrightarrow> hg_ch_u8 bs off = Some (unat b)"
  using hg_ch_u8_at [of pre b post] by simp

lemma server_name_encode:
  assumes bs: "bs = pre @ be16_bytes (length name + 3) @ [0] @ be16_bytes (length name) @ name @ post"
    and len: "length bs \<le> 1024" and wf: "name \<noteq> []" "length name \<le> 507"
    and x: "no_sni x" "sni_malformed x = 0"
  shows "parse_server_name x bs (length pre) = with_name x name"
proof -
  obtain nm n where c: "capture_name 63 0 bs (length pre + 5) (length name) (sni_hostname x) 0 = (nm, n)"
    by fastforce
  have z: "sni_hostname x = replicate 64 NUL" using x(1) by (simp add: no_sni_def)
  have tail: "drop (length pre + 5) bs = name @ post"
    by (simp add: bs be16_bytes_def)
  have n: "n \<le> 63" "n \<le> length name" "nm = map chr8 (take n name) @ replicate (64 - n) NUL"
    "n = 63 \<or> n = length name"
    using capture_name_zero [OF c [unfolded z]] len by (auto simp: tail) (auto simp: bs)
  then have nm: "n = min 63 (length name)" by auto
  have "nm[n := NUL] = nm" using n(1,2) by (intro list_update_same_conv [THEN iffD2]) (auto simp: n(3) nth_append)
  moreover have "parse_server_name x bs (length pre) =
     x\<lparr>sni_hostname := nm[n := NUL], sni_present := (if 0 < n then 1 else 0),
       sni_malformed := (if n < length name then 1 else sni_malformed x)\<rparr>"
  proof (rule parse_server_name_captured [OF _ _ _ _ _ c])
    show "hg_ch_u16 bs (length pre) = Some (length name + 3)"
      using len wf by (intro read_u16 [OF bs]) simp_all
    show "hg_ch_u8 bs (length pre + 2) = Some 0"
      using len read_u8 [of bs "pre @ be16_bytes (length name + 3)" 0] by (simp add: bs)
    show "hg_ch_u16 bs (length pre + 3) = Some (length name)"
      using len wf by (intro read_u16 [of bs "pre @ be16_bytes (length name + 3) @ [0]"]) (simp_all add: bs)
  qed (use wf in simp_all)
  ultimately show ?thesis using x(2) wf(1) nm n(3) by (auto simp: with_name_def min_def)
qed

lemma ext_walk_encode:
  assumes "list_all wf_ext exts" "bs = pre @ concat (map encode_ext exts)" "length bs \<le> 1024"
    and x: "no_sni x" "sni_malformed x = 0"
  shows "ext_walk trips x bs (length pre) =
           (case first_name (take trips exts) of None \<Rightarrow> x | Some name \<Rightarrow> with_name x name)"
  using assms(1-3)
proof (induction exts arbitrary: pre trips)
  case Nil
  then have "hg_ch_u16 bs (length pre) = None" by (simp add: hg_ch_u16_def hg_ch_u8_def)
  then show ?case by (cases trips) simp_all
next
  case (Cons e exts)
  show ?case
  proof (cases trips)
    case 0
    then show ?thesis by simp
  next
    case (Suc trips')
    show ?thesis
    proof (cases e)
      case (Server_name name)
      let ?post = "concat (map encode_ext exts)"
      have bs: "bs = pre @ be16_bytes 0 @ be16_bytes (length name + 5) @ be16_bytes (length name + 3) @ [0] @
                 be16_bytes (length name) @ name @ ?post" and wf: "name \<noteq> []" "length name \<le> 507"
        using Cons.prems Server_name by simp_all
      have "hg_ch_u16 bs (length pre) = Some 0" using Cons.prems(3) by (intro read_u16 [OF bs]) simp_all
      moreover have "hg_ch_u16 bs (length pre + 2) = Some (length name + 5)"
        using Cons.prems(3) wf by (intro read_u16 [of bs "pre @ be16_bytes 0"]) (simp_all add: bs)
      moreover have "parse_server_name x bs (length pre + 4) = with_name x name"
        using server_name_encode [of bs "pre @ be16_bytes 0 @ be16_bytes (length name + 5)" name ?post x]
          Cons.prems(3) wf x by (simp add: bs)
      ultimately show ?thesis using Suc Server_name wf by simp
    next
      case (Other etype body)
      have bs: "bs = pre @ be16_bytes etype @ be16_bytes (length body) @ body @ concat (map encode_ext exts)"
        and wf: "etype \<noteq> 0" "etype < 65536" "length body \<le> 512" using Cons.prems Other by simp_all
      have "hg_ch_u16 bs (length pre) = Some etype" using Cons.prems(3) wf by (intro read_u16 [OF bs]) simp_all
      moreover have "hg_ch_u16 bs (length pre + 2) = Some (length body)"
        using Cons.prems(3) wf by (intro read_u16 [of bs "pre @ be16_bytes etype"]) (simp_all add: bs)
      moreover have "length (pre @ encode_ext e) = length pre + 4 + length body" using Other by simp
      note next_off = this
      have "ext_walk trips' x bs (length (pre @ encode_ext e)) =
           (case first_name (take trips' exts) of None \<Rightarrow> x | Some name \<Rightarrow> with_name x name)"
        using Cons.prems by (intro Cons.IH) simp_all
      moreover note this [unfolded next_off]
      ultimately show ?thesis using Suc Other wf by simp
    qed
  qed
qed

lemma nth_suites_bytes:
  assumes "j < length suites"
  shows "concat (map (\<lambda>s. be16_bytes (unat s)) suites) =
     concat (map (\<lambda>s. be16_bytes (unat s)) (take j suites)) @ be16_bytes (unat (suites ! j)) @
     concat (map (\<lambda>s. be16_bytes (unat s)) (drop (Suc j) suites))"
  using arg_cong [OF id_take_nth_drop [OF assms], of "\<lambda>xs. concat (map (\<lambda>s. be16_bytes (unat s)) xs)"]
  by simp

lemma length_suites_bytes: "length (concat (map (\<lambda>s. be16_bytes (unat (s :: u16))) suites)) = 2 * length suites"
  by (induction suites) simp_all

lemma capture_suites_encode:
  assumes bs: "bs = pre @ concat (map (\<lambda>s. be16_bytes (unat s)) suites) @ post"
    and fit: "length bs \<le> 1024"
  shows "capture_suites 32 0 bs (length pre) (2 * length suites) (replicate 32 0) 0 =
           (take 32 (suites @ replicate 32 0), min 32 (length suites))"
proof -
  obtain s c where sc: "capture_suites 32 0 bs (length pre) (2 * length suites) (replicate 32 0) 0 = (s, c)"
    by fastforce
  have rd: "hg_ch_u16 bs (length pre + j * 2) = Some (unat (suites ! j))" if j: "j < length suites" for j
  proof (rule read_u16)
    show "bs = (pre @ concat (map (\<lambda>s. be16_bytes (unat s)) (take j suites))) @ be16_bytes (unat (suites ! j)) @
       (concat (map (\<lambda>s. be16_bytes (unat s)) (drop (Suc j) suites)) @ post)"
      using bs nth_suites_bytes [OF j] by simp
    show "length pre + j * 2 = length (pre @ concat (map (\<lambda>s. be16_bytes (unat s)) (take j suites)))"
      using j by (simp only: length_append length_suites_bytes length_take)
  qed (use fit in simp_all)
  note top = capture_suites_top [OF sc]
  have "c = 32 \<or> length suites \<le> c" using top rd [of c] by (cases "c < length suites") auto
  then have c: "c = min 32 (length suites)" using top by auto
  have "s = take 32 (suites @ replicate 32 0)"
    using top rd c by (intro nth_equalityI) (auto simp: nth_append)
  with sc c show ?thesis by simp
qed

lemma parse_hello:
  assumes "wf_hello h"
  shows "parse_client_hello_detail zero_client_hello (encode_hello h) = hello_detail h"
proof -
  let ?sid = "length (h_session_id h)" and ?cs = "2 * length (h_suites h)" and ?comp = "length (h_compression h)"
  define bs where "bs = encode_hello h"
  define p1 where "p1 = h_prefix h @ [word_of_nat ?sid] @ h_session_id h"
  define p2 where "p2 = p1 @ be16_bytes ?cs"
  define p3 where "p3 = p2 @ concat (map (\<lambda>s. be16_bytes (unat s)) (h_suites h))"
  define p4 where "p4 = p3 @ [word_of_nat ?comp] @ h_compression h"
  define tot where "tot = length (concat (map encode_ext (h_exts h)))"
  define p5 where "p5 = p4 @ be16_bytes tot"
  have bs5: "bs = p5 @ concat (map encode_ext (h_exts h))"
    by (simp add: bs_def encode_hello_def p5_def p4_def p3_def p2_def p1_def tot_def)
  have w: "length (h_prefix h) = 34" "?sid \<le> 32" "h_suites h \<noteq> []" "length (h_suites h) \<le> 256" "?comp \<le> 16"
    "list_all wf_ext (h_exts h)" "length bs \<le> 1024" using assms by (simp_all add: wf_hello_def bs_def)
  have l: "length p1 = 35 + ?sid" "length p2 = 37 + ?sid" "length p3 = 37 + ?sid + ?cs"
    "length p4 = 38 + ?sid + ?cs + ?comp" "length p5 = 40 + ?sid + ?cs + ?comp"
    using w(1) by (simp_all only: p1_def p2_def p3_def p4_def p5_def length_append length_suites_bytes length_be16_bytes) simp_all
  have tot: "tot < 65536" using w(7) l(5) by (simp add: bs5 tot_def)
  have r1: "hg_ch_u8 bs 34 = Some ?sid"
    using read_u8 [of bs "h_prefix h" "word_of_nat ?sid"] w(1,2,7)
    by (simp add: bs_def encode_hello_def unat_of_nat_u8)
  have r2: "hg_ch_u16 bs (35 + ?sid) = Some ?cs"
    by (rule read_u16 [of _ p1]) (use w l in \<open>simp_all add: bs5 p5_def p4_def p3_def p2_def\<close>)
  have b3: "bs = p3 @ word_of_nat ?comp # (h_compression h @ be16_bytes tot @ concat (map encode_ext (h_exts h)))"
    by (simp add: bs5 p5_def p4_def)
  have "unat (word_of_nat ?comp :: u8) = ?comp" using w(5) by (intro unat_of_nat_u8) simp
  then have r3: "hg_ch_u8 bs (37 + ?sid + ?cs) = Some ?comp"
    using read_u8 [OF b3 w(7) l(3) [symmetric]] by simp
  have r4: "hg_ch_u16 bs (38 + ?sid + ?cs + ?comp) = Some tot"
    by (rule read_u16 [of _ p4]) (use w l tot in \<open>simp_all add: bs5 p5_def\<close>)
  have cap: "capture_suites 32 0 bs (37 + ?sid) ?cs (replicate 32 0) 0 =
      (take 32 (h_suites h @ replicate 32 0), min 32 (length (h_suites h)))"
    using capture_suites_encode [of bs p2 "h_suites h"] w(7) l(2) by (simp add: bs5 p5_def p4_def p3_def)
  define x where "x = with_suites zero_client_hello ?cs (take 32 (h_suites h @ replicate 32 0)) (min 32 (length (h_suites h)))"
  have "parse_client_hello_detail zero_client_hello bs = ext_walk 16 x bs (length p5)"
    unfolding x_def l(5) by (rule parse_through [OF r1 w(2) r2 _ _ _ _ r3 w(5) r4])
      (use w(3,4) cap in \<open>simp_all add: zero_client_hello_def\<close>)
  also have "\<dots> = (case first_name (take 16 (h_exts h)) of None \<Rightarrow> x | Some name \<Rightarrow> with_name x name)"
    by (rule ext_walk_encode [OF w(6) bs5 w(7)]) (simp_all add: no_sni_def zero_client_hello_def x_def with_suites_def)
  also have "\<dots> = hello_detail h"
    unfolding hello_detail_def x_def with_suites_def Let_def by (simp split: option.split)
  finally show ?thesis by (simp add: bs_def)
qed

text \<open>A concrete ClientHello: two suites and the name \<open>bmc\<close> behind another extension.\<close>

definition sample_hello :: hello where
  "sample_hello = \<lparr>h_prefix = replicate 34 7, h_session_id = [], h_suites = [0x1301, 0xC02F],
     h_compression = [0], h_exts = [Other 10 [1, 2], Server_name [0x62, 0x6D, 0x63]]\<rparr>"

lemma sample_hello_wf: "wf_hello sample_hello"
  by (simp add: wf_hello_def sample_hello_def encode_hello_def)

lemma sample_hello_detail:
  "sni_present (hello_detail sample_hello) = 1" "sni_malformed (hello_detail sample_hello) = 0"
  "cipher_suite_count (hello_detail sample_hello) = 2"
  "boundedString (sni_hostname (hello_detail sample_hello)) = ''bmc''"
  by (simp_all add: hello_detail_def sample_hello_def with_name_def zero_client_hello_def chr8_def
      boundedString_def char_of_def bit_simps)

lemma parse_wf: "wf_client_hello (parse_client_hello_detail zero_client_hello bs)"
  by (rule parse_rule [where P = wf_client_hello])
     (auto intro: wf_intros wf_with_suites ext_walk_rule)

section \<open>A bounded prefix\<close>

lemma hg_ch_u8_take: "1024 \<le> n \<Longrightarrow> hg_ch_u8 (take n bs) off = hg_ch_u8 bs off"
  by (auto simp: hg_ch_u8_def)

lemma hg_ch_u16_take: "1024 \<le> n \<Longrightarrow> hg_ch_u16 (take n bs) off = hg_ch_u16 bs off"
  by (simp add: hg_ch_u16_def hg_ch_u8_take cong: option.case_cong)

lemmas reads_take = hg_ch_u8_take hg_ch_u16_take

lemma capture_suites_take:
  "1024 \<le> n \<Longrightarrow> capture_suites trips i (take n bs) off cs_len suites captured = capture_suites trips i bs off cs_len suites captured"
  by (induction trips arbitrary: i suites captured) (simp_all add: reads_take cong: option.case_cong)

lemma capture_name_take:
  "1024 \<le> n \<Longrightarrow> capture_name trips k (take n bs) off nlen name m = capture_name trips k bs off nlen name m"
  by (induction trips arbitrary: k name m) (simp_all add: reads_take cong: option.case_cong)

lemma ext_walk_take:
  assumes "1024 \<le> n"
  shows "ext_walk trips out (take n bs) off = ext_walk trips out bs off"
proof -
  have sni: "parse_server_name out (take n bs) off = parse_server_name out bs off" for off
    unfolding parse_server_name_def reads_take [OF assms] capture_name_take [OF assms] ..
  show ?thesis by (induction trips arbitrary: off) (simp_all add: reads_take [OF assms] sni split: option.split)
qed

text \<open>Nothing past \<open>HG_CH_MAX_SCAN\<close> bytes is looked at.\<close>

lemma parse_client_hello_detail_take:
  assumes "1024 \<le> n"
  shows "parse_client_hello_detail out (take n bs) = parse_client_hello_detail out bs"
  unfolding parse_client_hello_detail_def reads_take [OF assms] capture_suites_take [OF assms] ext_walk_take [OF assms] ..

section \<open>Properties\<close>

text \<open>Whatever bytes arrive, the parse of a zeroed struct is well formed: the suite array
  keeps its 32 slots, the captured count is at most 32 and at most the offered count, the two
  flags are 0 or 1, and the host name is a null-terminated 64-byte array.\<close>

theorem parse_client_hello_wf: "wf_client_hello (parse_client_hello_detail zero_client_hello bs)"
  by (rule parse_wf)

text \<open>C15: a host name that is reported as present and not malformed is the whole name of a
  server-name extension of the packet: exactly the \<open>nlen\<close> bytes the extension declares, all of
  them inside the packet, padded with nulls.  A truncated prefix is never reported as a name.\<close>

theorem parse_client_hello_sni_exact:
  assumes "parse_client_hello_detail zero_client_hello bs = out" "sni_present out = 1" "sni_malformed out = 0"
  shows "\<exists>off nlen. hg_ch_u16 bs off = Some 0 \<and> hg_ch_u8 bs (off + 6) = Some 0 \<and>
          hg_ch_u16 bs (off + 7) = Some nlen \<and> 0 < nlen \<and> nlen < HG_SNI_LEN \<and>
          off + 9 + nlen \<le> length bs \<and>
          sni_hostname out = map chr8 (take nlen (drop (off + 9) bs)) @ replicate (HG_SNI_LEN - nlen) NUL"
proof -
  have "sni_from_wire bs (parse_client_hello_detail zero_client_hello bs)"
  proof (rule parse_rule [where P = no_sni])
    show "no_sni zero_client_hello" by (simp add: no_sni_def zero_client_hello_def)
    show "no_sni x \<Longrightarrow> sni_from_wire bs x" for x by (simp add: no_sni_def sni_from_wire_def)
    show "no_sni x \<Longrightarrow> sni_from_wire bs (ext_walk HG_CH_MAX_EXTS x bs off)" for x off
      by (rule ext_walk_rule) (simp_all add: sni_from_wire_server_name, simp add: no_sni_def sni_from_wire_def)
  qed (simp_all add: no_sni_def sni_from_wire_def with_suites_def zero_client_hello_def)
  then show ?thesis using assms by (simp only: sni_from_wire_def simp_thms)
qed

theorem parse_client_hello_sni_exact_witness:
  "\<exists>off nlen. hg_ch_u16 (encode_hello sample_hello) off = Some 0 \<and>
     hg_ch_u16 (encode_hello sample_hello) (off + 7) = Some nlen \<and>
     sni_hostname (parse_client_hello_detail zero_client_hello (encode_hello sample_hello)) =
       map chr8 (take nlen (drop (off + 9) (encode_hello sample_hello))) @ replicate (HG_SNI_LEN - nlen) NUL"
  using parse_client_hello_sni_exact [OF refl, of "encode_hello sample_hello"] 
    by (auto simp only: parse_hello [OF sample_hello_wf] sample_hello_detail)

text \<open>C9: the parser inverts the wire format.  For every well-formed ClientHello that fits the
  scan window, the parse of its encoding is its detail: the first 32 suites in order, the number
  offered, and the name of the first server-name extension among the first 16 extensions, as
  the whole name when it fits 63 bytes and otherwise as its 63-byte prefix flagged as malformed;
  without such an extension no name is reported.\<close>

theorem parse_encode_hello:
  assumes "wf_hello h"
  shows "parse_client_hello_detail zero_client_hello (encode_hello h) = hello_detail h"
  using assms by (rule parse_hello)

theorem parse_encode_hello_witness:
  "parse_client_hello_detail zero_client_hello (encode_hello sample_hello) = hello_detail sample_hello
   \<and> cipher_suite_count (hello_detail sample_hello) = 2
   \<and> boundedString (sni_hostname (hello_detail sample_hello)) = ''bmc''"
  using parse_encode_hello [OF sample_hello_wf] by (simp add: sample_hello_detail)

end
