(* ===== verification/Raw_Event.thy ===== *)
theory Raw_Event
  imports Client_Hello
begin

text \<open>
  The raw event structs the hooks write into the ring buffer and the daemon reads back
  (\<open>hg_event_source.h\<close>, \<open>xdp_tls_event.h\<close>, \<open>ssl_uprobe_event.h\<close>, \<open>lsm_cert_guard_event.h\<close>), with
  their byte layout on the target: natural alignment, little-endian integers, the trailing
  padding of \<open>struct uprobe_event\<close> included.  \<open>encode_*\<close> is the memory image of a struct and
  \<open>decode_*\<close> the \<open>memcpy\<close> the detections make, which first check the record's size.
\<close>

definition HG_COMM_LEN :: nat where "HG_COMM_LEN = 16"
definition HG_IP_STR_LEN :: nat where "HG_IP_STR_LEN = 32"
definition HG_PAYLOAD_SNIPPET_LEN :: nat where "HG_PAYLOAD_SNIPPET_LEN = 128"
definition HG_PATH_LEN :: nat where "HG_PATH_LEN = 64"
definition HG_MAX_RAW_EVENT_SIZE :: nat where "HG_MAX_RAW_EVENT_SIZE = 1024"

lemmas hg_lens [simp] = HG_COMM_LEN_def HG_IP_STR_LEN_def HG_PAYLOAD_SNIPPET_LEN_def HG_PATH_LEN_def

definition HG_SOURCE_UPROBE :: u32 where "HG_SOURCE_UPROBE = 1"
definition HG_SOURCE_XDP :: u32 where "HG_SOURCE_XDP = 2"
definition HG_SOURCE_LSM_CERT_GUARD :: u32 where "HG_SOURCE_LSM_CERT_GUARD = 3"
definition HG_SOURCE_CONN_RATE :: u32 where "HG_SOURCE_CONN_RATE = 4"

lemmas hg_sources =
  HG_SOURCE_UPROBE_def HG_SOURCE_XDP_def HG_SOURCE_LSM_CERT_GUARD_def HG_SOURCE_CONN_RATE_def

section \<open>The structs\<close>

record hg_event_hdr =
  hdr_event_source :: u32
  hdr_reserved :: u32
  hdr_timestamp_ns :: u64
  hdr_pid :: u32
  hdr_tgid :: u32
  hdr_comm :: string

record hg_conn_tuple =
  ct_src_ip_v4 :: u32
  ct_dst_ip_v4 :: u32
  ct_src_port :: u16
  ct_dst_port :: u16
  ct_src_ip_str :: string

record hg_xdp_tls =
  xt_version :: u16
  xt_is_violation :: u16
  xt_payload_snippet :: string

record xdp_event =
  xdp_hdr :: hg_event_hdr
  xdp_conn :: hg_conn_tuple
  xdp_tls :: hg_xdp_tls
  xdp_client_hello :: hg_client_hello

record hg_uprobe_tls =
  ut_version :: u16
  ut_padding :: u16
  ut_payload_snippet :: string

record hg_uprobe_conn =
  uc_resolved :: u8
  uc_is_ipv6 :: u8
  uc_padding :: u16
  uc_local_addr :: "u8 list"
  uc_remote_addr :: "u8 list"
  uc_local_port :: u16
  uc_remote_port :: u16

record uprobe_event =
  up_hdr :: hg_event_hdr
  up_direction :: u32
  up_padding :: u32
  up_tls :: hg_uprobe_tls
  up_resolved_conn :: hg_uprobe_conn

record hg_cert_access =
  ca_cgroup_id :: u64
  ca_comm_mismatch :: u32
  ca_shadow_mode :: u32

record lsm_cert_guard_event =
  lsm_hdr :: hg_event_hdr
  lsm_cert :: hg_cert_access

text \<open>The zeroed structs of \<open>__builtin_memset\<close>.\<close>

definition zero_hdr :: hg_event_hdr where
  "zero_hdr = \<lparr>hdr_event_source = 0, hdr_reserved = 0, hdr_timestamp_ns = 0, hdr_pid = 0, hdr_tgid = 0,
     hdr_comm = replicate HG_COMM_LEN NUL\<rparr>"

definition zero_xdp_event :: xdp_event where
  "zero_xdp_event =
     \<lparr>xdp_hdr = zero_hdr,
      xdp_conn = \<lparr>ct_src_ip_v4 = 0, ct_dst_ip_v4 = 0, ct_src_port = 0, ct_dst_port = 0,
        ct_src_ip_str = replicate HG_IP_STR_LEN NUL\<rparr>,
      xdp_tls = \<lparr>xt_version = 0, xt_is_violation = 0, xt_payload_snippet = replicate HG_PAYLOAD_SNIPPET_LEN NUL\<rparr>,
      xdp_client_hello = zero_client_hello\<rparr>"

definition zero_uprobe_conn :: hg_uprobe_conn where
  "zero_uprobe_conn = \<lparr>uc_resolved = 0, uc_is_ipv6 = 0, uc_padding = 0, uc_local_addr = replicate 16 0,
     uc_remote_addr = replicate 16 0, uc_local_port = 0, uc_remote_port = 0\<rparr>"

definition zero_uprobe_event :: uprobe_event where
  "zero_uprobe_event =
     \<lparr>up_hdr = zero_hdr, up_direction = 0, up_padding = 0,
      up_tls = \<lparr>ut_version = 0, ut_padding = 0, ut_payload_snippet = replicate HG_PAYLOAD_SNIPPET_LEN NUL\<rparr>,
      up_resolved_conn = zero_uprobe_conn\<rparr>"

definition zero_lsm_event :: lsm_cert_guard_event where
  "zero_lsm_event = \<lparr>lsm_hdr = zero_hdr, lsm_cert = \<lparr>ca_cgroup_id = 0, ca_comm_mismatch = 0, ca_shadow_mode = 0\<rparr>\<rparr>"

text \<open>Array lengths are part of a C type; a list carries them as a predicate.\<close>

definition wf_hdr :: "hg_event_hdr \<Rightarrow> bool" where
  "wf_hdr h \<longleftrightarrow> length (hdr_comm h) = HG_COMM_LEN"

definition wf_xdp_event :: "xdp_event \<Rightarrow> bool" where
  "wf_xdp_event e \<longleftrightarrow> wf_hdr (xdp_hdr e) \<and> length (ct_src_ip_str (xdp_conn e)) = HG_IP_STR_LEN \<and>
     length (xt_payload_snippet (xdp_tls e)) = HG_PAYLOAD_SNIPPET_LEN \<and>
     length (cipher_suites (xdp_client_hello e)) = HG_MAX_CIPHER_SUITES \<and>
     length (sni_hostname (xdp_client_hello e)) = HG_SNI_LEN"

definition wf_uprobe_event :: "uprobe_event \<Rightarrow> bool" where
  "wf_uprobe_event e \<longleftrightarrow> wf_hdr (up_hdr e) \<and> length (ut_payload_snippet (up_tls e)) = HG_PAYLOAD_SNIPPET_LEN \<and>
     length (uc_local_addr (up_resolved_conn e)) = 16 \<and> length (uc_remote_addr (up_resolved_conn e)) = 16"

definition wf_lsm_event :: "lsm_cert_guard_event \<Rightarrow> bool" where
  "wf_lsm_event e \<longleftrightarrow> wf_hdr (lsm_hdr e)"

section \<open>The byte layout\<close>

fun split_widths :: "nat list \<Rightarrow> 'a list \<Rightarrow> 'a list list" where
  "split_widths [] xs = []"
| "split_widths (n # ns) xs = take n xs # split_widths ns (drop n xs)"

definition str_bytes :: "string \<Rightarrow> u8 list" where "str_bytes s = map ord8 s"
definition bytes_str :: "u8 list \<Rightarrow> string" where "bytes_str bs = map chr8 bs"

definition le16s_bytes :: "u16 list \<Rightarrow> u8 list" where
  "le16s_bytes ws = concat (map (le_bytes 2) ws)"

definition bytes_le16s :: "nat \<Rightarrow> u8 list \<Rightarrow> u16 list" where
  "bytes_le16s n bs = map le_word (split_widths (replicate n 2) bs)"

definition hdr_widths :: "nat list" where "hdr_widths = [4, 4, 8, 4, 4, 16]"

definition hdr_fields :: "hg_event_hdr \<Rightarrow> u8 list list" where
  "hdr_fields h = [le_bytes 4 (hdr_event_source h), le_bytes 4 (hdr_reserved h), le_bytes 8 (hdr_timestamp_ns h),
     le_bytes 4 (hdr_pid h), le_bytes 4 (hdr_tgid h), str_bytes (hdr_comm h)]"

definition hdr_of_fields :: "u8 list list \<Rightarrow> hg_event_hdr" where
  "hdr_of_fields fs = \<lparr>hdr_event_source = le_word (fs ! 0), hdr_reserved = le_word (fs ! 1),
     hdr_timestamp_ns = le_word (fs ! 2), hdr_pid = le_word (fs ! 3), hdr_tgid = le_word (fs ! 4),
     hdr_comm = bytes_str (fs ! 5)\<rparr>"

definition xdp_widths :: "nat list" where
  "xdp_widths = hdr_widths @ [4, 4, 2, 2, 32] @ [2, 2, 128] @ [64, 2, 2, 1, 1, 2, 64]"

definition xdp_fields :: "xdp_event \<Rightarrow> u8 list list" where
  "xdp_fields e = hdr_fields (xdp_hdr e) @
     (let c = xdp_conn e in
      [le_bytes 4 (ct_src_ip_v4 c), le_bytes 4 (ct_dst_ip_v4 c), le_bytes 2 (ct_src_port c),
       le_bytes 2 (ct_dst_port c), str_bytes (ct_src_ip_str c)]) @
     (let t = xdp_tls e in
      [le_bytes 2 (xt_version t), le_bytes 2 (xt_is_violation t), str_bytes (xt_payload_snippet t)]) @
     (let h = xdp_client_hello e in
      [le16s_bytes (cipher_suites h), le_bytes 2 (cipher_suite_count h), le_bytes 2 (cipher_suites_offered h),
       [sni_present h], [sni_malformed h], le_bytes 2 (ch_padding h), str_bytes (sni_hostname h)])"

definition encode_xdp_event :: "xdp_event \<Rightarrow> u8 list" where
  "encode_xdp_event e = concat (xdp_fields e)"

definition sizeof_xdp_event :: nat where "sizeof_xdp_event = 352"

definition decode_xdp_event :: "u8 list \<Rightarrow> xdp_event option" where
  "decode_xdp_event bs =
     (if length bs < sizeof_xdp_event then None
      else let fs = split_widths xdp_widths bs in
        Some \<lparr>xdp_hdr = hdr_of_fields fs,
          xdp_conn = \<lparr>ct_src_ip_v4 = le_word (fs ! 6), ct_dst_ip_v4 = le_word (fs ! 7), ct_src_port = le_word (fs ! 8),
            ct_dst_port = le_word (fs ! 9), ct_src_ip_str = bytes_str (fs ! 10)\<rparr>,
          xdp_tls = \<lparr>xt_version = le_word (fs ! 11), xt_is_violation = le_word (fs ! 12),
            xt_payload_snippet = bytes_str (fs ! 13)\<rparr>,
          xdp_client_hello = \<lparr>cipher_suites = bytes_le16s HG_MAX_CIPHER_SUITES (fs ! 14),
            cipher_suite_count = le_word (fs ! 15), cipher_suites_offered = le_word (fs ! 16),
            sni_present = hd (fs ! 17), sni_malformed = hd (fs ! 18), ch_padding = le_word (fs ! 19),
            sni_hostname = bytes_str (fs ! 20)\<rparr>\<rparr>)"

definition uprobe_widths :: "nat list" where
  "uprobe_widths = hdr_widths @ [4, 4] @ [2, 2, 128] @ [1, 1, 2, 16, 16, 2, 2] @ [4]"

definition uprobe_fields :: "uprobe_event \<Rightarrow> u8 list list" where
  "uprobe_fields e = hdr_fields (up_hdr e) @ [le_bytes 4 (up_direction e), le_bytes 4 (up_padding e)] @
     (let t = up_tls e in
      [le_bytes 2 (ut_version t), le_bytes 2 (ut_padding t), str_bytes (ut_payload_snippet t)]) @
     (let c = up_resolved_conn e in
      [[uc_resolved c], [uc_is_ipv6 c], le_bytes 2 (uc_padding c), uc_local_addr c, uc_remote_addr c,
       le_bytes 2 (uc_local_port c), le_bytes 2 (uc_remote_port c)]) @ [replicate 4 0]"

definition encode_uprobe_event :: "uprobe_event \<Rightarrow> u8 list" where
  "encode_uprobe_event e = concat (uprobe_fields e)"

definition sizeof_uprobe_event :: nat where "sizeof_uprobe_event = 224"

definition decode_uprobe_event :: "u8 list \<Rightarrow> uprobe_event option" where
  "decode_uprobe_event bs =
     (if length bs < sizeof_uprobe_event then None
      else let fs = split_widths uprobe_widths bs in
        Some \<lparr>up_hdr = hdr_of_fields fs, up_direction = le_word (fs ! 6), up_padding = le_word (fs ! 7),
          up_tls = \<lparr>ut_version = le_word (fs ! 8), ut_padding = le_word (fs ! 9),
            ut_payload_snippet = bytes_str (fs ! 10)\<rparr>,
          up_resolved_conn = \<lparr>uc_resolved = hd (fs ! 11), uc_is_ipv6 = hd (fs ! 12), uc_padding = le_word (fs ! 13),
            uc_local_addr = fs ! 14, uc_remote_addr = fs ! 15, uc_local_port = le_word (fs ! 16),
            uc_remote_port = le_word (fs ! 17)\<rparr>\<rparr>)"

definition lsm_widths :: "nat list" where "lsm_widths = hdr_widths @ [8, 4, 4]"

definition lsm_fields :: "lsm_cert_guard_event \<Rightarrow> u8 list list" where
  "lsm_fields e = hdr_fields (lsm_hdr e) @
     (let c = lsm_cert e in
      [le_bytes 8 (ca_cgroup_id c), le_bytes 4 (ca_comm_mismatch c), le_bytes 4 (ca_shadow_mode c)])"

definition encode_lsm_event :: "lsm_cert_guard_event \<Rightarrow> u8 list" where
  "encode_lsm_event e = concat (lsm_fields e)"

definition sizeof_lsm_event :: nat where "sizeof_lsm_event = 56"

definition decode_lsm_event :: "u8 list \<Rightarrow> lsm_cert_guard_event option" where
  "decode_lsm_event bs =
     (if length bs < sizeof_lsm_event then None
      else let fs = split_widths lsm_widths bs in
        Some \<lparr>lsm_hdr = hdr_of_fields fs,
          lsm_cert = \<lparr>ca_cgroup_id = le_word (fs ! 6), ca_comm_mismatch = le_word (fs ! 7),
            ca_shadow_mode = le_word (fs ! 8)\<rparr>\<rparr>)"

text \<open>The discriminator \<open>DetectLoop::process\<close> reads before it knows the type.\<close>

definition record_source :: "u8 list \<Rightarrow> u32 option" where
  "record_source bs = (if length bs < 4 then None else Some (le_word (take 4 bs)))"

section \<open>Round trips\<close>

lemma split_widths_concat:
  "map length fs = ns \<Longrightarrow> split_widths ns (concat fs @ rest) = fs"
  by (induction fs arbitrary: ns) auto

lemma str_bytes_inverse [simp]: "bytes_str (str_bytes s) = s" "length (str_bytes s) = length s"
  by (induction s) (auto simp: str_bytes_def bytes_str_def)

lemma length_le16s [simp]: "length (le16s_bytes ws) = 2 * length ws"
  by (induction ws) (auto simp: le16s_bytes_def)

lemma le16s_inverse [simp]: "length ws = n \<Longrightarrow> bytes_le16s n (le16s_bytes ws) = ws"
proof -
  assume n: "length ws = n"
  have "split_widths (replicate n 2) (concat (map (le_bytes 2) ws) @ []) = map (le_bytes 2) ws"
    by (rule split_widths_concat) (use n in \<open>auto simp: list_eq_iff_nth_eq\<close>)
  then show ?thesis by (simp add: bytes_le16s_def le16s_bytes_def comp_def)
qed

lemma hdr_of_fields_inverse [simp]: "hdr_of_fields (hdr_fields h @ fs) = h"
  by (simp add: hdr_of_fields_def hdr_fields_def)

lemma hdr_fields_widths: "wf_hdr h \<Longrightarrow> map length (hdr_fields h) = hdr_widths"
  by (simp add: hdr_fields_def hdr_widths_def wf_hdr_def)

lemma xdp_fields_widths: "wf_xdp_event e \<Longrightarrow> map length (xdp_fields e) = xdp_widths"
  by (simp add: xdp_fields_def xdp_widths_def hdr_fields_widths wf_xdp_event_def Let_def)

lemma uprobe_fields_widths: "wf_uprobe_event e \<Longrightarrow> map length (uprobe_fields e) = uprobe_widths"
  by (simp add: uprobe_fields_def uprobe_widths_def hdr_fields_widths wf_uprobe_event_def Let_def)

lemma lsm_fields_widths: "wf_lsm_event e \<Longrightarrow> map length (lsm_fields e) = lsm_widths"
  by (simp add: lsm_fields_def lsm_widths_def hdr_fields_widths wf_lsm_event_def Let_def)

lemma length_encode:
  "wf_xdp_event e \<Longrightarrow> length (encode_xdp_event e) = sizeof_xdp_event"
  "wf_uprobe_event u \<Longrightarrow> length (encode_uprobe_event u) = sizeof_uprobe_event"
  "wf_lsm_event l \<Longrightarrow> length (encode_lsm_event l) = sizeof_lsm_event"
  by (simp_all add: encode_xdp_event_def encode_uprobe_event_def encode_lsm_event_def length_concat
      xdp_fields_widths uprobe_fields_widths lsm_fields_widths xdp_widths_def uprobe_widths_def lsm_widths_def
      hdr_widths_def sizeof_xdp_event_def sizeof_uprobe_event_def sizeof_lsm_event_def)

lemma decode_encode_xdp:
  assumes "wf_xdp_event e"
  shows "decode_xdp_event (encode_xdp_event e @ rest) = Some e"
proof -
  have "split_widths xdp_widths (encode_xdp_event e @ rest) = xdp_fields e"
    unfolding encode_xdp_event_def by (rule split_widths_concat [OF xdp_fields_widths [OF assms]])
  then show ?thesis using assms length_encode(1) [OF assms]
    by (simp add: decode_xdp_event_def Let_def xdp_fields_def hdr_fields_def hdr_of_fields_def wf_xdp_event_def)
qed

lemma decode_encode_uprobe:
  assumes "wf_uprobe_event e"
  shows "decode_uprobe_event (encode_uprobe_event e @ rest) = Some e"
proof -
  have "split_widths uprobe_widths (encode_uprobe_event e @ rest) = uprobe_fields e"
    unfolding encode_uprobe_event_def by (rule split_widths_concat [OF uprobe_fields_widths [OF assms]])
  then show ?thesis using assms length_encode(2) [OF assms]
    by (simp add: decode_uprobe_event_def Let_def uprobe_fields_def hdr_fields_def hdr_of_fields_def wf_uprobe_event_def)
qed

lemma decode_encode_lsm:
  assumes "wf_lsm_event e"
  shows "decode_lsm_event (encode_lsm_event e @ rest) = Some e"
proof -
  have "split_widths lsm_widths (encode_lsm_event e @ rest) = lsm_fields e"
    unfolding encode_lsm_event_def by (rule split_widths_concat [OF lsm_fields_widths [OF assms]])
  then show ?thesis using assms length_encode(3) [OF assms]
    by (simp add: decode_lsm_event_def Let_def lsm_fields_def hdr_fields_def hdr_of_fields_def wf_lsm_event_def)
qed

lemma record_source_fields:
  "record_source (concat (hdr_fields h @ fs) @ rest) = Some (hdr_event_source h)"
  by (simp add: record_source_def hdr_fields_def)

lemma record_source_encode:
  "record_source (encode_xdp_event e @ rest) = Some (hdr_event_source (xdp_hdr e))"
  "record_source (encode_uprobe_event u @ rest) = Some (hdr_event_source (up_hdr u))"
  "record_source (encode_lsm_event l @ rest) = Some (hdr_event_source (lsm_hdr l))"
  unfolding encode_xdp_event_def encode_uprobe_event_def encode_lsm_event_def
    xdp_fields_def uprobe_fields_def lsm_fields_def
  by (rule record_source_fields)+

lemma wf_zero_events [wf_intros]:
  "wf_xdp_event zero_xdp_event" "wf_uprobe_event zero_uprobe_event" "wf_lsm_event zero_lsm_event"
  by (simp_all add: wf_xdp_event_def wf_uprobe_event_def wf_lsm_event_def wf_hdr_def zero_xdp_event_def
      zero_uprobe_event_def zero_lsm_event_def zero_hdr_def zero_uprobe_conn_def zero_client_hello_def)

section \<open>Properties\<close>

text \<open>C32: the ring-buffer ABI.  The memory image of each of the three event structs has the size
  the daemon checks and fits the queue slot, its first four bytes are the discriminator that
  \<open>DetectLoop::process\<close> reads, and the daemon's copy of it, even from a longer record, is the
  struct the kernel wrote, field by field.\<close>

theorem raw_event_abi:
  assumes "wf_xdp_event e" "wf_uprobe_event u" "wf_lsm_event l"
  shows "decode_xdp_event (encode_xdp_event e @ rest) = Some e
    \<and> decode_uprobe_event (encode_uprobe_event u @ rest) = Some u
    \<and> decode_lsm_event (encode_lsm_event l @ rest) = Some l
    \<and> record_source (encode_xdp_event e @ rest) = Some (hdr_event_source (xdp_hdr e))
    \<and> record_source (encode_uprobe_event u @ rest) = Some (hdr_event_source (up_hdr u))
    \<and> record_source (encode_lsm_event l @ rest) = Some (hdr_event_source (lsm_hdr l))
    \<and> length (encode_xdp_event e) = sizeof_xdp_event \<and> sizeof_xdp_event \<le> HG_MAX_RAW_EVENT_SIZE
    \<and> length (encode_uprobe_event u) = sizeof_uprobe_event \<and> sizeof_uprobe_event \<le> HG_MAX_RAW_EVENT_SIZE
    \<and> length (encode_lsm_event l) = sizeof_lsm_event \<and> sizeof_lsm_event \<le> HG_MAX_RAW_EVENT_SIZE"
  using assms
  by (simp add: decode_encode_xdp decode_encode_uprobe decode_encode_lsm length_encode record_source_encode
      sizeof_xdp_event_def sizeof_uprobe_event_def sizeof_lsm_event_def HG_MAX_RAW_EVENT_SIZE_def)

theorem raw_event_abi_witness:
  "decode_xdp_event (encode_xdp_event zero_xdp_event @ [1]) = Some zero_xdp_event
   \<and> decode_uprobe_event (encode_uprobe_event zero_uprobe_event @ [1]) = Some zero_uprobe_event
   \<and> decode_lsm_event (encode_lsm_event zero_lsm_event @ [1]) = Some zero_lsm_event"
  using raw_event_abi [OF wf_zero_events, of "[1]"] by simp

end
