(* ===== verification/Xdp_Tls.thy ===== *)
theory Xdp_Tls
  imports Blocklist Conn_Rate Raw_Event
begin

unbundle bit_operations_syntax

text \<open>
  \<open>programs/xdp_tls/ebpf/xdp_tls.bpf.h\<close>: the packet path.  A packet is the list of bytes from
  \<open>data\<close> to \<open>data_end\<close>; a pointer is an offset into it and \<open>p + n > data_end\<close> is a comparison with its
  length.  Bit fields are those of a little-endian machine.  The state is what the program
  shares with the daemon: the blocklist, the counters and the ring buffer.  What the kernel
  supplies to one run (clock readings, the current task, whether the ring buffer has room) is
  \<open>xdp_env\<close>.  \<open>bpf_printk\<close> is trace output and not modelled.
\<close>

definition ETH_P_IP :: u16 where "ETH_P_IP = 0x0800"
definition IPPROTO_TCP :: u8 where "IPPROTO_TCP = 6"
definition TLS_1_2 :: u16 where "TLS_1_2 = 0x0303"

record xdp_state =
  xs_blocklist :: blocklist_map
  xs_conn_rate :: conn_rate_map
  xs_events :: "xdp_event list"

text \<open>One field per reading of \<open>bpf_ktime_get_ns\<close>, in the order of the calls.\<close>

record xdp_env =
  xe_now_check :: u64
  xe_now_flags :: u64
  xe_now_hello :: u64
  xe_now_event :: u64
  xe_pid_tgid :: u64
  xe_comm :: string
  xe_reserve :: bool

section \<open>Helpers\<close>

definition fill_hdr :: "xdp_env \<Rightarrow> u32 \<Rightarrow> hg_event_hdr \<Rightarrow> hg_event_hdr" where
  "fill_hdr env source h =
     h\<lparr>hdr_event_source := source, hdr_pid := ucast (xe_pid_tgid env),
       hdr_tgid := ucast (drop_bit 32 (xe_pid_tgid env)), hdr_timestamp_ns := xe_now_event env,
       hdr_comm := xe_comm env, hdr_reserved := 0\<rparr>"

definition fill_xdp_event_fields :: "xdp_env \<Rightarrow> xdp_event \<Rightarrow> xdp_event" where
  "fill_xdp_event_fields env evt =
     evt\<lparr>xdp_hdr := fill_hdr env HG_SOURCE_XDP (xdp_hdr evt),
         xdp_tls := (xdp_tls evt)\<lparr>xt_is_violation := 0\<rparr>\<rparr>"

text \<open>\<open>safe_strlcpy\<close>: the loop at index \<open>i\<close> with \<open>trips\<close> left; \<open>src\<close> is what lies before \<open>data_end\<close>.\<close>

fun strlcpy_loop :: "nat \<Rightarrow> nat \<Rightarrow> string \<Rightarrow> u8 list \<Rightarrow> string \<times> nat" where
  "strlcpy_loop 0 i dst src = (dst[i := NUL], i)"
| "strlcpy_loop (Suc trips) i dst src =
     (if length src \<le> i then (dst[i := NUL], i)
      else let dst = dst[i := chr8 (src ! i)]
           in if src ! i = 0 then (dst[i := NUL], i) else strlcpy_loop trips (Suc i) dst src)"

definition safe_strlcpy :: "string \<Rightarrow> u8 list \<Rightarrow> nat \<Rightarrow> string \<times> nat" where
  "safe_strlcpy dst src dst_sz = strlcpy_loop (dst_sz - 1) 0 dst src"

definition looks_like_http :: "u8 list \<Rightarrow> nat \<Rightarrow> bool" where
  "looks_like_http payload len \<longleftrightarrow>
     (if len < 4 then False
      else map chr8 (take 4 payload) \<in> {''GET '', ''POST'', ''PUT '', ''DELE'', ''HTTP''})"

text \<open>The printable source address: the octets still to write, the position and the array.\<close>

definition put_char :: "bool \<Rightarrow> char \<Rightarrow> nat \<times> string \<Rightarrow> nat \<times> string" where
  "put_char cond c ps = (if cond then (fst ps + 1, (snd ps)[fst ps := c]) else ps)"

fun write_src_ip :: "u8 list \<Rightarrow> nat \<Rightarrow> string \<Rightarrow> string" where
  "write_src_ip [] p s = s[p := NUL]"
| "write_src_ip (b # bs) p s =
     (let oct = unat b;
          ps = put_char (100 \<le> oct) (digit_char (oct div 100)) (p, s);
          ps = put_char (10 \<le> oct) (digit_char (oct div 10 mod 10)) ps;
          ps = put_char True (digit_char (oct mod 10)) ps;
          ps = put_char (bs \<noteq> []) CHR ''.'' ps
      in write_src_ip bs (fst ps) (snd ps))"

definition format_src_ip :: "u32 \<Rightarrow> string \<Rightarrow> string" where
  "format_src_ip saddr s = write_src_ip [byte_at 0 saddr, byte_at 1 saddr, byte_at 2 saddr, byte_at 3 saddr] 0 s"

section \<open>The program\<close>

text \<open>The handshake branch, from the TLS payload on.\<close>

definition xdp_handshake ::
  "(u32, hg_conn_rate) bpf_update \<Rightarrow> xdp_env \<Rightarrow> xdp_state \<Rightarrow> u32 \<Rightarrow> u32 \<Rightarrow> u16 \<Rightarrow> u16 \<Rightarrow> u8 list
   \<Rightarrow> xdp_action \<times> xdp_state" where
  "xdp_handshake upd env st saddr daddr source dest tcp_payload =
     (let st = st\<lparr>xs_conn_rate := conn_rate_record upd (xe_now_hello env) (xs_conn_rate st) saddr HG_CONN_HELLO\<rparr>
      in if \<not> xe_reserve env then (XDP_PASS, st)
      else
        let evt = fill_xdp_event_fields env zero_xdp_event;
            evt = evt\<lparr>xdp_conn := (xdp_conn evt)
                    \<lparr>ct_src_ip_v4 := saddr, ct_dst_ip_v4 := daddr, ct_src_port := source, ct_dst_port := dest,
                     ct_src_ip_str := format_src_ip saddr (ct_src_ip_str (xdp_conn evt))\<rparr>\<rparr>;
            cursor = 5 + 4;
            has_version = cursor + 2 \<le> length tcp_payload;
            tls_ver = (if has_version then be16_of (tcp_payload ! cursor) (tcp_payload ! (cursor + 1)) else 0);
            is_violation = has_version \<and> tls_ver < TLS_1_2;
            evt = (if has_version
                   then evt\<lparr>xdp_tls := (xdp_tls evt)
                          \<lparr>xt_version := tls_ver, xt_is_violation := (if is_violation then 1 else 0)\<rparr>\<rparr>
                   else evt);
            evt = (if has_version \<and> 6 \<le> length tcp_payload \<and> tcp_payload ! 5 = 1
                   then evt\<lparr>xdp_client_hello :=
                          parse_client_hello_detail (xdp_client_hello evt) (drop cursor tcp_payload)\<rparr>
                   else evt);
            st = st\<lparr>xs_events := xs_events st @ [evt]\<rparr>
        in (if is_violation then XDP_DROP else XDP_PASS, st))"

text \<open>The plaintext branch, for any other first byte.\<close>

definition xdp_plaintext ::
  "xdp_env \<Rightarrow> xdp_state \<Rightarrow> u32 \<Rightarrow> u32 \<Rightarrow> u16 \<Rightarrow> u16 \<Rightarrow> u8 list \<Rightarrow> nat \<Rightarrow> xdp_action \<times> xdp_state" where
  "xdp_plaintext env st saddr daddr source dest tcp_payload payload_len =
     (if (tcp_payload ! 0 = ord8 CHR ''G'' \<or> tcp_payload ! 0 = ord8 CHR ''P'') \<and>
         looks_like_http tcp_payload payload_len
      then if \<not> xe_reserve env then (XDP_PASS, st)
        else
          let evt = fill_xdp_event_fields env zero_xdp_event;
              evt = evt\<lparr>xdp_conn := (xdp_conn evt)
                      \<lparr>ct_src_ip_v4 := saddr, ct_dst_ip_v4 := daddr, ct_src_port := source, ct_dst_port := dest\<rparr>,
                    xdp_tls := (xdp_tls evt)
                      \<lparr>xt_is_violation := 0,
                       xt_payload_snippet := fst (safe_strlcpy (xt_payload_snippet (xdp_tls evt)) tcp_payload
                                                    HG_PAYLOAD_SNIPPET_LEN)\<rparr>\<rparr>
          in (XDP_PASS, st\<lparr>xs_events := xs_events st @ [evt]\<rparr>)
      else (XDP_PASS, st))"

text \<open>The TCP flags and what they mean to the counters.\<close>

definition tcp_fin :: "u8 \<Rightarrow> bool" where "tcp_fin flags = bit flags 0"
definition tcp_syn :: "u8 \<Rightarrow> bool" where "tcp_syn flags = bit flags 1"
definition tcp_rst :: "u8 \<Rightarrow> bool" where "tcp_rst flags = bit flags 2"
definition tcp_ack :: "u8 \<Rightarrow> bool" where "tcp_ack flags = bit flags 4"

definition xdp_count_flags ::
  "(u32, hg_conn_rate) bpf_update \<Rightarrow> xdp_env \<Rightarrow> xdp_state \<Rightarrow> u32 \<Rightarrow> u8 \<Rightarrow> xdp_state" where
  "xdp_count_flags upd env st saddr flags =
     (if tcp_syn flags \<and> \<not> tcp_ack flags
      then st\<lparr>xs_conn_rate := conn_rate_record upd (xe_now_flags env) (xs_conn_rate st) saddr HG_CONN_ATTEMPT\<rparr>
      else if tcp_fin flags \<or> tcp_rst flags
      then st\<lparr>xs_conn_rate := conn_rate_record upd (xe_now_flags env) (xs_conn_rate st) saddr HG_CONN_CLOSED\<rparr>
      else st)"

text \<open>From the TCP header on: \<open>tcp\<close> is its offset.\<close>

definition xdp_tcp ::
  "(u32, hg_conn_rate) bpf_update \<Rightarrow> xdp_env \<Rightarrow> xdp_state \<Rightarrow> u8 list \<Rightarrow> u32 \<Rightarrow> u32 \<Rightarrow> nat \<Rightarrow> nat
   \<Rightarrow> xdp_action \<times> xdp_state" where
  "xdp_tcp upd env st pkt saddr daddr tot_len ip_hdr_len =
     (let tcp = 14 + ip_hdr_len in
      if length pkt < tcp + 20 then (XDP_PASS, st)
      else let tcp_hdr_len = unat (drop_bit 4 (pkt ! (tcp + 12))) * 4 in
      if tcp_hdr_len < 20 then (XDP_PASS, st)
      else
        let st = xdp_count_flags upd env st saddr (pkt ! (tcp + 13));
            source = bswap16 (le16_of (pkt ! tcp) (pkt ! (tcp + 1)));
            dest = bswap16 (le16_of (pkt ! (tcp + 2)) (pkt ! (tcp + 3)))
        in
        if dest \<noteq> 443 \<and> source \<noteq> 443 then (XDP_PASS, st)
        else if length pkt < tcp + tcp_hdr_len then (XDP_PASS, st)
        else let payload_offset = ip_hdr_len + tcp_hdr_len in
        if tot_len < payload_offset then (XDP_PASS, st)
        else let tcp_payload = drop (tcp + tcp_hdr_len) pkt in
        if length tcp_payload < 5 then (XDP_PASS, st)
        else let payload_len = tot_len - payload_offset in
        if payload_len < 5 then (XDP_PASS, st)
        else if tcp_payload ! 0 = 0x16 then xdp_handshake upd env st saddr daddr source dest tcp_payload
        else xdp_plaintext env st saddr daddr source dest tcp_payload payload_len)"

definition https_guard_xdp ::
  "(u32, hg_conn_rate) bpf_update \<Rightarrow> xdp_env \<Rightarrow> xdp_state \<Rightarrow> u8 list \<Rightarrow> xdp_action \<times> xdp_state" where
  "https_guard_xdp upd env st pkt =
     (if length pkt < 14 then (XDP_PASS, st)
      else if le16_of (pkt ! 12) (pkt ! 13) \<noteq> bswap16 ETH_P_IP then (XDP_PASS, st)
      else if length pkt < 14 + 20 then (XDP_PASS, st)
      else
        let saddr = le32_of (pkt ! 26) (pkt ! 27) (pkt ! 28) (pkt ! 29);
            daddr = le32_of (pkt ! 30) (pkt ! 31) (pkt ! 32) (pkt ! 33);
            (verdict, bl) = blocklist_check (xe_now_check env) (xs_blocklist st) saddr;
            st = st\<lparr>xs_blocklist := bl\<rparr>
        in
        if verdict = XDP_DROP then (XDP_DROP, st)
        else let tot_len = unat (bswap16 (le16_of (pkt ! 16) (pkt ! 17))) in
        if tot_len < 20 then (XDP_PASS, st)
        else let ip_hdr_len = unat (pkt ! 14 AND 0x0F) * 4 in
        if ip_hdr_len < 20 then (XDP_PASS, st)
        else if pkt ! 23 \<noteq> IPPROTO_TCP then (XDP_PASS, st)
        else xdp_tcp upd env st pkt saddr daddr tot_len ip_hdr_len)"

section \<open>The helpers, characterised\<close>

fun dotted :: "u8 list \<Rightarrow> string" where
  "dotted [] = []"
| "dotted [b] = to_string (unat b)"
| "dotted (b # bs) = to_string (unat b) @ ''.'' @ dotted bs"

lemma dotted_Cons: "dotted (b # bs) = to_string (unat b) @ (if bs \<noteq> [] then CHR ''.'' # dotted bs else [])"
  by (cases bs) simp_all

lemma inet_ntop4_dotted: "inet_ntop4 ip = dotted [byte_at 0 ip, byte_at 1 ip, byte_at 2 ip, byte_at 3 ip]"
  by (simp add: inet_ntop4_def)

lemma octet_text:
  assumes "n < 256"
  shows "(if 100 \<le> n then [digit_char (n div 100)] else []) @
         (if 10 \<le> n then [digit_char (n div 10 mod 10)] else []) @ [digit_char (n mod 10)] = to_string n"
proof -
  consider "n < 10" | "10 \<le> n \<and> n < 100" | "100 \<le> n \<and> n < 1000" using assms by linarith
  then show ?thesis
  proof cases
    case 2
    then have "n div 10 mod 10 = n div 10" by (simp add: less_mult_imp_div_less)
    with 2 show ?thesis by (simp add: to_string_small)
  qed (simp_all add: to_string_small to_string_hundreds)
qed

lemma length_dotted: "length (dotted bs) \<le> 4 * length bs"
proof (induction bs)
  case (Cons b bs)
  have "length (to_string (unat b)) \<le> 3" by (rule length_to_string_u8) simp
  with Cons show ?case by (simp add: dotted_Cons)
qed simp

lemma put_char_zeros:
  assumes "0 < n"
  shows "put_char cond c (length pre, pre @ replicate n NUL) =
     (length (pre @ (if cond then [c] else [])),
      (pre @ (if cond then [c] else [])) @ replicate (n - (if cond then 1 else 0)) NUL)"
  using assms by (cases n) (auto simp: put_char_def list_update_append)

lemma write_octet:
  assumes "4 < n"
  shows "put_char dot c (put_char True d1 (put_char b10 d10 (put_char b100 d100 (length pre, pre @ replicate n NUL)))) =
         (let t = (if b100 then [d100] else []) @ (if b10 then [d10] else []) @ [d1] @ (if dot then [c] else [])
          in (length (pre @ t), (pre @ t) @ replicate (n - length t) NUL))"
  using assms by (subst put_char_zeros, simp)+ (simp add: Let_def)

lemma write_src_ip_zeros:
  "4 * length bs < n \<Longrightarrow>
   write_src_ip bs (length pre) (pre @ replicate n NUL) = pre @ dotted bs @ replicate (n - length (dotted bs)) NUL"
proof (induction bs arbitrary: pre n)
  case Nil
  then show ?case by (cases n) (simp_all add: list_update_append)
next
  case (Cons b bs)
  let ?t = "to_string (unat b) @ (if bs \<noteq> [] then ''.'' else [])"
  have n: "4 < n" using Cons.prems by (cases bs) simp_all
  have len: "length (to_string (unat b)) \<le> 3" by (rule length_to_string_u8) simp
  have t: "?t = (if 100 \<le> unat b then [digit_char (unat b div 100)] else []) @
     (if 10 \<le> unat b then [digit_char (unat b div 10 mod 10)] else []) @ [digit_char (unat b mod 10)] @
     (if bs \<noteq> [] then ''.'' else [])"
    using octet_text [of "unat b"] by simp
  have "write_src_ip (b # bs) (length pre) (pre @ replicate n NUL) =
     write_src_ip bs (length (pre @ ?t)) ((pre @ ?t) @ replicate (n - length ?t) NUL)"
    unfolding write_src_ip.simps Let_def write_octet [OF n] t by (simp only: fst_conv snd_conv)
  also have "\<dots> = (pre @ ?t) @ dotted bs @ replicate (n - length ?t - length (dotted bs)) NUL"
    using Cons.prems len by (intro Cons.IH) auto
  finally show ?case by (cases bs) simp_all
qed

lemma replicate_update_0: "(replicate k x)[0 := x] = replicate k x"
  by (cases k) simp_all

lemma safe_strlcpy_loop_zeros:
  assumes "i + trips < n" "i \<le> length src" "0 \<notin> set (take i src)" "m = i + trips"
  shows "fst (strlcpy_loop trips i (map chr8 (take i src) @ replicate (n - i) NUL) src) =
     (let t = map chr8 (takeWhile (\<lambda>b. b \<noteq> 0) (take m src)) in t @ replicate (n - length t) NUL)"
  using assms
proof (induction trips arbitrary: i)
  case 0
  have "\<forall>b \<in> set (take i src). b \<noteq> 0" using 0 by metis
  then have tw: "takeWhile (\<lambda>b. b \<noteq> 0) (take i src) = take i src" by (simp only: takeWhile_eq_all_conv)
  show ?case using 0 by (simp add: tw Let_def list_update_append min_absorb2 replicate_update_0)
next
  case (Suc trips)
  have z: "map chr8 (take i src) @ replicate (n - i) NUL = map chr8 (take i src) @ NUL # replicate (n - Suc i) NUL"
    using Suc.prems(1) by (metis Suc_diff_Suc add_lessD1 replicate_Suc)
  show ?case
  proof (cases "length src \<le> i")
    case True
    then have i: "i = length src" and m: "take m src = src" using Suc.prems by auto
    then have "\<forall>b \<in> set src. b \<noteq> 0" using Suc.prems(3) by auto
    then have tw: "takeWhile (\<lambda>b. b \<noteq> 0) src = src" by (simp only: takeWhile_eq_all_conv)
    show ?thesis using Suc.prems(1) z by (simp add: i m tw Let_def list_update_append)
  next
    case False
    then have nx: "take (Suc i) src = take i src @ [src ! i]" by (simp add: take_Suc_conv_app_nth)
    have dst: "(map chr8 (take i src) @ replicate (n - i) NUL)[i := chr8 (src ! i)] =
        map chr8 (take (Suc i) src) @ replicate (n - Suc i) NUL"
      using False by (simp add: z list_update_append nx)
    show ?thesis
    proof (cases "src ! i = 0")
      case True
      have "take m src = take i src @ 0 # drop (Suc i) (take m src)"
        using False Suc.prems(4) True id_take_nth_drop [of i "take m src"] by (simp add: min_def)
      then have "takeWhile (\<lambda>b. b \<noteq> 0) (take m src) =
          takeWhile (\<lambda>b. b \<noteq> 0) (take i src @ 0 # drop (Suc i) (take m src))" by (rule arg_cong)
      also have "\<dots> = take i src"
        by (subst takeWhile_append2) (use Suc.prems(3) in \<open>metis\<close>, simp)
      finally have "takeWhile (\<lambda>b. b \<noteq> 0) (take m src) = take i src" .
      then show ?thesis using True False dst Suc.prems(2) by (simp add: Let_def z list_update_append)
    next
      case nz: False
      have "fst (strlcpy_loop trips (Suc i) (map chr8 (take (Suc i) src) @ replicate (n - Suc i) NUL) src) =
         (let t = map chr8 (takeWhile (\<lambda>b. b \<noteq> 0) (take m src)) in t @ replicate (n - length t) NUL)"
        using Suc.prems False nz by (intro Suc.IH) (auto simp: nx)
      then show ?thesis using False nz dst by (simp add: Let_def)
    qed
  qed
qed

section \<open>Verdict and events\<close>

definition is_ipv4 :: "u8 list \<Rightarrow> bool" where
  "is_ipv4 pkt \<longleftrightarrow> 34 \<le> length pkt \<and> pkt ! 12 = 0x08 \<and> pkt ! 13 = 0x00"

definition pkt_saddr :: "u8 list \<Rightarrow> u32" where
  "pkt_saddr pkt = le32_of (pkt ! 26) (pkt ! 27) (pkt ! 28) (pkt ! 29)"

lemma ethertype_iff: "le16_of b0 b1 = bswap16 ETH_P_IP \<longleftrightarrow> b0 = 0x08 \<and> b1 = 0x00"
proof -
  have e: "bswap16 ETH_P_IP = le16_of 0x08 0x00" by code_simp
  show ?thesis unfolding e by (metis byte_at_le16)
qed

lemma https_guard_xdp_not_ipv4: "\<not> is_ipv4 pkt \<Longrightarrow> https_guard_xdp upd env st pkt = (XDP_PASS, st)"
  by (auto simp: https_guard_xdp_def is_ipv4_def ethertype_iff)

lemma blocklist_check_drop_same: "ip \<in> blocked t m \<Longrightarrow> blocklist_check t m ip = (XDP_DROP, m)"
  by (auto simp: blocklist_check_def blocked_def)

lemma https_guard_xdp_blocked:
  assumes "is_ipv4 pkt" "pkt_saddr pkt \<in> blocked (xe_now_check env) (xs_blocklist st)"
  shows "https_guard_xdp upd env st pkt = (XDP_DROP, st)"
  using assms blocklist_check_drop_same [OF assms(2)]
  by (simp add: https_guard_xdp_def is_ipv4_def ethertype_iff pkt_saddr_def)

text \<open>What is left of the program for a source that is not blocked, as one rule: a property of
  the verdict and the state holds if passing keeps it, with or without the flag counted, and
  the two payload branches establish it.\<close>

lemma https_guard_xdp_rule:
  fixes env st pkt upd
  defines "st0 \<equiv> st\<lparr>xs_blocklist := snd (blocklist_check (xe_now_check env) (xs_blocklist st) (pkt_saddr pkt))\<rparr>"
  assumes ip: "is_ipv4 pkt" and nb: "pkt_saddr pkt \<notin> blocked (xe_now_check env) (xs_blocklist st)"
    and pass: "P (XDP_PASS, st0)"
    and counted: "\<And>flags. P (XDP_PASS, xdp_count_flags upd env st0 (pkt_saddr pkt) flags)"
    and hello: "\<And>flags daddr source dest payload. 5 \<le> length payload \<Longrightarrow> payload ! 0 = 0x16 \<Longrightarrow>
       P (xdp_handshake upd env (xdp_count_flags upd env st0 (pkt_saddr pkt) flags) (pkt_saddr pkt) daddr source dest payload)"
    and plain: "\<And>flags daddr source dest payload len. 5 \<le> length payload \<Longrightarrow>
       P (xdp_plaintext env (xdp_count_flags upd env st0 (pkt_saddr pkt) flags) (pkt_saddr pkt) daddr source dest payload len)"
  shows "P (https_guard_xdp upd env st pkt)"
proof -
  have chk: "blocklist_check (xe_now_check env) (xs_blocklist st) (pkt_saddr pkt) = (XDP_PASS, xs_blocklist st0)"
    using nb bl.check_pass [of "xe_now_check env" "xs_blocklist st" "pkt_saddr pkt"]
    by (cases "blocklist_check (xe_now_check env) (xs_blocklist st) (pkt_saddr pkt)") (auto simp: st0_def)
  have st0: "st\<lparr>xs_blocklist := xs_blocklist st0\<rparr> = st0" by (simp add: st0_def)
  have tcp: "P (xdp_tcp upd env st0 pkt (pkt_saddr pkt) daddr tot_len ip_hdr_len)" for daddr tot_len ip_hdr_len
    by (auto simp: xdp_tcp_def Let_def intro!: pass counted hello plain)
  show ?thesis using ip pass tcp
    by (simp add: https_guard_xdp_def is_ipv4_def ethertype_iff Let_def pkt_saddr_def [symmetric] chk st0)
qed

lemma xdp_count_flags_frame [simp]:
  "xs_events (xdp_count_flags upd env st saddr flags) = xs_events st"
  "xs_blocklist (xdp_count_flags upd env st saddr flags) = xs_blocklist st"
  by (simp_all add: xdp_count_flags_def)

text \<open>What a submitted event says about its packet.\<close>

definition event_of_source :: "xdp_env \<Rightarrow> u32 \<Rightarrow> xdp_event \<Rightarrow> bool" where
  "event_of_source env saddr e \<longleftrightarrow>
     xdp_hdr e = fill_hdr env HG_SOURCE_XDP zero_hdr \<and> ct_src_ip_v4 (xdp_conn e) = saddr \<and>
     boundedString (ct_src_ip_str (xdp_conn e)) \<in> {inet_ntop4 saddr, []} \<and>
     length (ct_src_ip_str (xdp_conn e)) = HG_IP_STR_LEN \<and>
     length (xt_payload_snippet (xdp_tls e)) = HG_PAYLOAD_SNIPPET_LEN \<and>
     xt_payload_snippet (xdp_tls e) ! (HG_PAYLOAD_SNIPPET_LEN - 1) = NUL \<and>
     wf_client_hello (xdp_client_hello e) \<and> xt_is_violation (xdp_tls e) \<in> {0, 1} \<and>
     (xt_is_violation (xdp_tls e) = 1 \<longrightarrow> xt_version (xdp_tls e) < TLS_1_2)"

lemma digit_char_not_NUL [simp]: "d < 10 \<Longrightarrow> digit_char d \<noteq> NUL" "d < 10 \<Longrightarrow> NUL \<noteq> digit_char d"
proof -
  assume "d < 10"
  then have "of_char (digit_char d) \<noteq> (of_char NUL :: nat)" by simp
  then show "digit_char d \<noteq> NUL" "NUL \<noteq> digit_char d" by metis+
qed

lemma to_string_no_NUL: "NUL \<notin> set (to_string n)"
proof (induction n rule: to_string.induct)
  case (1 n)
  then show ?case by (auto simp: to_string.simps [of n])
qed

lemma to_string_no_dot: "CHR ''.'' \<notin> set (to_string n)"
proof (induction n rule: to_string.induct)
  case (1 n)
  have "digit_char d \<noteq> CHR ''.''" if "d < 10" for d
  proof
    assume "digit_char d = CHR ''.''"
    then have "(of_char (digit_char d) :: nat) = of_char (CHR ''.'')" by simp
    then show False using that by simp
  qed
  note no = this [symmetric]
  show ?case using 1 no by (auto simp: to_string.simps [of n])
qed

lemma src_ip_str_text:
  "format_src_ip ip (replicate 32 NUL) =
     inet_ntop4 ip @ replicate (32 - length (inet_ntop4 ip)) NUL"
  "length (inet_ntop4 ip) < 32" "NUL \<notin> set (inet_ntop4 ip)"
proof -
  let ?bs = "[byte_at 0 ip, byte_at 1 ip, byte_at 2 ip, byte_at 3 ip]"
  show "format_src_ip ip (replicate 32 NUL) = inet_ntop4 ip @ replicate (32 - length (inet_ntop4 ip)) NUL"
    using write_src_ip_zeros [of ?bs 32 "[]"] by (simp only: inet_ntop4_dotted format_src_ip_def) simp
  show "length (inet_ntop4 ip) < 32"
    using length_dotted [of ?bs] by (simp only: inet_ntop4_dotted) simp
  show "NUL \<notin> set (inet_ntop4 ip)" by (simp add: inet_ntop4_def to_string_no_NUL)
qed

lemma split_at_dot:
  "CHR ''.'' \<notin> set xs \<Longrightarrow> CHR ''.'' \<notin> set ys \<Longrightarrow> xs @ CHR ''.'' # r = ys @ CHR ''.'' # r' \<longleftrightarrow> xs = ys \<and> r = r'"
proof (induction xs arbitrary: ys)
  case Nil
  then show ?case by (cases ys) auto
next
  case (Cons x xs)
  then show ?case by (cases ys) auto
qed

lemma inet_ntop4_inject: "inet_ntop4 a = inet_ntop4 b \<longleftrightarrow> a = b"
proof
  assume "inet_ntop4 a = inet_ntop4 b"
  then have "byte_at 0 a = byte_at 0 b" "byte_at 1 a = byte_at 1 b" "byte_at 2 a = byte_at 2 b" "byte_at 3 a = byte_at 3 b"
    by (simp_all add: inet_ntop4_def split_at_dot to_string_no_dot word_unat_eq_iff)
  then show "a = b" by (metis le32_of_byte_at One_nat_def)
qed simp

lemma src_ip_str_bounded:
  "boundedString (inet_ntop4 ip @ replicate (32 - length (inet_ntop4 ip)) NUL) = inet_ntop4 ip"
proof -
  obtain k where "32 - length (inet_ntop4 ip) = Suc k"
    using src_ip_str_text(2) [of ip] by (metis Suc_diff_Suc)
  then show ?thesis using boundedString_terminated [OF src_ip_str_text(3)] by simp
qed

lemma snippet_zeros:
  "\<exists>t. fst (safe_strlcpy (replicate 128 NUL) src 128) = t @ replicate (128 - length t) NUL \<and> length t < 128"
proof -
  let ?t = "map chr8 (takeWhile (\<lambda>b. b \<noteq> 0) (take 127 src))"
  have "length ?t < 128"
    using length_takeWhile_le [of "\<lambda>b. b \<noteq> 0" "take 127 src"] by simp
  then show ?thesis using safe_strlcpy_loop_zeros [of 0 127 128 src 127]
    by (intro exI [of _ ?t]) (simp add: safe_strlcpy_def Let_def)
qed

text \<open>Every verdict is explained by the events: a drop comes with an event that is flagged as a
  violation, a flagged event comes with a drop, and there is at most one event.\<close>

definition explained :: "xdp_env \<Rightarrow> u32 \<Rightarrow> xdp_event list \<Rightarrow> xdp_action \<times> xdp_state \<Rightarrow> bool" where
  "explained env saddr evs r \<longleftrightarrow>
     (fst r = XDP_PASS \<and> xs_events (snd r) = evs) \<or>
     (\<exists>e. xs_events (snd r) = evs @ [e] \<and> event_of_source env saddr e \<and>
          (fst r = XDP_DROP \<longleftrightarrow> xt_is_violation (xdp_tls e) = 1))"

lemma explained_handshake:
  "explained env saddr (xs_events st) (xdp_handshake upd env st saddr daddr source dest payload)"
  using parse_wf
  by (auto simp: explained_def xdp_handshake_def Let_def event_of_source_def fill_xdp_event_fields_def zero_xdp_event_def
      src_ip_str_text src_ip_str_text(2) [THEN less_imp_le] src_ip_str_bounded fill_hdr_def zero_hdr_def
      wf_zero_client_hello)

lemma explained_plaintext:
  "explained env saddr (xs_events st) (xdp_plaintext env st saddr daddr source dest payload len)"
proof -
  obtain t where t: "fst (safe_strlcpy (replicate 128 NUL) payload 128) = t @ replicate (128 - length t) NUL" "length t < 128"
    using snippet_zeros by blast
  show ?thesis using t(2)
    by (auto simp: explained_def xdp_plaintext_def Let_def event_of_source_def fill_xdp_event_fields_def
      zero_xdp_event_def t(1) nth_append fill_hdr_def zero_hdr_def wf_zero_client_hello boundedString_def)
qed

lemma explained_xdp:
  assumes "is_ipv4 pkt" "pkt_saddr pkt \<notin> blocked (xe_now_check env) (xs_blocklist st)"
  shows "explained env (pkt_saddr pkt) (xs_events st) (https_guard_xdp upd env st pkt)"
proof (rule https_guard_xdp_rule [OF assms], goal_cases)
  case (3 flags daddr source dest payload)
  show ?case using explained_handshake [of env "pkt_saddr pkt" "xdp_count_flags upd env
      (st\<lparr>xs_blocklist := snd (blocklist_check (xe_now_check env) (xs_blocklist st) (pkt_saddr pkt))\<rparr>)
      (pkt_saddr pkt) flags"] by simp
next
  case (4 flags daddr source dest payload len)
  show ?case using explained_plaintext [of env "pkt_saddr pkt" "xdp_count_flags upd env
      (st\<lparr>xs_blocklist := snd (blocklist_check (xe_now_check env) (xs_blocklist st) (pkt_saddr pkt))\<rparr>)
      (pkt_saddr pkt) flags"] by simp
qed (simp_all add: explained_def)

section \<open>A bounded prefix\<close>

lemma strlcpy_loop_take: "i + trips \<le> n \<Longrightarrow> strlcpy_loop trips i dst (take n src) = strlcpy_loop trips i dst src"
  by (induction trips arbitrary: i dst) (auto simp: Let_def)

lemma xdp_handshake_take:
  assumes "1033 \<le> n"
  shows "xdp_handshake upd env st saddr daddr source dest (take n payload) =
     xdp_handshake upd env st saddr daddr source dest payload"
proof -
  have d: "parse_client_hello_detail out (drop (5 + 4) (take n payload)) = parse_client_hello_detail out (drop (5 + 4) payload)" for out
    using assms by (simp add: drop_take parse_client_hello_detail_take)
  have r: "5 + 4 + 2 \<le> length (take n payload) \<longleftrightarrow> 5 + 4 + 2 \<le> length payload" "6 \<le> length (take n payload) \<longleftrightarrow> 6 \<le> length payload"
      "take n payload ! (5 + 4) = payload ! (5 + 4)" "take n payload ! (5 + 4 + 1) = payload ! (5 + 4 + 1)" "take n payload ! 5 = payload ! 5"
    using assms by auto
  show ?thesis unfolding xdp_handshake_def Let_def d r ..
qed

lemma xdp_plaintext_take:
  assumes "127 \<le> n"
  shows "xdp_plaintext env st saddr daddr source dest (take n payload) len =
     xdp_plaintext env st saddr daddr source dest payload len"
proof -
  have "safe_strlcpy dst (take n payload) HG_PAYLOAD_SNIPPET_LEN = safe_strlcpy dst payload HG_PAYLOAD_SNIPPET_LEN" for dst
    using assms by (simp add: safe_strlcpy_def strlcpy_loop_take)
  then show ?thesis using assms by (simp add: xdp_plaintext_def looks_like_http_def min_def)
qed

lemma doff_bound: "unat (drop_bit 4 b) * 4 \<le> 60" for b :: u8
proof -
  have "unat (drop_bit 4 b) = unat b div 16" unfolding unat_drop_bit_eq by (simp add: drop_bit_eq_div)
  moreover have "unat b div 16 < 16" by (rule less_mult_imp_div_less) simp
  ultimately show ?thesis by linarith
qed

lemma xdp_tcp_take:
  assumes "ip_hdr_len \<le> 60"
  shows "xdp_tcp upd env st (take 1167 pkt) saddr daddr tot_len ip_hdr_len = xdp_tcp upd env st pkt saddr daddr tot_len ip_hdr_len"
proof -
  let ?p = "take 1167 pkt" and ?off = "\<lambda>b :: u8. 14 + ip_hdr_len + unat (drop_bit 4 b) * 4"
  have off: "1033 \<le> 1167 - ?off b" "?off b \<le> 134" for b using doff_bound [of b] assms by linarith+
  have pay: "xdp_handshake upd env st saddr daddr src dst (drop (?off b) ?p) = xdp_handshake upd env st saddr daddr src dst (drop (?off b) pkt)"
    "xdp_plaintext env st saddr daddr src dst (drop (?off b) ?p) len = xdp_plaintext env st saddr daddr src dst (drop (?off b) pkt) len"
    "length (drop (?off b) ?p) < 5 \<longleftrightarrow> length (drop (?off b) pkt) < 5" "drop (?off b) ?p ! 0 = drop (?off b) pkt ! 0"
    for st src dst b len
    using off [of b] unfolding drop_take by (simp_all add: xdp_handshake_take xdp_plaintext_take) auto
  have at: "?p ! (14 + ip_hdr_len + k) = pkt ! (14 + ip_hdr_len + k)" if "k < 20" for k using that assms by simp
  have hdr: "length ?p < 14 + ip_hdr_len + 20 \<longleftrightarrow> length pkt < 14 + ip_hdr_len + 20"
    "length ?p < ?off b \<longleftrightarrow> length pkt < ?off b" "?p ! (14 + ip_hdr_len) = pkt ! (14 + ip_hdr_len)" for b
    using assms off [of b] by auto
  have rd: "?p ! (14 + ip_hdr_len + 1) = pkt ! (14 + ip_hdr_len + 1)" "?p ! (14 + ip_hdr_len + 2) = pkt ! (14 + ip_hdr_len + 2)"
    "?p ! (14 + ip_hdr_len + 3) = pkt ! (14 + ip_hdr_len + 3)" "?p ! (14 + ip_hdr_len + 12) = pkt ! (14 + ip_hdr_len + 12)"
    "?p ! (14 + ip_hdr_len + 13) = pkt ! (14 + ip_hdr_len + 13)" by (rule at, simp)+
  show ?thesis unfolding xdp_tcp_def Let_def hdr rd pay ..
qed

section \<open>Encoded segments\<close>

text \<open>A TCP segment over IPv4 over Ethernet, and its bytes.\<close>

record segment =
  sg_macs :: "u8 list"
  sg_tos :: u8
  sg_ident :: "u8 list"  \<comment> \<open>identification, flags and fragment offset\<close>
  sg_ttl :: u8
  sg_ip_sum :: "u8 list"
  sg_saddr :: u32
  sg_daddr :: u32
  sg_ip_opts :: "u8 list"
  sg_sport :: u16
  sg_dport :: u16
  sg_seq_ack :: "u8 list"
  sg_flags :: u8
  sg_tcp_rest :: "u8 list"  \<comment> \<open>window, checksum and urgent pointer\<close>
  sg_tcp_opts :: "u8 list"
  sg_payload :: "u8 list"

definition sg_tot_len :: "segment \<Rightarrow> nat" where
  "sg_tot_len g = 40 + length (sg_ip_opts g) + length (sg_tcp_opts g) + length (sg_payload g)"

definition net16 :: "u16 \<Rightarrow> u8 list" where
  "net16 w = [byte_at 1 w, byte_at 0 w]"

definition net32 :: "u32 \<Rightarrow> u8 list" where
  "net32 w = [byte_at 0 w, byte_at 1 w, byte_at 2 w, byte_at 3 w]"

definition ip_bytes :: "segment \<Rightarrow> u8 list" where
  "ip_bytes g = sg_macs g @ [0x08, 0x00] @
     [0x40 OR word_of_nat (5 + length (sg_ip_opts g) div 4), sg_tos g] @ net16 (word_of_nat (sg_tot_len g)) @
     sg_ident g @ [sg_ttl g, 6] @ sg_ip_sum g @ net32 (sg_saddr g) @ net32 (sg_daddr g) @ sg_ip_opts g"

definition tcp_bytes :: "segment \<Rightarrow> u8 list" where
  "tcp_bytes g = net16 (sg_sport g) @ net16 (sg_dport g) @ sg_seq_ack g @
     [push_bit 4 (word_of_nat (5 + length (sg_tcp_opts g) div 4)), sg_flags g] @ sg_tcp_rest g @ sg_tcp_opts g"

definition segment_bytes :: "segment \<Rightarrow> u8 list" where
  "segment_bytes g = ip_bytes g @ tcp_bytes g @ sg_payload g"

definition wf_segment :: "segment \<Rightarrow> bool" where
  "wf_segment g \<longleftrightarrow> length (sg_macs g) = 12 \<and> length (sg_ident g) = 4 \<and> length (sg_ip_sum g) = 2 \<and>
     length (sg_seq_ack g) = 8 \<and> length (sg_tcp_rest g) = 6 \<and>
     4 dvd length (sg_ip_opts g) \<and> length (sg_ip_opts g) \<le> 40 \<and>
     4 dvd length (sg_tcp_opts g) \<and> length (sg_tcp_opts g) \<le> 40 \<and> sg_tot_len g < 65536"

text \<open>What the packet path does with a segment, in terms of its fields.\<close>

definition xdp_on_segment ::
  "(u32, hg_conn_rate) bpf_update \<Rightarrow> xdp_env \<Rightarrow> xdp_state \<Rightarrow> segment \<Rightarrow> xdp_action \<times> xdp_state" where
  "xdp_on_segment upd env st g =
     (let (verdict, bl) = blocklist_check (xe_now_check env) (xs_blocklist st) (sg_saddr g);
          st = st\<lparr>xs_blocklist := bl\<rparr>
      in if verdict = XDP_DROP then (XDP_DROP, st)
      else
        let st = xdp_count_flags upd env st (sg_saddr g) (sg_flags g) in
        if (sg_dport g \<noteq> 443 \<and> sg_sport g \<noteq> 443) \<or> length (sg_payload g) < 5 then (XDP_PASS, st)
        else if sg_payload g ! 0 = 0x16
        then xdp_handshake upd env st (sg_saddr g) (sg_daddr g) (sg_sport g) (sg_dport g) (sg_payload g)
        else xdp_plaintext env st (sg_saddr g) (sg_daddr g) (sg_sport g) (sg_dport g) (sg_payload g)
               (length (sg_payload g)))"

lemma nth_right: "(xs @ ys) ! (length xs + k) = ys ! k"
  by (simp add: nth_append)

lemma nth_rightI: "length xs = n \<Longrightarrow> n \<le> i \<Longrightarrow> (xs @ ys) ! i = ys ! (i - n)"
  by (simp add: nth_append)

lemma bswap16_net16: "bswap16 (le16_of (byte_at (Suc 0) w) (byte_at 0 w)) = w"
  by (simp add: bswap16_def be16_of_swap)

lemma ihl_nibble: "n < 16 \<Longrightarrow> unat ((0x40 OR word_of_nat n) AND 0x0F :: u8) = n"
proof -
  assume "n < 16"
  moreover have "\<forall>n \<in> set [0..<16]. unat ((0x40 OR word_of_nat n) AND 0x0F :: u8) = n" by code_simp
  ultimately show ?thesis by simp
qed

lemma doff_nibble: "n < 16 \<Longrightarrow> unat (drop_bit 4 (push_bit 4 (word_of_nat n) :: u8)) = n"
proof -
  assume "n < 16"
  moreover have "\<forall>n \<in> set [0..<16]. unat (drop_bit 4 (push_bit 4 (word_of_nat n) :: u8)) = n" by code_simp
  ultimately show ?thesis by simp
qed

lemma length_ip_bytes: "wf_segment g \<Longrightarrow> length (ip_bytes g) = 34 + length (sg_ip_opts g)"
  by (simp add: ip_bytes_def wf_segment_def net16_def net32_def)

lemma length_tcp_bytes: "wf_segment g \<Longrightarrow> length (tcp_bytes g) = 20 + length (sg_tcp_opts g)"
  by (simp add: tcp_bytes_def wf_segment_def net16_def)

lemma segment_ip_fields:
  assumes "wf_segment g"
  shows "segment_bytes g ! 12 = 0x08" "segment_bytes g ! 13 = 0x00"
    "segment_bytes g ! 14 = 0x40 OR word_of_nat (5 + length (sg_ip_opts g) div 4)"
    "segment_bytes g ! 16 = byte_at (Suc 0) (word_of_nat (sg_tot_len g) :: u16)"
    "segment_bytes g ! 17 = byte_at 0 (word_of_nat (sg_tot_len g) :: u16)"
    "segment_bytes g ! 23 = 6"
    "segment_bytes g ! 26 = byte_at 0 (sg_saddr g)" "segment_bytes g ! 27 = byte_at (Suc 0) (sg_saddr g)"
    "segment_bytes g ! 28 = byte_at 2 (sg_saddr g)" "segment_bytes g ! 29 = byte_at 3 (sg_saddr g)"
    "segment_bytes g ! 30 = byte_at 0 (sg_daddr g)" "segment_bytes g ! 31 = byte_at (Suc 0) (sg_daddr g)"
    "segment_bytes g ! 32 = byte_at 2 (sg_daddr g)" "segment_bytes g ! 33 = byte_at 3 (sg_daddr g)"
  using assms
  by (simp_all add: segment_bytes_def ip_bytes_def wf_segment_def net16_def net32_def nth_append)

lemma segment_tcp_fields:
  assumes "wf_segment g" "tcp = 34 + length (sg_ip_opts g)"
  shows "segment_bytes g ! tcp = byte_at (Suc 0) (sg_sport g)" "segment_bytes g ! (tcp + 1) = byte_at 0 (sg_sport g)"
    "segment_bytes g ! (tcp + 2) = byte_at (Suc 0) (sg_dport g)" "segment_bytes g ! (tcp + 3) = byte_at 0 (sg_dport g)"
    "segment_bytes g ! (tcp + 12) = push_bit 4 (word_of_nat (5 + length (sg_tcp_opts g) div 4))"
    "segment_bytes g ! (tcp + 13) = sg_flags g"
  using assms(1) nth_right [of "ip_bytes g" "tcp_bytes g @ sg_payload g"]
  unfolding assms(2) length_ip_bytes [OF assms(1), symmetric] segment_bytes_def
  by (simp_all add: tcp_bytes_def wf_segment_def net16_def nth_append)

lemma segment_layout:
  assumes "wf_segment g"
  shows "length (segment_bytes g) = 14 + sg_tot_len g"
    "drop (14 + (20 + length (sg_ip_opts g)) + (20 + length (sg_tcp_opts g))) (segment_bytes g) = sg_payload g"
    "(5 + length (sg_ip_opts g) div 4) * 4 = 20 + length (sg_ip_opts g)" "5 + length (sg_ip_opts g) div 4 < 16"
    "(5 + length (sg_tcp_opts g) div 4) * 4 = 20 + length (sg_tcp_opts g)" "5 + length (sg_tcp_opts g) div 4 < 16"
  using assms length_ip_bytes [OF assms] length_tcp_bytes [OF assms]
  by (auto simp: segment_bytes_def sg_tot_len_def wf_segment_def)

lemma segment_tot_len: "wf_segment g \<Longrightarrow> unat (word_of_nat (sg_tot_len g) :: u16) = sg_tot_len g"
  by (rule unat_of_nat_u16) (simp add: wf_segment_def)

lemma https_guard_xdp_segment:
  assumes "wf_segment g"
  shows "https_guard_xdp upd env st (segment_bytes g) = xdp_on_segment upd env st g"
proof -
  let ?pkt = "segment_bytes g" and ?ihl = "20 + length (sg_ip_opts g)"
  note ip = segment_ip_fields [OF assms] and lay = segment_layout [OF assms]
  note tcp = segment_tcp_fields [OF assms refl]
  have addr: "le32_of (?pkt ! 26) (?pkt ! 27) (?pkt ! 28) (?pkt ! 29) = sg_saddr g"
    "le32_of (?pkt ! 30) (?pkt ! 31) (?pkt ! 32) (?pkt ! 33) = sg_daddr g" by (simp_all add: ip)
  have ihl: "unat (?pkt ! 14 AND 0x0F) * 4 = ?ihl"
    using ihl_nibble [OF lay(4)] lay(3) by (simp add: ip)
  have tot: "unat (bswap16 (le16_of (?pkt ! 16) (?pkt ! 17))) = sg_tot_len g"
    by (simp add: ip bswap16_net16 segment_tot_len [OF assms])
  have seg: "xdp_tcp upd env st' ?pkt (sg_saddr g) (sg_daddr g) (sg_tot_len g) ?ihl =
     (let st' = xdp_count_flags upd env st' (sg_saddr g) (sg_flags g) in
      if (sg_dport g \<noteq> 443 \<and> sg_sport g \<noteq> 443) \<or> length (sg_payload g) < 5 then (XDP_PASS, st')
        else if sg_payload g ! 0 = 0x16
        then xdp_handshake upd env st' (sg_saddr g) (sg_daddr g) (sg_sport g) (sg_dport g) (sg_payload g)
        else xdp_plaintext env st' (sg_saddr g) (sg_daddr g) (sg_sport g) (sg_dport g) (sg_payload g)
               (length (sg_payload g)))" for st'
  proof -
    have off: "14 + ?ihl = 34 + length (sg_ip_opts g)" by simp
    have doff: "unat (drop_bit 4 (?pkt ! (14 + ?ihl + 12))) * 4 = 20 + length (sg_tcp_opts g)"
      unfolding off tcp using doff_nibble [OF lay(6)] lay(5) by simp
    have ports: "bswap16 (le16_of (?pkt ! (14 + ?ihl)) (?pkt ! (14 + ?ihl + 1))) = sg_sport g"
      "bswap16 (le16_of (?pkt ! (14 + ?ihl + 2)) (?pkt ! (14 + ?ihl + 3))) = sg_dport g"
      unfolding off tcp bswap16_net16 by simp_all
    have flags: "?pkt ! (14 + ?ihl + 13) = sg_flags g" unfolding off tcp ..
    have len: "length ?pkt = 54 + length (sg_ip_opts g) + length (sg_tcp_opts g) + length (sg_payload g)"
      by (simp add: lay sg_tot_len_def)
    show ?thesis
      unfolding xdp_tcp_def Let_def doff ports flags lay(2)
      by (auto simp: len sg_tot_len_def)
  qed
  have len: "\<not> length ?pkt < 14" "\<not> length ?pkt < 34" "\<not> sg_tot_len g < 20"
    by (simp_all add: lay sg_tot_len_def)
  show ?thesis
    unfolding https_guard_xdp_def addr ihl tot Let_def
    by (simp add: ip ethertype_iff len seg xdp_on_segment_def IPPROTO_TCP_def Let_def split: prod.split)
qed

lemma segment_is_ipv4:
  assumes "wf_segment g"
  shows "is_ipv4 (segment_bytes g)" "pkt_saddr (segment_bytes g) = sg_saddr g"
  using segment_ip_fields [OF assms] segment_layout(1) [OF assms]
  by (simp_all add: is_ipv4_def pkt_saddr_def sg_tot_len_def)

text \<open>Concrete inputs: a TLS 1.2 ClientKeyExchange of an RSA key exchange on port 443 (a 256-byte
  encrypted secret, of which the first bytes are here), and the environment of a run.\<close>

definition sample_segment :: "u8 \<Rightarrow> u16 \<Rightarrow> segment" where
  "sample_segment flags dport =
     \<lparr>sg_macs = replicate 12 0, sg_tos = 0, sg_ident = [0, 0, 0, 0], sg_ttl = 64, sg_ip_sum = [0, 0], sg_saddr = 7,
      sg_daddr = 8, sg_ip_opts = [], sg_sport = 50000, sg_dport = dport, sg_seq_ack = replicate 8 0, sg_flags = flags,
      sg_tcp_rest = replicate 6 0, sg_tcp_opts = [],
      sg_payload = [0x16, 3, 3, 1, 6, 0x10, 0, 1, 2, 0x01, 0x00, 0xAB]\<rparr>"

definition sample_env :: xdp_env where
  "sample_env = \<lparr>xe_now_check = 50, xe_now_flags = 51, xe_now_hello = 52, xe_now_event = 53,
     xe_pid_tgid = 0, xe_comm = replicate 16 NUL, xe_reserve = True\<rparr>"

definition sample_state :: "blocklist_map \<Rightarrow> xdp_state" where
  "sample_state m = \<lparr>xs_blocklist = m, xs_conn_rate = Map.empty, xs_events = []\<rparr>"

lemma sample_segment_wf: "wf_segment (sample_segment flags dport)"
  by (simp add: wf_segment_def sample_segment_def sg_tot_len_def)

lemma sample_not_blocked: "sg_saddr (sample_segment flags dport) \<notin> blocked (xe_now_check sample_env) (xs_blocklist (sample_state Map.empty))"
  by (simp add: blocked_def sample_state_def)

section \<open>Properties\<close>

text \<open>A packet from a blocklisted source is inert.  It is dropped before anything else looks at
  it: no counter of its source moves, no event reaches the ring buffer, and the blocklist is
  unchanged.\<close>

theorem xdp_blocked_inert:
  assumes "is_ipv4 pkt" and "pkt_saddr pkt \<in> blocked (xe_now_check env) (xs_blocklist st)"
  shows "https_guard_xdp upd env st pkt = (XDP_DROP, st)"
  using assms by (rule https_guard_xdp_blocked)

theorem xdp_blocked_inert_witness:
  "https_guard_xdp (conn_rate_map_update (\<lambda>_. 0)) sample_env (sample_state [7 \<mapsto> 100]) (segment_bytes (sample_segment 2 443)) =
     (XDP_DROP, sample_state [7 \<mapsto> 100])"
  by (rule xdp_blocked_inert)
     (simp_all add: segment_is_ipv4 sample_segment_wf, simp add: sample_segment_def sample_env_def sample_state_def blocked_def)

text \<open>C6: for every byte string, the packet is dropped iff it is an IPv4 packet of a blocked source or
  this run submitted an event flagged as a TLS version violation.  A submitted event is at most
  one, names the packet's source as number and as text, carries a well-formed ClientHello
  detail and terminated strings, and is flagged only for a version below TLS 1.2.\<close>

theorem xdp_drop_iff:
  "(fst (https_guard_xdp upd env st pkt) = XDP_DROP \<longleftrightarrow>
      is_ipv4 pkt \<and> (pkt_saddr pkt \<in> blocked (xe_now_check env) (xs_blocklist st) \<or>
        (\<exists>e. xs_events (snd (https_guard_xdp upd env st pkt)) = xs_events st @ [e] \<and>
             xt_is_violation (xdp_tls e) = 1)))
   \<and> (xs_events (snd (https_guard_xdp upd env st pkt)) = xs_events st \<or>
      (\<exists>e. xs_events (snd (https_guard_xdp upd env st pkt)) = xs_events st @ [e] \<and>
           event_of_source env (pkt_saddr pkt) e))"
proof -
  consider "\<not> is_ipv4 pkt" | "is_ipv4 pkt" "pkt_saddr pkt \<in> blocked (xe_now_check env) (xs_blocklist st)"
    | "is_ipv4 pkt" "pkt_saddr pkt \<notin> blocked (xe_now_check env) (xs_blocklist st)" by blast
  then show ?thesis
  proof cases
    case 3
    show ?thesis using 3 explained_xdp [OF 3, of upd] by (auto simp: explained_def)
  qed (simp_all add: https_guard_xdp_not_ipv4 https_guard_xdp_blocked)
qed

text \<open>C7: header parsing.  On the bytes of any well-formed TCP segment, with any IP and TCP options,
  the program acts on the segment's own fields: blocklist first, then the SYN or FIN/RST counted
  whatever the port, then port 443 and at least five payload bytes, then the handshake or
  the plaintext branch on exactly the payload.\<close>

theorem xdp_segment_refines:
  assumes "wf_segment g"
  shows "https_guard_xdp upd env st (segment_bytes g) = xdp_on_segment upd env st g"
  using assms by (rule https_guard_xdp_segment)

theorem xdp_segment_refines_witness:
  "https_guard_xdp (conn_rate_map_update (\<lambda>_. 0)) sample_env (sample_state Map.empty) (segment_bytes (sample_segment 0 80)) =
     (XDP_PASS, sample_state Map.empty)"
  unfolding xdp_segment_refines [OF sample_segment_wf]
  by (simp add: xdp_on_segment_def blocklist_check_def sample_state_def sample_segment_def xdp_count_flags_def
      tcp_syn_def tcp_fin_def tcp_rst_def)

text \<open>A connection attempt is counted whatever its port.  A SYN without ACK from a source that is
  not blocked makes \<open>conn_rate_record\<close> charge one attempt to exactly that source, also when
  neither port is 443, in which case nothing else happens.\<close>

theorem xdp_counts_before_port_filter:
  assumes "wf_segment g" and "sg_saddr g \<notin> blocked (xe_now_check env) (xs_blocklist st)"
    and "tcp_syn (sg_flags g)" "\<not> tcp_ack (sg_flags g)" "sg_dport g \<noteq> 443" "sg_sport g \<noteq> 443"
  shows "https_guard_xdp upd env st (segment_bytes g) =
     (XDP_PASS, st\<lparr>xs_blocklist := snd (blocklist_check (xe_now_check env) (xs_blocklist st) (sg_saddr g)),
        xs_conn_rate := conn_rate_record upd (xe_now_flags env) (xs_conn_rate st) (sg_saddr g) HG_CONN_ATTEMPT\<rparr>)"
  using assms bl.check_pass [of "xe_now_check env" "xs_blocklist st" "sg_saddr g"]
  by (cases "blocklist_check (xe_now_check env) (xs_blocklist st) (sg_saddr g)")
     (simp add: https_guard_xdp_segment xdp_on_segment_def xdp_count_flags_def Let_def)

theorem xdp_counts_before_port_filter_witness:
  "xs_conn_rate (snd (https_guard_xdp (conn_rate_map_update (\<lambda>_. 0)) sample_env (sample_state Map.empty)
     (segment_bytes (sample_segment 2 22)))) 7 = Some (conn_rate_fresh 51 HG_CONN_ATTEMPT)"
  by (subst xdp_counts_before_port_filter [OF sample_segment_wf sample_not_blocked])
     (simp_all add: sample_segment_def sample_state_def sample_env_def tcp_syn_def tcp_ack_def conn_rate_record_def
       conn_rate_map_update_def lru_update_def HTTPS_GUARD_CONN_RATE_MAX_ENTRIES_def bit_simps)

text \<open>the version rule as the code has it.  On port 443, any handshake record of at least eleven
  payload bytes from a source that is not blocked is dropped iff the big-endian number at bytes 9
  and 10 is below \<open>0x0303\<close>, whatever its handshake type at byte 5: the bytes are the legacy
  version of a ClientHello only when that type is 1.\<close>

theorem xdp_version_rule:
  assumes "wf_segment g" and "sg_saddr g \<notin> blocked (xe_now_check env) (xs_blocklist st)"
    and "sg_dport g = 443" "11 \<le> length (sg_payload g)" "sg_payload g ! 0 = 0x16" "xe_reserve env"
  shows "fst (https_guard_xdp upd env st (segment_bytes g)) = XDP_DROP \<longleftrightarrow>
           be16_of (sg_payload g ! 9) (sg_payload g ! 10) < TLS_1_2"
  using assms bl.check_pass [of "xe_now_check env" "xs_blocklist st" "sg_saddr g"]
  by (cases "blocklist_check (xe_now_check env) (xs_blocklist st) (sg_saddr g)")
     (simp add: https_guard_xdp_segment xdp_on_segment_def xdp_handshake_def Let_def)

theorem xdp_version_rule_witness:
  "fst (https_guard_xdp (conn_rate_map_update (\<lambda>_. 0)) sample_env (sample_state Map.empty)
     (segment_bytes (sample_segment 0x18 443))) = XDP_DROP
   \<and> sg_payload (sample_segment 0x18 443) ! 5 = 0x10"
proof -
  have "be16_of (sg_payload (sample_segment 0x18 443) ! 9) (sg_payload (sample_segment 0x18 443) ! 10) < TLS_1_2"
    by (simp add: sample_segment_def be16_of_def TLS_1_2_def)
  then show ?thesis
    using xdp_version_rule [where g = "sample_segment 0x18 443" and upd = "conn_rate_map_update (\<lambda>_. 0)",
        OF sample_segment_wf sample_not_blocked]
    by (simp add: sample_segment_def sample_env_def)
qed

text \<open>C38: The kernel program and the daemon write an address the same way.  The packet program formats it digit by digit
  without a library, into a fixed buffer; read back as a string this is for every address the text
  \<open>inet_ntop\<close> gives in the daemon, padded with null bytes, and different addresses have different texts.\<close>

theorem ip_text_agrees:
  "format_src_ip ip (replicate HG_IP_STR_LEN NUL) = formatIp ip @ replicate (HG_IP_STR_LEN - length (formatIp ip)) NUL
   \<and> boundedString (format_src_ip ip (replicate HG_IP_STR_LEN NUL)) = formatIp ip
   \<and> (formatIp ip = formatIp ip' \<longleftrightarrow> ip = ip')"
  using src_ip_str_text [of ip] src_ip_str_bounded [of ip] inet_ntop4_inject [of ip ip'] by (simp add: formatIp_def)

text \<open>C8: the work per packet is bounded.  However long a packet is and whatever its length fields claim, the verdict, the
  counters, the blocklist and the event submitted are decided by its first 1167 bytes: the Ethernet header, IPv4 and
  TCP headers of at most 60 bytes each, and the 9 bytes of record and handshake header
  with the 1024 of a ClientHello that its parser may scan.\<close>

theorem xdp_reads_bounded: "https_guard_xdp upd env st (take 1167 pkt) = https_guard_xdp upd env st pkt"
proof -
  have "unat (b AND 0x0F) * 4 \<le> 60" for b :: u8 
  proof -
    have "b AND 0x0F = take_bit 4 b" by (simp add: take_bit_eq_mask mask_eq_exp_minus_1)
    then show ?thesis by (simp add: unsigned_take_bit_eq) (simp add: take_bit_eq_mod)
  qed
  note tcp = xdp_tcp_take [OF this]
  have at: "take 1167 pkt ! k = pkt ! k" if "k < 134" for k using that by simp
  have len: "length (take 1167 pkt) < k \<longleftrightarrow> length pkt < k" if "k \<le> 134" for k using that by auto
  show ?thesis unfolding https_guard_xdp_def Let_def tcp by (simp add: at len del: length_take split del: if_split cong: if_cong split: prod.split)
qed

end
