(* ===== verification/Event_Meta.thy ===== *)
theory Event_Meta
  imports Raw_Event
begin

text \<open>
  \<open>detections/core/event/event_meta.hpp\<close>, \<open>event_meta_from.hpp\<close>, \<open>tls_version.hpp\<close> and
  \<open>detections/core/contract/Verdict.hpp\<close>: the envelope every event carries, how it is filled from a
  raw record, and what a rule concludes.  The one resolver of the program
  (\<open>SslUprobeProgram::resolvePeer\<close>) is an argument of \<open>ensurePeerResolved\<close>; the pointer
  \<open>peer_resolver\<close> is whether it is set.
\<close>

datatype ip_family = kV4 | kV6

record ip_address =
  ip_family :: ip_family
  ip_bytes16 :: "u8 list"

definition IpAddress_init :: ip_address where
  "IpAddress_init = \<lparr>ip_family = kV4, ip_bytes16 = replicate 16 0\<rparr>"

definition isSet :: "ip_address \<Rightarrow> bool" where
  "isSet a \<longleftrightarrow> list_ex (\<lambda>b. b \<noteq> 0) (ip_bytes16 a)"

definition v4 :: "ip_address \<Rightarrow> u32" where
  "v4 a = le_word (take 4 (ip_bytes16 a))"

definition setV4 :: "u32 \<Rightarrow> ip_address \<Rightarrow> ip_address" where
  "setV4 v a = a\<lparr>ip_family := kV4, ip_bytes16 := le_bytes 4 v @ replicate 12 0\<rparr>"

record event_meta =
  em_timestamp_ns :: u64
  em_pid :: u32
  em_tgid :: u32
  em_process :: string
  em_local_ip :: ip_address
  em_remote_ip :: ip_address
  em_local_port :: u16
  em_remote_port :: u16
  em_source_ip :: string
  em_peer_resolver :: bool
  em_peer_attempted :: bool
  em_peer_ok :: bool

definition EventMeta_init :: event_meta where
  "EventMeta_init =
     \<lparr>em_timestamp_ns = 0, em_pid = 0, em_tgid = 0, em_process = [], em_local_ip = IpAddress_init,
      em_remote_ip = IpAddress_init, em_local_port = 0, em_remote_port = 0, em_source_ip = [],
      em_peer_resolver = False, em_peer_attempted = False, em_peer_ok = False\<rparr>"

type_synonym peer_resolver = "event_meta \<Rightarrow> bool \<times> event_meta"

definition ensurePeerResolved :: "peer_resolver \<Rightarrow> event_meta \<Rightarrow> bool \<times> event_meta" where
  "ensurePeerResolved resolvePeer m =
     (if em_peer_attempted m then (em_peer_ok m, m)
      else let m = m\<lparr>em_peer_attempted := True\<rparr> in
        if em_peer_resolver m
        then let (ok, m) = resolvePeer m in (ok, m\<lparr>em_peer_ok := ok\<rparr>)
        else (em_peer_ok m, m))"

definition fillEnvelope :: "hg_event_hdr \<Rightarrow> event_meta \<Rightarrow> event_meta" where
  "fillEnvelope h m =
     m\<lparr>em_timestamp_ns := hdr_timestamp_ns h, em_pid := hdr_pid h, em_tgid := hdr_tgid h,
       em_process := boundedString (hdr_comm h)\<rparr>"

definition fillConnection :: "hg_conn_tuple \<Rightarrow> event_meta \<Rightarrow> event_meta" where
  "fillConnection c m =
     m\<lparr>em_local_ip := setV4 (ct_dst_ip_v4 c) (em_local_ip m), em_remote_ip := setV4 (ct_src_ip_v4 c) (em_remote_ip m),
       em_local_port := ct_dst_port c, em_remote_port := ct_src_port c,
       em_source_ip := boundedString (ct_src_ip_str c)\<rparr>"

text \<open>\<open>resolver\<close> is whether the hook passed one.\<close>

definition fillResolvedConnection :: "hg_uprobe_conn \<Rightarrow> bool \<Rightarrow> event_meta \<Rightarrow> event_meta" where
  "fillResolvedConnection c resolver m =
     (if uc_resolved c = 0 then m\<lparr>em_peer_resolver := resolver\<rparr>
      else let fam = (if uc_is_ipv6 c \<noteq> 0 then kV6 else kV4) in
        m\<lparr>em_local_ip := \<lparr>ip_family = fam, ip_bytes16 = uc_local_addr c\<rparr>,
          em_remote_ip := \<lparr>ip_family = fam, ip_bytes16 = uc_remote_addr c\<rparr>,
          em_local_port := uc_local_port c, em_remote_port := uc_remote_port c\<rparr>)"

record verdict =
  severity :: string
  message_id :: string
  message :: string
  actionable :: bool

definition TlsVersion_toString :: "u16 \<Rightarrow> string" where
  "TlsVersion_toString v =
     (if v = 0x0301 then ''TLS 1.0'' else if v = 0x0302 then ''TLS 1.1''
      else if v = 0x0303 then ''TLS 1.2'' else if v = 0x0304 then ''TLS 1.3'' else ''Unknown'')"

section \<open>Addresses\<close>

lemma v4_setV4 [simp]: "v4 (setV4 v a) = v"
  by (simp add: v4_def setV4_def)

lemma family_setV4 [simp]: "ip_family (setV4 v a) = kV4"
  by (simp add: setV4_def)

lemma le_bytes_zero: "list_ex (\<lambda>b. b \<noteq> 0) (le_bytes 4 v) \<longleftrightarrow> v \<noteq> (0 :: u32)"
proof -
  have "v = le_word (le_bytes 4 v)" by simp
  moreover have "\<not> list_ex (\<lambda>b. b \<noteq> 0) (le_bytes 4 v) \<Longrightarrow> le_bytes 4 v = replicate 4 0"
    by (simp add: list_ex_iff list_eq_iff_nth_eq)
  moreover have "le_word (replicate 4 0) = (0 :: u32)" by (simp add: le_word_def numeral_eq_Suc)
  moreover have "le_bytes 4 (0 :: u32) = replicate 4 0"
    by (simp add: le_bytes_def byte_at_def list_eq_iff_nth_eq)
  ultimately show ?thesis by (metis (mono_tags, lifting) in_set_replicate list_ex_iff)
qed

lemma isSet_setV4 [simp]: "isSet (setV4 v a) \<longleftrightarrow> v \<noteq> 0"
  using le_bytes_zero [of v] by (auto simp: isSet_def setV4_def list_ex_iff)

lemma not_isSet_init [simp]: "\<not> isSet IpAddress_init"
  by (simp add: isSet_def IpAddress_init_def list_ex_iff)

section \<open>The resolution memo\<close>

text \<open>Resolution runs at most once per event: after the first \<open>ensurePeerResolved\<close> every later one
  returns the same answer and leaves the event unchanged, whatever the resolver would say then.\<close>

lemma ensurePeerResolved_once:
  assumes "\<And>m. em_peer_attempted (snd (resolve m)) = em_peer_attempted m"
  shows "ensurePeerResolved resolve' (snd (ensurePeerResolved resolve m)) = ensurePeerResolved resolve m"
  using assms [of "m\<lparr>em_peer_attempted := True\<rparr>"]
  by (auto simp: ensurePeerResolved_def Let_def split: prod.splits)

lemma ensurePeerResolved_no_resolver:
  "\<not> em_peer_resolver m \<Longrightarrow> \<not> em_peer_attempted m \<Longrightarrow>
   ensurePeerResolved resolve m = (em_peer_ok m, m\<lparr>em_peer_attempted := True\<rparr>)"
  by (simp add: ensurePeerResolved_def Let_def)

end
