(* ===== verification/Detections.thy ===== *)
theory Detections
  imports Event_Meta
begin

unbundle bit_operations_syntax

text \<open>
  The detections: one rule per directory of \<open>detections/\<close>, its event struct, and the
  \<open>inspect\<close> that parses a raw record and applies the rule.  An \<open>inspect\<close> takes the record's bytes
  and the \<open>EventMeta\<close> it fills and returns the verdict, if any, with the filled meta; a record
  shorter than the struct yields no verdict and leaves the meta alone.  The C++ templates over
  the raw layout become functions of \<open>raw_traits\<close>: the members a layout has
  (\<open>detection_traits.hpp\<close>) and what \<open>if constexpr\<close> selects from them.  \<open>readlink\<close> is the kernel's.
\<close>

type_synonym inspect = "u8 list \<Rightarrow> event_meta \<Rightarrow> verdict option \<times> event_meta"

section \<open>Raw layouts\<close>

record 'r raw_traits =
  rt_decode :: "u8 list \<Rightarrow> 'r option"
  rt_fill :: "'r \<Rightarrow> event_meta \<Rightarrow> event_meta"
  rt_tls_version :: "('r \<Rightarrow> u16) option"
  rt_is_violation :: "('r \<Rightarrow> u16) option"
  rt_payload_snippet :: "'r \<Rightarrow> string"

text \<open>\<open>fillEnvelope\<close>, then the connection where the layout has one.\<close>

definition xdp_fill :: "xdp_event \<Rightarrow> event_meta \<Rightarrow> event_meta" where
  "xdp_fill raw m = fillConnection (xdp_conn raw) (fillEnvelope (xdp_hdr raw) m)"

definition uprobe_fill :: "bool \<Rightarrow> uprobe_event \<Rightarrow> event_meta \<Rightarrow> event_meta" where
  "uprobe_fill resolver raw m =
     fillResolvedConnection (up_resolved_conn raw) resolver (fillEnvelope (up_hdr raw) m)"

definition lsm_fill :: "bool \<Rightarrow> lsm_cert_guard_event \<Rightarrow> event_meta \<Rightarrow> event_meta" where
  "lsm_fill resolver raw m = (fillEnvelope (lsm_hdr raw) m)\<lparr>em_peer_resolver := resolver\<rparr>"

definition xdp_traits :: "xdp_event raw_traits" where
  "xdp_traits = \<lparr>rt_decode = decode_xdp_event, rt_fill = xdp_fill, rt_tls_version = Some (xt_version \<circ> xdp_tls),
     rt_is_violation = Some (xt_is_violation \<circ> xdp_tls), rt_payload_snippet = xt_payload_snippet \<circ> xdp_tls\<rparr>"

definition uprobe_traits :: "bool \<Rightarrow> uprobe_event raw_traits" where
  "uprobe_traits resolver = \<lparr>rt_decode = decode_uprobe_event, rt_fill = uprobe_fill resolver,
     rt_tls_version = Some (ut_version \<circ> up_tls), rt_is_violation = None,
     rt_payload_snippet = ut_payload_snippet \<circ> up_tls\<rparr>"

definition lsm_traits :: "lsm_cert_guard_event raw_traits" where
  "lsm_traits = \<lparr>rt_decode = decode_lsm_event, rt_fill = lsm_fill False, rt_tls_version = None,
     rt_is_violation = None, rt_payload_snippet = (\<lambda>_. [])\<rparr>"

section \<open>TLS version\<close>

record tls_version_event =
  tv_meta :: event_meta
  tv_tls_version :: u16
  tv_violation_hint :: bool

definition TlsVersionEvent :: "'r raw_traits \<Rightarrow> event_meta \<Rightarrow> 'r \<Rightarrow> tls_version_event" where
  "TlsVersionEvent rt m raw =
     \<lparr>tv_meta = m,
      tv_tls_version = (case rt_tls_version rt of Some f \<Rightarrow> f raw | None \<Rightarrow> 0),
      tv_violation_hint = (case rt_is_violation rt of Some f \<Rightarrow> f raw \<noteq> 0 | None \<Rightarrow> False)\<rparr>"

definition TlsVersionDetector_evaluate :: "tls_version_event \<Rightarrow> verdict option" where
  "TlsVersionDetector_evaluate evt =
     (let violation = tv_violation_hint evt \<or> (0 < tv_tls_version evt \<and> tv_tls_version evt < 0x0303)
      in if \<not> violation then None
      else Some \<lparr>severity = ''Critical'',
        message_id = ''OemSecurityEvent.1.0.HttpsTlsVersionViolation'',
        message = ''Security violation: Process '' @ [CHR 0x27] @ em_process (tv_meta evt) @ [CHR 0x27] @
          '' (PID '' @ to_string (unat (em_pid (tv_meta evt))) @
          '') attempted an HTTPS connection using an insecure TLS version ('' @
          TlsVersion_toString (tv_tls_version evt) @ ''). Packet was blocked.'',
        actionable = True\<rparr>)"

definition TlsVersionDetection_inspect :: "'r raw_traits \<Rightarrow> inspect" where
  "TlsVersionDetection_inspect rt data m =
     (case rt_decode rt data of
        None \<Rightarrow> (None, m)
      | Some raw \<Rightarrow> let m = rt_fill rt raw m in (TlsVersionDetector_evaluate (TlsVersionEvent rt m raw), m))"

section \<open>Payload anomaly\<close>

record payload_event =
  pl_meta :: event_meta
  pl_payload_snippet :: string

definition PayloadEvent :: "'r raw_traits \<Rightarrow> event_meta \<Rightarrow> 'r \<Rightarrow> payload_event" where
  "PayloadEvent rt m raw = \<lparr>pl_meta = m, pl_payload_snippet = boundedString (rt_payload_snippet rt raw)\<rparr>"

definition kRules :: "string list" where
  "kRules = [''../..'', ''union select'', ''or 1=1'', ''drop table'', ''/etc/passwd'', ''%2e%2e%2f'',
     ''cmd.exe'', ''wget http'']"

definition PayloadAnomalyDetector_evaluate :: "payload_event \<Rightarrow> verdict option" where
  "PayloadAnomalyDetector_evaluate evt =
     (if pl_payload_snippet evt = [] then None
      else let lowered = toLower (pl_payload_snippet evt) in
        case find (\<lambda>rule. str_find rule lowered) kRules of
          None \<Rightarrow> None
        | Some rule \<Rightarrow>
            Some \<lparr>severity = ''Warning'',
              message_id = ''OemSecurityEvent.1.0.HttpsPayloadAnomalyDetected'',
              message = ''Attack signature detected from process '' @ [CHR 0x27] @ em_process (pl_meta evt) @ [CHR 0x27] @
                '' (PID '' @ to_string (unat (em_pid (pl_meta evt))) @ ''), rule '' @ [CHR 0x27] @ rule @ [CHR 0x27] @
                ''. Source should be quarantined.'',
              actionable = True\<rparr>)"

definition PayloadAnomalyDetection_inspect :: "'r raw_traits \<Rightarrow> inspect" where
  "PayloadAnomalyDetection_inspect rt data m =
     (case rt_decode rt data of
        None \<Rightarrow> (None, m)
      | Some raw \<Rightarrow> let m = rt_fill rt raw m in (PayloadAnomalyDetector_evaluate (PayloadEvent rt m raw), m))"

section \<open>Weak cipher suites\<close>

record weak_cipher_suite =
  ws_code :: u16
  ws_name :: string
  ws_reason :: string

definition kWeakCipherSuites :: "weak_cipher_suite list" where
  "kWeakCipherSuites = map (\<lambda>(c, n, r). \<lparr>ws_code = c, ws_name = n, ws_reason = r\<rparr>)
    [(0x0001, ''TLS_RSA_WITH_NULL_MD5'', ''no encryption''),
     (0x0002, ''TLS_RSA_WITH_NULL_SHA'', ''no encryption''),
     (0x003B, ''TLS_RSA_WITH_NULL_SHA256'', ''no encryption''),
     (0x0003, ''TLS_RSA_EXPORT_WITH_RC4_40_MD5'', ''export-grade key size''),
     (0x0006, ''TLS_RSA_EXPORT_WITH_RC2_CBC_40_MD5'', ''export-grade key size''),
     (0x0008, ''TLS_RSA_EXPORT_WITH_DES40_CBC_SHA'', ''export-grade key size''),
     (0x0011, ''TLS_DHE_DSS_EXPORT_WITH_DES40_CBC_SHA'', ''export-grade key size''),
     (0x0014, ''TLS_DHE_RSA_EXPORT_WITH_DES40_CBC_SHA'', ''export-grade key size''),
     (0x0004, ''TLS_RSA_WITH_RC4_128_MD5'', ''RC4 stream cipher''),
     (0x0005, ''TLS_RSA_WITH_RC4_128_SHA'', ''RC4 stream cipher''),
     (0xC007, ''TLS_ECDHE_ECDSA_WITH_RC4_128_SHA'', ''RC4 stream cipher''),
     (0xC011, ''TLS_ECDHE_RSA_WITH_RC4_128_SHA'', ''RC4 stream cipher''),
     (0x0009, ''TLS_RSA_WITH_DES_CBC_SHA'', ''56-bit DES''),
     (0x000A, ''TLS_RSA_WITH_3DES_EDE_CBC_SHA'', ''3DES / Sweet32''),
     (0x0013, ''TLS_DHE_DSS_WITH_3DES_EDE_CBC_SHA'', ''3DES / Sweet32''),
     (0x0016, ''TLS_DHE_RSA_WITH_3DES_EDE_CBC_SHA'', ''3DES / Sweet32''),
     (0xC008, ''TLS_ECDHE_ECDSA_WITH_3DES_EDE_CBC_SHA'', ''3DES / Sweet32''),
     (0xC012, ''TLS_ECDHE_RSA_WITH_3DES_EDE_CBC_SHA'', ''3DES / Sweet32''),
     (0x0017, ''TLS_DH_anon_EXPORT_WITH_RC4_40_MD5'', ''anonymous key exchange''),
     (0x0018, ''TLS_DH_anon_WITH_RC4_128_MD5'', ''anonymous key exchange''),
     (0x001B, ''TLS_DH_anon_WITH_3DES_EDE_CBC_SHA'', ''anonymous key exchange''),
     (0xC016, ''TLS_ECDH_anon_WITH_RC4_128_SHA'', ''anonymous key exchange'')]"

definition findWeakCipherSuite :: "u16 \<Rightarrow> weak_cipher_suite option" where
  "findWeakCipherSuite code = find (\<lambda>entry. ws_code entry = code) kWeakCipherSuites"

record cipher_suite_event =
  cs_meta :: event_meta
  cs_cipher_suites :: "u16 list"
  cs_offered :: u16

definition CipherSuiteEvent :: "event_meta \<Rightarrow> xdp_event \<Rightarrow> cipher_suite_event" where
  "CipherSuiteEvent m raw =
     (let ch = xdp_client_hello raw;
          captured = (if unat (cipher_suite_count ch) < HG_MAX_CIPHER_SUITES
                      then unat (cipher_suite_count ch) else HG_MAX_CIPHER_SUITES)
      in \<lparr>cs_meta = m, cs_cipher_suites = take captured (cipher_suites ch),
          cs_offered = cipher_suites_offered ch\<rparr>)"

definition describeSource :: "event_meta \<Rightarrow> string" where
  "describeSource m = (if em_source_ip m = [] then ''an unidentified peer'' else em_source_ip m)"

definition kDigits :: string where "kDigits = ''0123456789abcdef''"

text \<open>\<open>toHex\<close>: the loop from \<open>i = 3\<close> down to 0, on what is left of the value.\<close>

fun toHex_loop :: "nat \<Rightarrow> u16 \<Rightarrow> string \<Rightarrow> string" where
  "toHex_loop 0 value out = out"
| "toHex_loop (Suc i) value out =
     toHex_loop i (drop_bit 4 value) (out[i := kDigits ! unat (value AND 0xF)])"

definition toHex :: "u16 \<Rightarrow> string" where
  "toHex value = toHex_loop 4 value (replicate 4 CHR ''0'')"

text \<open>The message's em dash, as its UTF-8 bytes.\<close>

definition em_dash :: string where "em_dash = [CHR 0xE2, CHR 0x80, CHR 0x94]"

fun CipherSuiteDetector_scan :: "cipher_suite_event \<Rightarrow> u16 list \<Rightarrow> verdict option" where
  "CipherSuiteDetector_scan evt [] = None"
| "CipherSuiteDetector_scan evt (code # codes) =
     (case findWeakCipherSuite code of
        None \<Rightarrow> CipherSuiteDetector_scan evt codes
      | Some weak \<Rightarrow>
          Some \<lparr>severity = ''Warning'',
            message_id = ''OemSecurityEvent.1.0.HttpsWeakCipherSuiteDetected'',
            message = ''Weak cipher suite offered from '' @ describeSource (cs_meta evt) @ '': '' @ ws_name weak @
              '' (0x'' @ toHex code @ '') '' @ em_dash @ '' '' @ ws_reason weak @ ''. Client offered '' @
              to_string (unat (cs_offered evt)) @ '' suite(s) total.'',
            actionable = False\<rparr>)"

definition CipherSuiteDetector_evaluate :: "cipher_suite_event \<Rightarrow> verdict option" where
  "CipherSuiteDetector_evaluate evt = CipherSuiteDetector_scan evt (cs_cipher_suites evt)"

definition CipherSuiteDetection_inspect :: inspect where
  "CipherSuiteDetection_inspect data m =
     (case decode_xdp_event data of
        None \<Rightarrow> (None, m)
      | Some raw \<Rightarrow> let m = xdp_fill raw m in (CipherSuiteDetector_evaluate (CipherSuiteEvent m raw), m))"

section \<open>SNI\<close>

record sni_event =
  sn_meta :: event_meta
  sn_present :: bool
  sn_malformed :: bool
  sn_hostname :: string

definition SniEvent :: "event_meta \<Rightarrow> xdp_event \<Rightarrow> sni_event" where
  "SniEvent m raw =
     (let ch = xdp_client_hello raw
      in \<lparr>sn_meta = m, sn_present = (sni_present ch \<noteq> 0), sn_malformed = (sni_malformed ch \<noteq> 0),
          sn_hostname = boundedString (sni_hostname ch)\<rparr>)"

definition SniDetector_makeVerdict :: "event_meta \<Rightarrow> string \<Rightarrow> verdict" where
  "SniDetector_makeVerdict m detail =
     \<lparr>severity = ''Warning'', message_id = ''OemSecurityEvent.1.0.HttpsSniAnomalyDetected'',
      message = ''SNI anomaly from '' @ (if em_source_ip m = [] then ''an unidentified peer'' else em_source_ip m) @
        '': '' @ detail @ ''.'',
      actionable = False\<rparr>"

text \<open>\<open>expected_hostname\<close> is the constructor's argument, lower-cased there.\<close>

definition SniDetector_evaluate :: "string \<Rightarrow> sni_event \<Rightarrow> verdict option" where
  "SniDetector_evaluate expected_hostname evt =
     (let expected_hostname = toLower expected_hostname in
      if sn_malformed evt
      then Some (SniDetector_makeVerdict (sn_meta evt)
             (''malformed or over-long SNI/ClientHello structure '' @ em_dash @ '' no standard client produces this''))
      else if \<not> sn_present evt \<or> expected_hostname = [] then None
      else if toLower (sn_hostname evt) = expected_hostname then None
      else Some (SniDetector_makeVerdict (sn_meta evt)
             (''SNI hostname '' @ [CHR 0x27] @ sn_hostname evt @ [CHR 0x27] @ '' does not match the expected '' @
              [CHR 0x27] @ expected_hostname @ [CHR 0x27])))"

definition SniDetection_inspect :: "string \<Rightarrow> inspect" where
  "SniDetection_inspect expected_hostname data m =
     (case decode_xdp_event data of
        None \<Rightarrow> (None, m)
      | Some raw \<Rightarrow> let m = xdp_fill raw m in (SniDetector_evaluate expected_hostname (SniEvent m raw), m))"

section \<open>Certificate access\<close>

text \<open>\<open>readlink path n\<close>: the link's target cut at \<open>n\<close> bytes, \<open>None\<close> on error.\<close>

type_synonym readlink = "string \<Rightarrow> nat \<Rightarrow> string option"

definition resolveRealExePath :: "readlink \<Rightarrow> u32 \<Rightarrow> string" where
  "resolveRealExePath readlink pid =
     (case readlink (''/proc/'' @ to_string (unat pid) @ ''/exe'') (256 - 1) of
        None \<Rightarrow> []
      | Some target \<Rightarrow> target)"

record cert_access_event =
  ce_meta :: event_meta
  ce_identity_mismatch :: bool
  ce_real_exe_path :: string
  ce_shadow_mode :: bool
  ce_cgroup_id :: u64

definition CertAccessEvent :: "event_meta \<Rightarrow> lsm_cert_guard_event \<Rightarrow> string \<Rightarrow> bool \<Rightarrow> cert_access_event" where
  "CertAccessEvent m raw real_exe_path identity_mismatch =
     \<lparr>ce_meta = m, ce_identity_mismatch = identity_mismatch, ce_real_exe_path = real_exe_path,
      ce_shadow_mode = (ca_shadow_mode (lsm_cert raw) \<noteq> 0), ce_cgroup_id = ca_cgroup_id (lsm_cert raw)\<rparr>"

definition CertAccessDetector_evaluate :: "cert_access_event \<Rightarrow> verdict option" where
  "CertAccessDetector_evaluate evt =
     (if \<not> ce_identity_mismatch evt then None
      else Some \<lparr>severity = ''Critical'',
        message_id = ''OemSecurityEvent.1.0.HttpsCertificateAccessViolation'',
        message = ''Security violation: process '' @ [CHR 0x27] @ em_process (ce_meta evt) @ [CHR 0x27] @ '' (PID '' @
          to_string (unat (em_pid (ce_meta evt))) @ '', real executable '' @ [CHR 0x27] @ ce_real_exe_path evt @
          [CHR 0x27] @ '', cgroup '' @ to_string (unat (ce_cgroup_id evt)) @
          '') accessed the BMC'' @ [CHR 0x27] @ ''s HTTPS certificate/key file; expected only bmcweb or '' @
          ''phosphor-certificate-manager to do so.'' @
          (if ce_shadow_mode evt then '' Shadow mode: access was observed but not blocked.''
           else '' Access was denied.''),
        actionable = False\<rparr>)"

definition CertAccessDetection_inspect :: "readlink \<Rightarrow> string list \<Rightarrow> inspect" where
  "CertAccessDetection_inspect readlink allowed_exes data m =
     (case decode_lsm_event data of
        None \<Rightarrow> (None, m)
      | Some raw \<Rightarrow>
          let m = fillEnvelope (lsm_hdr raw) m;
              real_exe_path = resolveRealExePath readlink (hdr_pid (lsm_hdr raw));
              identity_mismatch = \<not> List.member allowed_exes real_exe_path
          in (CertAccessDetector_evaluate (CertAccessEvent m raw real_exe_path identity_mismatch), m))"

section \<open>Traffic observed\<close>

definition TrafficObservedDetection_inspect :: "'r raw_traits \<Rightarrow> inspect" where
  "TrafficObservedDetection_inspect rt data m =
     (case rt_decode rt data of
        None \<Rightarrow> (None, m)
      | Some raw \<Rightarrow>
          let m = rt_fill rt raw m;
              tls_desc = (case rt_tls_version rt of Some f \<Rightarrow> TlsVersion_toString (f raw) | None \<Rightarrow> ''n/a'')
          in (Some \<lparr>severity = ''OK'', message_id = ''OemSecurityEvent.1.0.HttpsTrafficObserved'',
                message = ''HTTPS traffic observed from process '' @ [CHR 0x27] @ em_process m @ [CHR 0x27] @ '' (PID '' @
                  to_string (unat (em_pid m)) @ ''), TLS version: '' @ tls_desc,
                actionable = False\<rparr>, m))"

section \<open>Rate rules\<close>

record conn_rate_event =
  cre_meta :: event_meta
  cre_attempts_in_window :: u32
  cre_window_seconds :: u32
  cre_threshold :: u32

definition ConnRateDetector_evaluate :: "conn_rate_event \<Rightarrow> verdict option" where
  "ConnRateDetector_evaluate evt =
     (if cre_threshold evt = 0 \<or> cre_attempts_in_window evt < cre_threshold evt then None
      else Some \<lparr>severity = ''Warning'', message_id = ''OemSecurityEvent.1.0.HttpsConnectionRateViolation'',
        message = ''Connection-rate violation from '' @ describeSource (cre_meta evt) @ '': '' @
          to_string (unat (cre_attempts_in_window evt)) @ '' connection attempts in '' @
          to_string (unat (cre_window_seconds evt)) @ ''s exceeds the configured threshold of '' @
          to_string (unat (cre_threshold evt)) @ ''. Source should be quarantined.'',
        actionable = True\<rparr>)"

record renegotiation_event =
  rne_meta :: event_meta
  rne_handshakes_in_window :: u32
  rne_window_seconds :: u32
  rne_threshold :: u32

definition RenegotiationDetector_evaluate :: "renegotiation_event \<Rightarrow> verdict option" where
  "RenegotiationDetector_evaluate evt =
     (if rne_threshold evt = 0 \<or> rne_handshakes_in_window evt < rne_threshold evt then None
      else Some \<lparr>severity = ''Warning'', message_id = ''OemSecurityEvent.1.0.HttpsTlsRenegotiationStorm'',
        message = ''TLS renegotiation storm from '' @ describeSource (rne_meta evt) @ '': '' @
          to_string (unat (rne_handshakes_in_window evt)) @ '' handshake records in '' @
          to_string (unat (rne_window_seconds evt)) @ ''s exceeds the configured limit of '' @
          to_string (unat (rne_threshold evt)) @ ''. Source should be quarantined.'',
        actionable = True\<rparr>)"

record slowloris_event =
  sle_meta :: event_meta
  sle_open_connections :: u32
  sle_threshold :: u32

definition SlowlorisDetector_evaluate :: "slowloris_event \<Rightarrow> verdict option" where
  "SlowlorisDetector_evaluate evt =
     (if sle_threshold evt = 0 \<or> sle_open_connections evt < sle_threshold evt then None
      else Some \<lparr>severity = ''Warning'', message_id = ''OemSecurityEvent.1.0.HttpsSlowlorisDetected'',
        message = ''Possible Slowloris from '' @ describeSource (sle_meta evt) @ '': '' @
          to_string (unat (sle_open_connections evt)) @
          '' connections held open exceeds the configured limit of '' @
          to_string (unat (sle_threshold evt)) @ ''. Source should be quarantined.'',
        actionable = True\<rparr>)"

section \<open>The hooks' lists\<close>

text \<open>Each hook's \<open>detections_\<close>, in priority order.\<close>

definition xdp_detections :: "string \<Rightarrow> (string \<times> inspect) list" where
  "xdp_detections expected_sni =
     [(''tls_version'', TlsVersionDetection_inspect xdp_traits),
      (''payload_anomaly'', PayloadAnomalyDetection_inspect xdp_traits),
      (''cipher_suite'', CipherSuiteDetection_inspect),
      (''sni'', SniDetection_inspect expected_sni),
      (''traffic_observed'', TrafficObservedDetection_inspect xdp_traits)]"

definition uprobe_detections :: "(string \<times> inspect) list" where
  "uprobe_detections =
     [(''tls_version'', TlsVersionDetection_inspect (uprobe_traits True)),
      (''payload_anomaly'', PayloadAnomalyDetection_inspect (uprobe_traits True)),
      (''traffic_observed'', TrafficObservedDetection_inspect (uprobe_traits True))]"

definition lsm_detections :: "readlink \<Rightarrow> string list \<Rightarrow> (string \<times> inspect) list" where
  "lsm_detections readlink allowed_exes =
     [(''cert_access'', CertAccessDetection_inspect readlink allowed_exes),
      (''traffic_observed'', TrafficObservedDetection_inspect lsm_traits)]"

section \<open>The first verdict\<close>

text \<open>\<open>DetectLoop::process\<close>: every detection inspects the record into a meta of its own, and the
  verdict with the lowest index wins.\<close>

fun first_verdict :: "(string \<times> inspect) list \<Rightarrow> u8 list \<Rightarrow> (string \<times> verdict \<times> event_meta) option" where
  "first_verdict [] data = None"
| "first_verdict ((n, f) # ds) data =
     (case f data EventMeta_init of (Some v, m) \<Rightarrow> Some (n, v, m) | (None, m) \<Rightarrow> first_verdict ds data)"

lemma first_verdict_index:
  "first_verdict ds data = Some (n, v, m) \<Longrightarrow>
   \<exists>i < length ds. fst (ds ! i) = n \<and> snd (ds ! i) data EventMeta_init = (Some v, m) \<and>
     (\<forall>j < i. fst (snd (ds ! j) data EventMeta_init) = None)"
proof (induction ds)
  case (Cons d ds)
  obtain k f where d: "d = (k, f)" by (cases d)
  show ?case
  proof (cases "f data EventMeta_init")
    case (Pair r m')
    show ?thesis
    proof (cases r)
      case None
      then obtain i where "i < length ds" "fst (ds ! i) = n" "snd (ds ! i) data EventMeta_init = (Some v, m)"
        "\<forall>j < i. fst (snd (ds ! j) data EventMeta_init) = None"
        using Cons Pair d by auto
      then show ?thesis using Pair None d
        by (intro exI [of _ "Suc i"]) (auto simp: less_Suc_eq_0_disj)
    next
      case (Some v')
      then show ?thesis using Cons.prems Pair d by (intro exI [of _ 0]) auto
    qed
  qed
qed simp

lemma decode_xdp_Some: "sizeof_xdp_event \<le> length data \<Longrightarrow> \<exists>raw. decode_xdp_event data = Some raw"
  by (auto simp: decode_xdp_event_def Let_def)

text \<open>The conditions under which each rule fires, on a decoded record.\<close>

definition tls_violation :: "xdp_event \<Rightarrow> bool" where
  "tls_violation raw \<longleftrightarrow> xt_is_violation (xdp_tls raw) \<noteq> 0 \<or>
     (0 < xt_version (xdp_tls raw) \<and> xt_version (xdp_tls raw) < 0x0303)"

definition attack_signature :: "string \<Rightarrow> bool" where
  "attack_signature snippet \<longleftrightarrow>
     snippet \<noteq> [] \<and> (\<exists>rule \<in> set kRules. sublist rule (toLower snippet))"

definition uprobe_tls_violation :: "uprobe_event \<Rightarrow> bool" where
  "uprobe_tls_violation raw \<longleftrightarrow> 0 < ut_version (up_tls raw) \<and> ut_version (up_tls raw) < 0x0303"

definition weak_suites :: "u16 set" where
  "weak_suites = ws_code ` set kWeakCipherSuites"

lemma TlsVersion_xdp_fires:
  "TlsVersionDetector_evaluate (TlsVersionEvent xdp_traits m raw) \<noteq> None \<longleftrightarrow> tls_violation raw"
  by (simp add: TlsVersionDetector_evaluate_def TlsVersionEvent_def xdp_traits_def tls_violation_def Let_def)

lemma TlsVersion_uprobe_fires:
  "TlsVersionDetector_evaluate (TlsVersionEvent (uprobe_traits r) m raw) \<noteq> None \<longleftrightarrow> uprobe_tls_violation raw"
  by (simp add: TlsVersionDetector_evaluate_def TlsVersionEvent_def uprobe_traits_def uprobe_tls_violation_def Let_def)

lemma Payload_fires:
  "PayloadAnomalyDetector_evaluate evt \<noteq> None \<longleftrightarrow> attack_signature (pl_payload_snippet evt)"
proof -
  let ?P = "\<lambda>rule. str_find rule (toLower (pl_payload_snippet evt))"
  have "find ?P kRules = None \<longleftrightarrow> (\<forall>rule \<in> set kRules. \<not> ?P rule)" by (auto simp: find_None_iff)
  then show ?thesis
    by (auto simp: PayloadAnomalyDetector_evaluate_def attack_signature_def str_find_sublist Let_def split: option.splits)
qed

lemma findWeak_iff: "findWeakCipherSuite code \<noteq> None \<longleftrightarrow> code \<in> weak_suites"
  by (auto simp: findWeakCipherSuite_def weak_suites_def find_None_iff)

lemma Cipher_fires: "CipherSuiteDetector_scan evt codes \<noteq> None \<longleftrightarrow> (\<exists>c \<in> set codes. c \<in> weak_suites)"
proof (induction codes)
  case (Cons c codes)
  then show ?case using findWeak_iff [of c] by (cases "findWeakCipherSuite c") auto
qed simp

lemma Cipher_not_actionable: "CipherSuiteDetector_scan evt codes = Some v \<Longrightarrow> \<not> actionable v"
  by (induction codes) (auto split: option.splits)

lemma Sni_not_actionable: "SniDetector_evaluate h evt = Some v \<Longrightarrow> \<not> actionable v"
  by (auto simp: SniDetector_evaluate_def SniDetector_makeVerdict_def Let_def split: if_splits)

lemma TlsVersion_actionable: "TlsVersionDetector_evaluate evt = Some v \<Longrightarrow> actionable v"
  by (auto simp: TlsVersionDetector_evaluate_def Let_def split: if_splits)

lemma Payload_actionable: "PayloadAnomalyDetector_evaluate evt = Some v \<Longrightarrow> actionable v"
  by (auto simp: PayloadAnomalyDetector_evaluate_def Let_def split: if_splits option.splits)

lemmas verdict_actionable =
  TlsVersion_actionable Payload_actionable Cipher_not_actionable Sni_not_actionable

text \<open>The XDP list on a decoded record, one rule after the other.\<close>

lemma xdp_first_verdict:
  assumes "decode_xdp_event data = Some raw"
  shows "\<exists>n v. first_verdict (xdp_detections sni) data = Some (n, v, xdp_fill raw EventMeta_init) \<and>
     n = (if tls_violation raw then ''tls_version''
          else if attack_signature (boundedString (xt_payload_snippet (xdp_tls raw))) then ''payload_anomaly''
          else if \<exists>c \<in> set (cs_cipher_suites (CipherSuiteEvent (xdp_fill raw EventMeta_init) raw)). c \<in> weak_suites
          then ''cipher_suite''
          else if SniDetector_evaluate sni (SniEvent (xdp_fill raw EventMeta_init) raw) \<noteq> None then ''sni''
          else ''traffic_observed'') \<and>
     (actionable v \<longleftrightarrow> tls_violation raw \<or> attack_signature (boundedString (xt_payload_snippet (xdp_tls raw))))"
proof -
  let ?m = "xdp_fill raw EventMeta_init"
  let ?t = "TlsVersionDetector_evaluate (TlsVersionEvent xdp_traits ?m raw)"
  let ?p = "PayloadAnomalyDetector_evaluate (PayloadEvent xdp_traits ?m raw)"
  let ?c = "CipherSuiteDetector_evaluate (CipherSuiteEvent ?m raw)"
  let ?s = "SniDetector_evaluate sni (SniEvent ?m raw)"
  have t: "?t \<noteq> None \<longleftrightarrow> tls_violation raw" by (rule TlsVersion_xdp_fires)
  have p: "?p \<noteq> None \<longleftrightarrow> attack_signature (boundedString (xt_payload_snippet (xdp_tls raw)))"
    by (simp only: Payload_fires) (simp add: PayloadEvent_def xdp_traits_def)
  have c: "?c \<noteq> None \<longleftrightarrow> (\<exists>c \<in> set (cs_cipher_suites (CipherSuiteEvent ?m raw)). c \<in> weak_suites)"
    by (simp only: CipherSuiteDetector_evaluate_def Cipher_fires)
  have na: "?c = Some v \<Longrightarrow> \<not> actionable v" for v
    by (simp only: CipherSuiteDetector_evaluate_def Cipher_not_actionable not_False_eq_True)
  have tr: "rt_decode xdp_traits = decode_xdp_event" "rt_fill xdp_traits = xdp_fill" by (simp_all add: xdp_traits_def)
  show ?thesis
    unfolding t [symmetric] p [symmetric] c [symmetric]
    using TlsVersion_actionable [of "TlsVersionEvent xdp_traits ?m raw"]
      Payload_actionable [of "PayloadEvent xdp_traits ?m raw"] na Sni_not_actionable [of sni "SniEvent ?m raw"]
    by (cases ?t; cases ?p; cases ?c; cases ?s)
       (simp_all add: xdp_detections_def TlsVersionDetection_inspect_def PayloadAnomalyDetection_inspect_def
         CipherSuiteDetection_inspect_def SniDetection_inspect_def TrafficObservedDetection_inspect_def
         assms tr Let_def)
qed

text \<open>The lists of the other two hooks.\<close>

lemma uprobe_first_verdict:
  assumes "decode_uprobe_event data = Some raw"
  shows "\<exists>n v. first_verdict uprobe_detections data = Some (n, v, uprobe_fill True raw EventMeta_init) \<and>
     n = (if uprobe_tls_violation raw then ''tls_version''
          else if attack_signature (boundedString (ut_payload_snippet (up_tls raw))) then ''payload_anomaly''
          else ''traffic_observed'') \<and>
     (actionable v \<longleftrightarrow> uprobe_tls_violation raw \<or> attack_signature (boundedString (ut_payload_snippet (up_tls raw))))"
proof -
  let ?rt = "uprobe_traits True"
  let ?m = "uprobe_fill True raw EventMeta_init"
  let ?t = "TlsVersionDetector_evaluate (TlsVersionEvent ?rt ?m raw)"
  let ?p = "PayloadAnomalyDetector_evaluate (PayloadEvent ?rt ?m raw)"
  have t: "?t \<noteq> None \<longleftrightarrow> uprobe_tls_violation raw" by (rule TlsVersion_uprobe_fires)
  have p: "?p \<noteq> None \<longleftrightarrow> attack_signature (boundedString (ut_payload_snippet (up_tls raw)))"
    by (simp only: Payload_fires) (simp add: PayloadEvent_def uprobe_traits_def)
  have tr: "rt_decode ?rt = decode_uprobe_event" "rt_fill ?rt = uprobe_fill True" by (simp_all add: uprobe_traits_def)
  show ?thesis
    unfolding t [symmetric] p [symmetric]
    using TlsVersion_actionable [of "TlsVersionEvent ?rt ?m raw"] Payload_actionable [of "PayloadEvent ?rt ?m raw"]
    by (cases ?t; cases ?p)
       (simp_all add: uprobe_detections_def TlsVersionDetection_inspect_def PayloadAnomalyDetection_inspect_def
         TrafficObservedDetection_inspect_def assms tr Let_def)
qed

definition exe_allowed :: "readlink \<Rightarrow> string list \<Rightarrow> lsm_cert_guard_event \<Rightarrow> bool" where
  "exe_allowed rl allowed raw \<longleftrightarrow> resolveRealExePath rl (hdr_pid (lsm_hdr raw)) \<in> set allowed"

lemma lsm_first_verdict:
  assumes "decode_lsm_event data = Some raw"
  shows "\<exists>v m. first_verdict (lsm_detections rl allowed) data =
       Some (if exe_allowed rl allowed raw then ''traffic_observed'' else ''cert_access'', v, m) \<and> \<not> actionable v"
  by (simp add: lsm_detections_def CertAccessDetection_inspect_def CertAccessDetector_evaluate_def CertAccessEvent_def
      TrafficObservedDetection_inspect_def lsm_traits_def exe_allowed_def assms Let_def)

text \<open>What the detections see of an encoded ClientHello.\<close>

lemma hello_suites:
  assumes "wf_hello h" "xdp_client_hello raw = parse_client_hello_detail zero_client_hello (encode_hello h)"
  shows "cs_cipher_suites (CipherSuiteEvent m raw) = take 32 (h_suites h)"
proof -
  have "unat (word_of_nat (min 32 (length (h_suites h))) :: u16) = min 32 (length (h_suites h))"
    by (rule unat_of_nat_u16) simp
  then show ?thesis using assms
    by (auto simp: parse_hello CipherSuiteEvent_def hello_detail_def with_name_def min_def Let_def split: option.split)
qed

lemma boundedString_padded: "boundedString (s @ replicate n NUL) = boundedString s"
  by (induction s) (auto simp: boundedString_def takeWhile_replicate)

lemma hello_sni:
  assumes "wf_hello h" "xdp_client_hello raw = parse_client_hello_detail zero_client_hello (encode_hello h)"
  shows "sn_present (SniEvent m raw) \<longleftrightarrow> first_name (take 16 (h_exts h)) \<noteq> None"
    "sn_malformed (SniEvent m raw) \<longleftrightarrow> (\<exists>name. first_name (take 16 (h_exts h)) = Some name \<and> 63 < length name)"
    "first_name (take 16 (h_exts h)) = Some name \<Longrightarrow>
       sn_hostname (SniEvent m raw) = boundedString (map chr8 (take 63 name))"
proof -
  have ch: "xdp_client_hello raw = hello_detail h" using assms by (simp add: parse_hello)
  show "sn_present (SniEvent m raw) \<longleftrightarrow> first_name (take 16 (h_exts h)) \<noteq> None"
    "sn_malformed (SniEvent m raw) \<longleftrightarrow> (\<exists>name. first_name (take 16 (h_exts h)) = Some name \<and> 63 < length name)"
    "first_name (take 16 (h_exts h)) = Some name \<Longrightarrow>
       sn_hostname (SniEvent m raw) = boundedString (map chr8 (take 63 name))"
    by (auto simp: SniEvent_def ch hello_detail_def with_name_def zero_client_hello_def boundedString_padded
      Let_def split: option.split)
qed

section \<open>Properties\<close>

text \<open>C25: how records are classified.  Every record of its struct's full size gets exactly one
  verdict.  A packet's record gets it from the first of tls_version, payload_anomaly, cipher_suite, sni whose rule
  fires and else from traffic_observed; an SSL call's record from the first of tls_version, payload_anomaly,
  and else from traffic_observed; a certificate open's from cert_access iff the executable is not allowed.  A verdict is
  enforceable iff the TLS version is a violation or the plaintext carries an attack signature, so
  a weak suite, an odd server name or an open of the certificate alone never enforces.\<close>

theorem record_classification:
  "(decode_xdp_event data = Some x \<longrightarrow>
     (\<exists>n v. first_verdict (xdp_detections sni) data = Some (n, v, xdp_fill x EventMeta_init) \<and>
       n = (if tls_violation x then ''tls_version''
            else if attack_signature (boundedString (xt_payload_snippet (xdp_tls x))) then ''payload_anomaly''
            else if \<exists>c \<in> set (cs_cipher_suites (CipherSuiteEvent (xdp_fill x EventMeta_init) x)). c \<in> weak_suites
            then ''cipher_suite''
            else if SniDetector_evaluate sni (SniEvent (xdp_fill x EventMeta_init) x) \<noteq> None then ''sni''
            else ''traffic_observed'') \<and>
       (actionable v \<longleftrightarrow> tls_violation x \<or> attack_signature (boundedString (xt_payload_snippet (xdp_tls x))))))
   \<and> (decode_uprobe_event data = Some u \<longrightarrow>
     (\<exists>n v. first_verdict uprobe_detections data = Some (n, v, uprobe_fill True u EventMeta_init) \<and>
       n = (if uprobe_tls_violation u then ''tls_version''
            else if attack_signature (boundedString (ut_payload_snippet (up_tls u))) then ''payload_anomaly''
            else ''traffic_observed'') \<and>
       (actionable v \<longleftrightarrow> uprobe_tls_violation u \<or> attack_signature (boundedString (ut_payload_snippet (up_tls u))))))
   \<and> (decode_lsm_event data = Some l \<longrightarrow>
     (\<exists>v m. first_verdict (lsm_detections rl allowed) data =
         Some (if exe_allowed rl allowed l then ''traffic_observed'' else ''cert_access'', v, m) \<and> \<not> actionable v))"
  by (intro conjI impI) (erule xdp_first_verdict uprobe_first_verdict lsm_first_verdict)+

theorem record_classification_witness:
  "(\<exists>v m. first_verdict (xdp_detections ''bmc'') (encode_xdp_event zero_xdp_event) = Some (''traffic_observed'', v, m) \<and> \<not> actionable v)
   \<and> (\<exists>v m. first_verdict uprobe_detections (encode_uprobe_event zero_uprobe_event) = Some (''traffic_observed'', v, m) \<and> \<not> actionable v)
   \<and> (\<exists>v m. first_verdict (lsm_detections (\<lambda>_ _. None) [''/usr/bin/bmcweb'']) (encode_lsm_event zero_lsm_event) =
        Some (''cert_access'', v, m) \<and> \<not> actionable v)"
proof (intro conjI)
  have x: "decode_xdp_event (encode_xdp_event zero_xdp_event) = Some zero_xdp_event"
    using decode_encode_xdp [OF wf_zero_events(1), of "[]"] by simp
  have u: "decode_uprobe_event (encode_uprobe_event zero_uprobe_event) = Some zero_uprobe_event"
    using decode_encode_uprobe [OF wf_zero_events(2), of "[]"] by simp
  have l: "decode_lsm_event (encode_lsm_event zero_lsm_event) = Some zero_lsm_event"
    using decode_encode_lsm [OF wf_zero_events(3), of "[]"] by simp
  show "\<exists>v m. first_verdict (xdp_detections ''bmc'') (encode_xdp_event zero_xdp_event) = Some (''traffic_observed'', v, m) \<and> \<not> actionable v"
    using record_classification [THEN conjunct1, rule_format, OF x, of "''bmc''"]
    by (auto simp: zero_xdp_event_def zero_client_hello_def tls_violation_def attack_signature_def boundedString_def
        CipherSuiteEvent_def SniDetector_evaluate_def SniEvent_def)
  show "\<exists>v m. first_verdict uprobe_detections (encode_uprobe_event zero_uprobe_event) = Some (''traffic_observed'', v, m) \<and> \<not> actionable v"
    using record_classification [THEN conjunct2, THEN conjunct1, rule_format, OF u]
    by (auto simp: zero_uprobe_event_def uprobe_tls_violation_def attack_signature_def boundedString_def)
  show "\<exists>v m. first_verdict (lsm_detections (\<lambda>_ _. None) [''/usr/bin/bmcweb'']) (encode_lsm_event zero_lsm_event) =
      Some (''cert_access'', v, m) \<and> \<not> actionable v"
    using record_classification [THEN conjunct2, THEN conjunct2, rule_format, OF l, of "\<lambda>_ _. None" "[''/usr/bin/bmcweb'']"]
    by (simp add: exe_allowed_def resolveRealExePath_def)
qed

text \<open>a weak suite is reported iff it is among the first 32 a well-formed ClientHello offers: the
  parse, the record and the rule lose none of them and invent none.\<close>

theorem weak_offer_detected:
  assumes "wf_hello h" and "xdp_client_hello raw = parse_client_hello_detail zero_client_hello (encode_hello h)"
  shows "CipherSuiteDetector_evaluate (CipherSuiteEvent m raw) \<noteq> None \<longleftrightarrow>
           (\<exists>c \<in> set (take 32 (h_suites h)). c \<in> weak_suites)"
  unfolding CipherSuiteDetector_evaluate_def Cipher_fires hello_suites [OF assms] ..

theorem weak_offer_detected_witness:
  "CipherSuiteDetector_evaluate (CipherSuiteEvent EventMeta_init
     (zero_xdp_event\<lparr>xdp_client_hello := parse_client_hello_detail zero_client_hello (encode_hello sample_hello)\<rparr>)) = None"
proof -
  have "\<not> (\<exists>c \<in> set (take 32 (h_suites sample_hello)). c \<in> weak_suites)"
    by (simp add: sample_hello_def weak_suites_def kWeakCipherSuites_def)
  then show ?thesis
    using weak_offer_detected [OF sample_hello_wf,
        of "zero_xdp_event\<lparr>xdp_client_hello := parse_client_hello_detail zero_client_hello (encode_hello sample_hello)\<rparr>"]
    by simp
qed

text \<open>C37: the SNI rule on a well-formed ClientHello.  With no server name among the first 16 extensions it
  is silent; a name over 63 bytes is reported as malformed; otherwise it is silent iff no name is
  expected or the name up to its first null byte equals the expected one, ignoring case.  The
  null byte matters: what follows it is not compared.\<close>

theorem sni_rule_exact:
  assumes "wf_hello h" and "xdp_client_hello raw = parse_client_hello_detail zero_client_hello (encode_hello h)"
  shows "SniDetector_evaluate expected (SniEvent m raw) = None \<longleftrightarrow>
     (case first_name (take 16 (h_exts h)) of
        None \<Rightarrow> True
      | Some name \<Rightarrow> length name \<le> 63 \<and>
          (expected = [] \<or> toLower (boundedString (map chr8 name)) = toLower expected))"
  using hello_sni(1,2) [OF assms, of m] hello_sni(3) [OF assms, of _ m]
  by (auto simp: SniDetector_evaluate_def Let_def split: option.split)

theorem sni_rule_exact_witness:
  "\<exists>h. wf_hello h \<and> first_name (take 16 (h_exts h)) = Some [0x62, 0x6D, 0x63, 0, 0x78] \<and>
     SniDetector_evaluate ''bmc'' (SniEvent EventMeta_init
       (zero_xdp_event\<lparr>xdp_client_hello := parse_client_hello_detail zero_client_hello (encode_hello h)\<rparr>)) = None"
proof -
  let ?h = "sample_hello\<lparr>h_exts := [Server_name [0x62, 0x6D, 0x63, 0, 0x78]]\<rparr>"
  have wf: "wf_hello ?h" by (simp add: wf_hello_def sample_hello_def encode_hello_def)
  have name: "first_name (take 16 (h_exts ?h)) = Some [0x62, 0x6D, 0x63, 0, 0x78]" by simp
  have "boundedString (map chr8 [0x62, 0x6D, 0x63, 0, 0x78]) = ''bmc''"
    by (simp add: boundedString_def chr8_def char_of_def bit_simps)
  then show ?thesis
    using wf name sni_rule_exact [OF wf,
        of "zero_xdp_event\<lparr>xdp_client_hello := parse_client_hello_detail zero_client_hello (encode_hello ?h)\<rparr>" "''bmc''"
          EventMeta_init]
    by (intro exI [of _ ?h]) simp
qed

text \<open>Certificate access.  A record of the full size is reported iff the executable behind
  \<open>/proc/<pid>/exe\<close> is not on the allow-list; a path that cannot be resolved counts as not
  allowed, and the in-kernel comm comparison plays no part.  The verdict is never enforceable.\<close>

theorem cert_access_rule:
  assumes "decode_lsm_event data = Some raw" and "[] \<notin> set allowed"
  shows "(fst (CertAccessDetection_inspect readlink allowed data m) \<noteq> None \<longleftrightarrow>
           (case readlink (''/proc/'' @ to_string (unat (hdr_pid (lsm_hdr raw))) @ ''/exe'') 255 of
              None \<Rightarrow> True | Some exe \<Rightarrow> exe \<notin> set allowed))
       \<and> (\<forall>v. fst (CertAccessDetection_inspect readlink allowed data m) = Some v \<longrightarrow> \<not> actionable v)"
  using assms
  by (auto simp: CertAccessDetection_inspect_def CertAccessDetector_evaluate_def CertAccessEvent_def
      resolveRealExePath_def Let_def split: option.splits)

theorem cert_access_rule_witness:
  "fst (CertAccessDetection_inspect (\<lambda>_ _. None) [''/usr/bin/bmcweb''] (encode_lsm_event zero_lsm_event) EventMeta_init) \<noteq> None"
proof -
  have d: "decode_lsm_event (encode_lsm_event zero_lsm_event) = Some zero_lsm_event"
    using decode_encode_lsm [OF wf_zero_events(3), of "[]"] by simp
  show ?thesis using cert_access_rule [OF d, of "[''/usr/bin/bmcweb'']" "\<lambda>_ _. None" EventMeta_init] by simp
qed

end
