(* ===== verification/Json_Text.thy ===== *)
theory Json_Text
  imports Prelude
begin

text \<open>
  What the daemon relies on of \<open>nlohmann::json\<close>: a value as the list of its members, and \<open>dump\<close>, which
  is an argument wherever it is called.  It returns the text or throws; documented is that it throws
  (\<open>type_error.316\<close>) exactly when a string inside the value is not valid UTF-8.  \<open>utf8\<close> is the
  table of well-formed byte sequences of the Unicode standard.
\<close>

section \<open>UTF-8\<close>

text \<open>The range of the second byte after a first byte \<open>n\<close>, and that of the others.\<close>

definition second_ok :: "nat \<Rightarrow> char \<Rightarrow> bool" where
  "second_ok n b \<longleftrightarrow>
     (if n = 0xE0 then 0xA0 else if n = 0xF0 then 0x90 else 0x80) \<le> (of_char b :: nat) \<and>
     of_char b \<le> (if n = 0xED then 0x9F else if n = 0xF4 then 0x8F else 0xBF :: nat)"

definition tail_ok :: "char \<Rightarrow> bool" where
  "tail_ok b \<longleftrightarrow> 0x80 \<le> (of_char b :: nat) \<and> of_char b \<le> (0xBF :: nat)"

text \<open>What is left after one character.\<close>

definition utf8_char :: "string \<Rightarrow> string option" where
  "utf8_char s =
     (case s of
        [] \<Rightarrow> None
      | a # s \<Rightarrow>
          let n = of_char a :: nat in
          if n < 0x80 then Some s
          else if 0xC2 \<le> n \<and> n \<le> 0xDF then
            (case s of b # s' \<Rightarrow> if tail_ok b then Some s' else None | _ \<Rightarrow> None)
          else if 0xE0 \<le> n \<and> n \<le> 0xEF then
            (case s of b # c # s' \<Rightarrow> if second_ok n b \<and> tail_ok c then Some s' else None | _ \<Rightarrow> None)
          else if 0xF0 \<le> n \<and> n \<le> 0xF4 then
            (case s of b # c # d # s' \<Rightarrow> if second_ok n b \<and> tail_ok c \<and> tail_ok d then Some s' else None | _ \<Rightarrow> None)
          else None)"

lemma utf8_char_shorter: "utf8_char s = Some r \<Longrightarrow> length r < length s"
  by (auto simp: utf8_char_def Let_def split: list.splits if_splits)

function utf8 :: "string \<Rightarrow> bool" where
  "utf8 s \<longleftrightarrow> s = [] \<or> (case utf8_char s of None \<Rightarrow> False | Some r \<Rightarrow> utf8 r)"
  by auto
termination by (relation "measure length") (auto dest: utf8_char_shorter)

declare utf8.simps [simp del]

fun ascii :: "string \<Rightarrow> bool" where
  "ascii [] \<longleftrightarrow> True"
| "ascii (c # s) \<longleftrightarrow> of_char c < (0x80 :: nat) \<and> ascii s"

lemma ascii_append [simp]: "ascii (p @ q) \<longleftrightarrow> ascii p \<and> ascii q"
  by (induction p) auto

lemma utf8_Nil [simp]: "utf8 []"
  by (simp add: utf8.simps)

lemma utf8_ascii_Cons [simp]: "of_char c < (0x80 :: nat) \<Longrightarrow> utf8 (c # s) = utf8 s"
  by (simp add: utf8.simps [of "c # s"] utf8_char_def)

lemma utf8_ascii_append [simp]: "ascii p \<Longrightarrow> utf8 (p @ s) = utf8 s"
  by (induction p) auto

lemma ascii_utf8 [simp]: "ascii s \<Longrightarrow> utf8 s"
  using utf8_ascii_append [of s "[]"] by simp

lemma ascii_not_tail: "of_char c < (0x80 :: nat) \<Longrightarrow> \<not> tail_ok c \<and> \<not> second_ok n c"
  by (auto simp: tail_ok_def second_ok_def)

text \<open>A character that is cut short is not completed by what is ASCII.\<close>

lemma upto_four_cases:
  obtains "p = []" | a where "p = [a]" | a b where "p = [a, b]" | a b c where "p = [a, b, c]" | a b c d t where "p = a # b # c # d # t"
  by (metis neq_Nil_conv)

lemma utf8_char_append:
  assumes "utf8_char p = Some r"
  shows "utf8_char (p @ q) = Some (r @ q)"
  using assms by (cases p rule: upto_four_cases) (simp_all add: utf8_char_def Let_def split: if_split_asm)

lemma utf8_char_stuck:
  assumes "utf8_char p = None" "p \<noteq> []" "q = [] \<or> of_char (hd q) < (0x80 :: nat)"
  shows "utf8_char (p @ q) = None"
proof (cases q)
  case (Cons c r)
  then have "tail_ok c = False" "\<And>n. second_ok n c = False" using assms(3) ascii_not_tail by auto
  then show ?thesis using assms(1,2)
    by (cases p rule: upto_four_cases) (auto simp: utf8_char_def Let_def Cons split: if_split_asm list.split)
qed (use assms in simp)

lemma utf8_split: "q = [] \<or> of_char (hd q) < (0x80 :: nat) \<Longrightarrow> utf8 (p @ q) \<longleftrightarrow> utf8 p \<and> utf8 q"
proof (induction p rule: utf8.induct)
  case (1 p)
  show ?case
  proof (cases "p = []")
    case False
    then show ?thesis
      using 1 utf8_char_append [of p _ q] utf8_char_stuck [OF _ False "1.prems"]
      by (cases "utf8_char p") (simp_all add: utf8.simps [of p] utf8.simps [of "p @ q"])
  qed simp
qed

lemma utf8_append_Cons [simp]: "of_char c < (0x80 :: nat) \<Longrightarrow> utf8 (p @ c # q) \<longleftrightarrow> utf8 p \<and> utf8 q"
  by (subst utf8_split) auto

lemma utf8_append_ascii [simp]: "ascii q \<Longrightarrow> utf8 (p @ q) = utf8 p"
  by (subst utf8_split) (cases q; auto)+

lemma utf8_append: "utf8 p \<Longrightarrow> utf8 (p @ q) = utf8 q"
proof (induction p rule: utf8.induct)
  case (1 p)
  show ?case
  proof (cases "p = []")
    case False
    then obtain r where "utf8_char p = Some r" "utf8 r" using "1.prems" by (auto simp: utf8.simps [of p] split: option.splits)
    then show ?thesis using False 1(1) utf8_char_append [of p r q] by (simp add: utf8.simps [of "p @ q"])
  qed simp
qed

lemma ascii_to_string [simp]: "ascii (to_string n)"
proof (induction n rule: to_string.induct)
  case (1 n)
  have "ascii [digit_char (n mod 10)]" by simp
  with 1 show ?case by (simp add: to_string.simps [of n])
qed

section \<open>Values\<close>

datatype json = JString string | JObject "(string \<times> json) list" | JArray "json list"

fun json_utf8 :: "json \<Rightarrow> bool" where
  "json_utf8 (JString s) \<longleftrightarrow> utf8 s"
| "json_utf8 (JObject members) \<longleftrightarrow> list_all (\<lambda>(k, v). utf8 k \<and> json_utf8 v) members"
| "json_utf8 (JArray vs) \<longleftrightarrow> list_all json_utf8 vs"

text \<open>What is documented of \<open>dump\<close>; \<open>None\<close> is the exception.\<close>

type_synonym json_dump = "json \<Rightarrow> string option"

definition strict_dump :: "json_dump \<Rightarrow> bool" where
  "strict_dump dump \<longleftrightarrow> (\<forall>j. dump j = None \<longleftrightarrow> \<not> json_utf8 j)"

end
