(* ===== verification/Dispatch.thy ===== *)
theory Dispatch
  imports Detections Blocklist Json_Text
begin

text \<open>
  \<open>detections/core/engine/dispatch.cpp\<close>: from a verdict to the group of actions handed to
  \<open>ActionLoop\<close>, and \<open>actions/log/redfish_event_message.hpp\<close>, the event that is logged.
  \<open>nlohmann::json::dump\<close>, which may throw, and the wall clock's formatted time are arguments; a json object is the
  list of its members in the order they are assigned.  What is written to the error stream
  instead of acting is \<open>dispatch_note\<close>.  An exception leaves \<open>dispatchVerdict\<close> before the group is handed over; it is
  the result \<open>None\<close>.
\<close>

section \<open>The Redfish event\<close>

record redfish_event_message =
  rf_timestamp_ns :: u64
  rf_pid :: u32
  rf_message_id :: string
  rf_message :: string
  rf_severity :: string

definition RedfishEventMessage :: "event_meta \<Rightarrow> string \<Rightarrow> string \<Rightarrow> string \<Rightarrow> redfish_event_message" where
  "RedfishEventMessage m mid msg sev =
     \<lparr>rf_timestamp_ns = em_timestamp_ns m, rf_pid = em_pid m, rf_message_id = mid,
      rf_message = msg, rf_severity = sev\<rparr>"

definition redfish_payload :: "string \<Rightarrow> redfish_event_message \<Rightarrow> json" where
  "redfish_payload nowUtcIso8601 e =
     JObject
      [(''@odata.type'', JString ''#Event.v1_7_0.Event''),
       (''Name'', JString ''Platform Security Anomaly Event''),
       (''Id'', JString (to_string (unat (rf_timestamp_ns e)))),
       (''Events'', JArray
         [JObject
           [(''EventId'', JString (to_string (unat (rf_timestamp_ns e)) @ ''-'' @ to_string (unat (rf_pid e)))),
            (''Severity'', JString (rf_severity e)),
            (''MessageId'', JString (rf_message_id e)),
            (''Message'', JString (rf_message e)),
            (''EventTimestamp'', JString nowUtcIso8601),
            (''OriginOfCondition'', JObject [(''@odata.id'', JString ''/redfish/v1/Managers/BMC'')])]])]"

definition redfish_format :: "json_dump \<Rightarrow> string \<Rightarrow> redfish_event_message \<Rightarrow> string option" where
  "redfish_format dump nowUtcIso8601 e = dump (redfish_payload nowUtcIso8601 e)"

section \<open>The verdict without a rule\<close>

definition trafficObservedVerdict :: "event_meta \<Rightarrow> string \<Rightarrow> verdict" where
  "trafficObservedVerdict m tls_desc =
     \<lparr>severity = ''OK'', message_id = ''OemSecurityEvent.1.0.HttpsTrafficObserved'',
      message = ''HTTPS traffic observed from process '' @ [CHR 0x27] @ em_process m @ [CHR 0x27] @ '' (PID '' @
        to_string (unat (em_pid m)) @ ''), TLS version: '' @ tls_desc,
      actionable = False\<rparr>"

text \<open>Nothing calls it; the detection of that name builds the same verdict itself.\<close>

lemma traffic_observed_same:
  assumes "rt_decode rt data = Some raw"
  shows "\<exists>tls_desc. TrafficObservedDetection_inspect rt data m = (Some (trafficObservedVerdict (rt_fill rt raw m) tls_desc), rt_fill rt raw m)"
  using assms by (auto simp: TrafficObservedDetection_inspect_def trafficObservedVerdict_def Let_def)

section \<open>Actions\<close>

record block_tcp_action =
  bt_is_ipv6 :: bool
  bt_local_addr :: "u8 list"
  bt_remote_addr :: "u8 list"
  bt_local_port :: u16
  bt_remote_port :: u16
  bt_reason :: string

record log_action =
  la_message :: string
  la_path :: string

datatype action =
    BlockTcp block_tcp_action
  | BlocklistAdd blocklist_add_action
  | Log log_action

record dispatch_context =
  dc_action_loop :: bool  \<comment> \<open>whether \<open>action_loop\<close> is set\<close>
  dc_blocklist_ttl :: int
  dc_output_path :: string

datatype dispatch_note = No_note | No_action_loop | No_attribution | Ipv6_teardown_only | Ipv6_nothing

text \<open>The enforcement part of the response, with the resolved meta.\<close>

definition enforcement ::
  "event_meta \<Rightarrow> verdict \<Rightarrow> dispatch_context \<Rightarrow> action list \<times> dispatch_note" where
  "enforcement m verdict ctx =
     (if isSet (em_remote_ip m) then
        let have_full_tuple = isSet (em_local_ip m) \<and> em_local_port m \<noteq> 0 \<and> em_remote_port m \<noteq> 0;
            teardown = (if have_full_tuple
              then [BlockTcp \<lparr>bt_is_ipv6 = (ip_family (em_remote_ip m) = kV6),
                      bt_local_addr = ip_bytes16 (em_local_ip m), bt_remote_addr = ip_bytes16 (em_remote_ip m),
                      bt_local_port = em_local_port m, bt_remote_port = em_remote_port m,
                      bt_reason = message verdict\<rparr>]
              else [])
        in if ip_family (em_remote_ip m) = kV4
           then (teardown @ [BlocklistAdd \<lparr>act_src_ip_v4 = v4 (em_remote_ip m), act_ttl = dc_blocklist_ttl ctx,
                               act_reason = message verdict\<rparr>], No_note)
           else (teardown, if have_full_tuple then Ipv6_teardown_only else Ipv6_nothing)
      else ([], No_attribution))"

definition dispatchVerdict ::
  "peer_resolver \<Rightarrow> json_dump \<Rightarrow> string \<Rightarrow> event_meta \<Rightarrow> verdict \<Rightarrow> dispatch_context
   \<Rightarrow> (action list \<times> dispatch_note) option" where
  "dispatchVerdict resolvePeer dump now m verdict ctx =
     (if \<not> dc_action_loop ctx then Some ([], No_action_loop)
      else
        let m = (if actionable verdict then snd (ensurePeerResolved resolvePeer m) else m);
            (response, note) = (if actionable verdict then enforcement m verdict ctx else ([], No_note));
            event_msg = RedfishEventMessage m (message_id verdict) (message verdict) (severity verdict)
        in case redfish_format dump now event_msg of
             None \<Rightarrow> None
           | Some formatted \<Rightarrow>
               Some (response @ [Log \<lparr>la_message = formatted, la_path = dc_output_path ctx\<rparr>], note))"

text \<open>The actions handed over: none when it threw.\<close>

definition dispatched :: "peer_resolver \<Rightarrow> json_dump \<Rightarrow> string \<Rightarrow> event_meta \<Rightarrow> verdict \<Rightarrow> dispatch_context \<Rightarrow> action list" where
  "dispatched resolvePeer dump now m verdict ctx =
     (case dispatchVerdict resolvePeer dump now m verdict ctx of None \<Rightarrow> [] | Some (actions, note) \<Rightarrow> actions)"

section \<open>When it throws\<close>

definition reportable :: "verdict \<Rightarrow> bool" where
  "reportable v \<longleftrightarrow> utf8 (severity v) \<and> utf8 (message_id v) \<and> utf8 (message v)"

lemma redfish_payload_utf8:
  "json_utf8 (redfish_payload now (RedfishEventMessage m mid msg sev)) \<longleftrightarrow> utf8 sev \<and> utf8 mid \<and> utf8 msg \<and> utf8 now"
  by (simp add: redfish_payload_def RedfishEventMessage_def)

lemma dispatch_throws:
  assumes "dc_action_loop ctx" "strict_dump dump" "utf8 now"
  shows "dispatchVerdict resolve dump now m v ctx = None \<longleftrightarrow> \<not> reportable v"
proof -
  have f: "redfish_format dump now (RedfishEventMessage m' (message_id v) (message v) (severity v)) = None \<longleftrightarrow> \<not> reportable v" for m'
    using assms(2,3) by (simp add: redfish_format_def strict_dump_def redfish_payload_utf8 reportable_def)
  have "(case x of None \<Rightarrow> None | Some t \<Rightarrow> Some (g t)) = None \<longleftrightarrow> x = None" for x :: "string option" and g :: "string \<Rightarrow> action list \<times> dispatch_note"
    by (cases x) auto
  then show ?thesis using assms(1) by (simp add: dispatchVerdict_def f split_beta Let_def)
qed

text \<open>The texts of the rules are ASCII around what they quote: the process name, and for an open of the
  certificate the executable; for the rate rules nothing but an address.\<close>

lemma ascii_TlsVersion_toString [simp]: "ascii (TlsVersion_toString v)"
  by (simp add: TlsVersion_toString_def)

lemma tls_version_reportable:
  "TlsVersionDetector_evaluate evt = Some v \<Longrightarrow> reportable v \<longleftrightarrow> utf8 (em_process (tv_meta evt))"
  unfolding TlsVersionDetector_evaluate_def Let_def
  by (split if_split_asm, simp, drule option.inject [THEN iffD1], drule sym, simp add: reportable_def)

lemma ascii_rule: "rule \<in> set kRules \<Longrightarrow> ascii rule"
  by (auto simp: kRules_def)

lemma payload_anomaly_reportable:
  assumes "PayloadAnomalyDetector_evaluate evt = Some v"
  shows "reportable v \<longleftrightarrow> utf8 (em_process (pl_meta evt))"
proof -
  obtain rule where "find (\<lambda>rule. str_find rule (toLower (pl_payload_snippet evt))) kRules = Some rule"
      "v = \<lparr>severity = ''Warning'', message_id = ''OemSecurityEvent.1.0.HttpsPayloadAnomalyDetected'',
          message = ''Attack signature detected from process '' @ [CHR 0x27] @ em_process (pl_meta evt) @ [CHR 0x27] @
            '' (PID '' @ to_string (unat (em_pid (pl_meta evt))) @ ''), rule '' @ [CHR 0x27] @ rule @ [CHR 0x27] @
            ''. Source should be quarantined.'', actionable = True\<rparr>"
    using assms by (auto simp: PayloadAnomalyDetector_evaluate_def Let_def split: if_splits option.splits)
  moreover from this(1) have "ascii rule" using ascii_rule by (auto simp: find_Some_iff)
  ultimately show ?thesis by (simp add: reportable_def)
qed

lemma cert_access_reportable:
  assumes "CertAccessDetector_evaluate evt = Some v"
  shows "reportable v \<longleftrightarrow> utf8 (em_process (ce_meta evt)) \<and> utf8 (ce_real_exe_path evt)"
proof -
  define end_text where "end_text = '') accessed the BMC'' @ [CHR 0x27] @ ''s HTTPS certificate/key file; expected only bmcweb or '' @
    ''phosphor-certificate-manager to do so.'' @
    (if ce_shadow_mode evt then '' Shadow mode: access was observed but not blocked.'' else '' Access was denied.'')"
  have "ascii end_text" unfolding end_text_def by (cases "ce_shadow_mode evt"; simp only: if_True if_False; code_simp)
  then show ?thesis using assms unfolding CertAccessDetector_evaluate_def end_text_def [symmetric]
    by (auto simp: reportable_def split: if_split_asm)
qed

lemma rates_reportable:
  "ascii (em_source_ip (cre_meta c)) \<Longrightarrow> ConnRateDetector_evaluate c = Some v \<Longrightarrow> reportable v"
  "ascii (em_source_ip (rne_meta n)) \<Longrightarrow> RenegotiationDetector_evaluate n = Some v \<Longrightarrow> reportable v"
  "ascii (em_source_ip (sle_meta l)) \<Longrightarrow> SlowlorisDetector_evaluate l = Some v \<Longrightarrow> reportable v"
  by (auto simp: ConnRateDetector_evaluate_def RenegotiationDetector_evaluate_def SlowlorisDetector_evaluate_def reportable_def
      describeSource_def split: if_splits)

text \<open>A server name that does not match is quoted as it came, so a name that is not UTF-8 goes unreported.\<close>

lemma sni_mismatch_reportable:
  assumes "\<not> sn_malformed evt" "SniDetector_evaluate expected evt = Some v" "ascii (em_source_ip (sn_meta evt))" "ascii (toLower expected)"
  shows "reportable v \<longleftrightarrow> utf8 (sn_hostname evt)"
  using assms by (auto simp: SniDetector_evaluate_def SniDetector_makeVerdict_def reportable_def Let_def split: if_splits)

section \<open>What is enforced against whom\<close>

text \<open>The address an action is aimed at, as bytes and family.\<close>

fun target :: "action \<Rightarrow> u8 list option" where
  "target (BlockTcp a) = Some (bt_remote_addr a)"
| "target (BlocklistAdd a) = Some (le_bytes 4 (act_src_ip_v4 a) @ replicate 12 0)"
| "target (Log a) = None"

lemma dispatch_actions:
  assumes "dc_action_loop ctx" "dispatchVerdict resolve dump now m v ctx = Some (actions, note)"
  shows "\<exists>l. la_path l = dc_output_path ctx \<and>
     actions = (if actionable v then fst (enforcement (snd (ensurePeerResolved resolve m)) v ctx) else []) @ [Log l]"
  using assms by (auto simp: dispatchVerdict_def Let_def split: prod.splits option.splits)

lemma in_dispatched:
  assumes "a \<in> set (dispatched resolve dump now m v ctx)"
  shows "dc_action_loop ctx \<and>
     (actionable v \<and> a \<in> set (fst (enforcement (snd (ensurePeerResolved resolve m)) v ctx)) \<or> (\<exists>l. a = Log l))"
proof -
  obtain as n where d: "dispatchVerdict resolve dump now m v ctx = Some (as, n)" "a \<in> set as"
    using assms by (cases "dispatchVerdict resolve dump now m v ctx") (auto simp: dispatched_def)
  then have loop: "dc_action_loop ctx" by (auto simp: dispatchVerdict_def split: if_splits)
  show ?thesis using dispatch_actions [OF loop d(1)] d(2) loop by (auto split: if_splits)
qed

lemma dispatched_reportable:
  assumes "dc_action_loop ctx" "strict_dump dump" "utf8 now" "reportable v"
  shows "\<exists>l. la_path l = dc_output_path ctx \<and> dispatched resolve dump now m v ctx =
     (if actionable v then fst (enforcement (snd (ensurePeerResolved resolve m)) v ctx) else []) @ [Log l]"
proof -
  obtain as n where d: "dispatchVerdict resolve dump now m v ctx = Some (as, n)"
    using dispatch_throws [OF assms(1-3), of resolve m v] assms(4) by auto
  show ?thesis using dispatch_actions [OF assms(1) d] by (auto simp: dispatched_def d)
qed

lemma in_enforcement:
  assumes "a \<in> set (fst (enforcement m v ctx))"
  shows "isSet (em_remote_ip m)"
    "a = BlocklistAdd b \<Longrightarrow> ip_family (em_remote_ip m) = kV4 \<and> act_src_ip_v4 b = v4 (em_remote_ip m) \<and>
        act_ttl b = dc_blocklist_ttl ctx \<and> act_reason b = message v"
    "a = BlockTcp t \<Longrightarrow> isSet (em_local_ip m) \<and> bt_local_addr t = ip_bytes16 (em_local_ip m) \<and>
        bt_remote_addr t = ip_bytes16 (em_remote_ip m) \<and> bt_local_port t = em_local_port m \<and>
        bt_remote_port t = em_remote_port m \<and> bt_local_port t \<noteq> 0 \<and> bt_remote_port t \<noteq> 0"
    "a \<noteq> Log l"
  using assms by (auto simp: enforcement_def Let_def split: if_splits)

section \<open>Properties\<close>

text \<open>C14: the enforcement gate.  A verdict whose texts are valid UTF-8 is logged exactly once, as the last action; one
  whose texts are not makes the JSON library throw, and then nothing of it is handed over, enforcement
  included.  Something is
  enforced only for an actionable verdict whose peer address is known after resolution.  A
  blocklist entry is for exactly that peer, an IPv4 address, with the configured time to live; a
  teardown is of exactly the event's tuple, with both ports known.  Without an attributed peer
  nothing but the log entry is produced.\<close>

theorem dispatch_gate:
  assumes "dc_action_loop ctx" "strict_dump dump" "utf8 now"
    and "m' = snd (ensurePeerResolved resolve m)"
  shows "case dispatchVerdict resolve dump now m v ctx of
       None \<Rightarrow> \<not> reportable v
     | Some (actions, n) \<Rightarrow> reportable v \<and> (\<exists>enf l. actions = enf @ [Log l] \<and> la_path l = dc_output_path ctx
         \<and> (\<forall>x. Log x \<notin> set enf)
         \<and> (enf \<noteq> [] \<longrightarrow> actionable v \<and> isSet (em_remote_ip m'))
         \<and> (actionable v \<and> isSet (em_remote_ip m') \<and> ip_family (em_remote_ip m') = kV4 \<longrightarrow> (\<exists>b. BlocklistAdd b \<in> set enf))
         \<and> (\<forall>b. BlocklistAdd b \<in> set enf \<longrightarrow>
               ip_family (em_remote_ip m') = kV4 \<and> act_src_ip_v4 b = v4 (em_remote_ip m') \<and>
               act_ttl b = dc_blocklist_ttl ctx)
         \<and> (\<forall>t. BlockTcp t \<in> set enf \<longrightarrow>
               bt_local_addr t = ip_bytes16 (em_local_ip m') \<and> bt_remote_addr t = ip_bytes16 (em_remote_ip m') \<and>
               bt_local_port t = em_local_port m' \<and> bt_remote_port t = em_remote_port m' \<and>
               bt_local_port t \<noteq> 0 \<and> bt_remote_port t \<noteq> 0))"
proof (cases "dispatchVerdict resolve dump now m v ctx")
  case None
  then show ?thesis using dispatch_throws [OF assms(1-3), of resolve m v] by simp
next
  case (Some r)
  obtain actions n where r: "r = (actions, n)" by fastforce
  have rep: "reportable v" using dispatch_throws [OF assms(1-3), of resolve m v] Some by simp
  let ?enf = "if actionable v then fst (enforcement m' v ctx) else []"
  obtain l where l: "actions = ?enf @ [Log l]" "la_path l = dc_output_path ctx"
    using dispatch_actions [OF assms(1) Some [unfolded r]] by (auto simp: assms(4))
  have enf: "x \<in> set ?enf \<Longrightarrow> x \<in> set (fst (enforcement m' v ctx)) \<and> actionable v" for x
    by (auto split: if_splits)
  have "?enf \<noteq> [] \<Longrightarrow> \<exists>x. x \<in> set ?enf" by (cases ?enf) auto
  moreover have "\<exists>b. BlocklistAdd b \<in> set ?enf" if "actionable v" "isSet (em_remote_ip m')" "ip_family (em_remote_ip m') = kV4"
    using that by (auto simp: enforcement_def Let_def)
  ultimately have "\<exists>enf l. actions = enf @ [Log l] \<and> la_path l = dc_output_path ctx
         \<and> (\<forall>x. Log x \<notin> set enf)
         \<and> (enf \<noteq> [] \<longrightarrow> actionable v \<and> isSet (em_remote_ip m'))
         \<and> (actionable v \<and> isSet (em_remote_ip m') \<and> ip_family (em_remote_ip m') = kV4 \<longrightarrow> (\<exists>b. BlocklistAdd b \<in> set enf))
         \<and> (\<forall>b. BlocklistAdd b \<in> set enf \<longrightarrow>
               ip_family (em_remote_ip m') = kV4 \<and> act_src_ip_v4 b = v4 (em_remote_ip m') \<and>
               act_ttl b = dc_blocklist_ttl ctx)
         \<and> (\<forall>t. BlockTcp t \<in> set enf \<longrightarrow>
               bt_local_addr t = ip_bytes16 (em_local_ip m') \<and> bt_remote_addr t = ip_bytes16 (em_remote_ip m') \<and>
               bt_local_port t = em_local_port m' \<and> bt_remote_port t = em_remote_port m' \<and>
               bt_local_port t \<noteq> 0 \<and> bt_remote_port t \<noteq> 0)"
    using l by (intro exI [of _ ?enf] exI [of _ l]) (blast dest: enf in_enforcement)
  with rep show ?thesis by (simp add: Some r)
qed

theorem dispatch_gate_witness:
  "\<exists>actions n b. dispatchVerdict (\<lambda>m. (False, m)) (\<lambda>j. if json_utf8 j then Some [] else None) []
       (EventMeta_init\<lparr>em_remote_ip := setV4 7 IpAddress_init\<rparr>)
       \<lparr>severity = ''Critical'', message_id = [], message = ''m'', actionable = True\<rparr>
       \<lparr>dc_action_loop = True, dc_blocklist_ttl = 300, dc_output_path = ''p''\<rparr> = Some (actions, n) \<and>
     BlocklistAdd b \<in> set actions \<and> act_src_ip_v4 b = 7"
proof -
  let ?m = "EventMeta_init\<lparr>em_remote_ip := setV4 7 IpAddress_init\<rparr>" and ?dump = "\<lambda>j. if json_utf8 j then Some [] else None :: string option"
  let ?v = "\<lparr>severity = ''Critical'', message_id = [], message = ''m'', actionable = True\<rparr>"
  let ?ctx = "\<lparr>dc_action_loop = True, dc_blocklist_ttl = 300, dc_output_path = ''p''\<rparr>"
  have h: "dc_action_loop ?ctx" "strict_dump ?dump" "utf8 []" "reportable ?v" by (simp_all add: strict_dump_def reportable_def)
  have m: "em_remote_ip (snd (ensurePeerResolved (\<lambda>m. (False, m)) ?m)) = setV4 7 IpAddress_init"
    by (simp add: ensurePeerResolved_no_resolver EventMeta_init_def)
  show ?thesis using dispatch_gate [OF h(1-3) refl, where v = ?v and resolve = "\<lambda>m. (False, m)" and m = ?m] h(4) unfolding m
    by (auto split: option.splits) blast
qed

end
