(* ===== verification/Lsm_Cert.thy ===== *)
theory Lsm_Cert
  imports Dispatch
begin

text \<open>
  \<open>programs/lsm_cert_guard/ebpf/lsm_cert_guard.bpf.h\<close>: the LSM hook on \<open>file_open\<close> that reports every open
  of the certificate file.  \<open>bpf_d_path\<close> is kernel code, a function from the file's path and the
  buffer size to its return value and the buffer; the locale \<open>d_path_helper\<close> states what its
  documentation promises.  An environment holds what the other helpers return.
\<close>

definition HTTPS_GUARD_CERT_PATH :: string where
  "HTTPS_GUARD_CERT_PATH = ''/etc/ssl/certs/https/server.pem''"

definition HTTPS_GUARD_BMCWEB_COMM :: string where "HTTPS_GUARD_BMCWEB_COMM = ''bmcweb''"

definition HG_EACCES :: int where "HG_EACCES = 13"
definition HG_PATH_LEN :: nat where "HG_PATH_LEN = 64"

text \<open>\<open>shadow_mode\<close> as shipped; the hook takes it as an argument because a loader may patch it.\<close>

definition shadow_mode :: bool where "shadow_mode = True"

type_synonym d_path = "string \<Rightarrow> nat \<Rightarrow> int \<times> string"

record lsm_env =
  le_comm :: string
  le_reserve :: bool
  le_now :: u64
  le_pid_tgid :: u64
  le_cgroup_id :: u64

text \<open>The comparison loops: the first differing index ends them.\<close>

fun bytes_match :: "string \<Rightarrow> string \<Rightarrow> bool" where
  "bytes_match buf [] \<longleftrightarrow> True"
| "bytes_match [] (c # cs) \<longleftrightarrow> False"
| "bytes_match (b # bs) (c # cs) \<longleftrightarrow> (if b \<noteq> c then False else bytes_match bs cs)"

definition https_guard_path_matches :: "d_path \<Rightarrow> string \<Rightarrow> string \<Rightarrow> bool" where
  "https_guard_path_matches bpf_d_path path expected =
     (let (len, buf) = bpf_d_path path HG_PATH_LEN in
      if len \<noteq> int (length expected) + 1 then False else bytes_match buf expected)"

definition lsm_event :: "lsm_env \<Rightarrow> bool \<Rightarrow> bool \<Rightarrow> lsm_cert_guard_event" where
  "lsm_event env shadow comm_ok =
     zero_lsm_event\<lparr>
       lsm_hdr := (lsm_hdr zero_lsm_event)\<lparr>hdr_event_source := HG_SOURCE_LSM_CERT_GUARD, hdr_reserved := 0,
         hdr_timestamp_ns := le_now env, hdr_pid := ucast (le_pid_tgid env),
         hdr_tgid := ucast (drop_bit 32 (le_pid_tgid env)), hdr_comm := le_comm env\<rparr>,
       lsm_cert := (lsm_cert zero_lsm_event)\<lparr>ca_cgroup_id := le_cgroup_id env,
         ca_comm_mismatch := (if comm_ok then 0 else 1), ca_shadow_mode := (if shadow then 1 else 0)\<rparr>\<rparr>"

definition https_guard_cert_open ::
  "d_path \<Rightarrow> bool \<Rightarrow> lsm_env \<Rightarrow> string \<Rightarrow> lsm_cert_guard_event list \<Rightarrow> int \<times> lsm_cert_guard_event list" where
  "https_guard_cert_open bpf_d_path shadow env f_path events =
     (if \<not> https_guard_path_matches bpf_d_path f_path HTTPS_GUARD_CERT_PATH then (0, events)
      else
        let comm_ok = bytes_match (le_comm env) HTTPS_GUARD_BMCWEB_COMM;
            events = (if le_reserve env then events @ [lsm_event env shadow comm_ok] else events)
        in if shadow then (0, events) else (if comm_ok then 0 else - HG_EACCES, events))"

section \<open>The path helper\<close>

locale d_path_helper =
  fixes bpf_d_path :: d_path
  assumes fits: "length p < n \<Longrightarrow> \<exists>rest. bpf_d_path p n = (int (length p) + 1, p @ NUL # rest)"
    and too_long: "n \<le> length p \<Longrightarrow> fst (bpf_d_path p n) < 0"
begin

lemma matches_exactly:
  assumes "length expected < HG_PATH_LEN"
  shows "https_guard_path_matches bpf_d_path p expected \<longleftrightarrow> p = expected"
proof (cases "length p < HG_PATH_LEN")
  case True
  obtain rest where r: "bpf_d_path p HG_PATH_LEN = (int (length p) + 1, p @ NUL # rest)" using fits [OF True] by blast
  have "length p = length expected \<Longrightarrow> bytes_match (p @ NUL # rest) expected \<longleftrightarrow> p = expected"
  proof (induction p expected rule: list_induct2)
    case Nil
    then show ?case by simp
  next
    case (Cons x xs y ys)
    then show ?case by simp
  qed
  then show ?thesis using r by (auto simp: https_guard_path_matches_def)
next
  case False
  then have "fst (bpf_d_path p HG_PATH_LEN) < 0" using too_long [of HG_PATH_LEN p] by simp
  then show ?thesis using assms False by (auto simp: https_guard_path_matches_def split: prod.splits)
qed

end

text \<open>The helper as documented: the path and a null, or \<open>-ENAMETOOLONG\<close>.\<close>

definition d_path_model :: d_path where
  "d_path_model p n = (if length p < n then (int (length p) + 1, p @ [NUL]) else (- 36, []))"

interpretation dp: d_path_helper d_path_model
  by unfold_locales (auto simp: d_path_model_def)

lemma bytes_match_take: "bytes_match buf e \<longleftrightarrow> take (length e) buf = e"
proof (induction buf e rule: bytes_match.induct)
  case (2 c cs)
  then show ?case by simp
qed auto

lemma comm_match: "bytes_match comm HTTPS_GUARD_BMCWEB_COMM \<longleftrightarrow> take 6 comm = ''bmcweb''"
  by (simp add: bytes_match_take HTTPS_GUARD_BMCWEB_COMM_def numeral_eq_Suc)

lemma cert_path_fits: "length HTTPS_GUARD_CERT_PATH < HG_PATH_LEN"
  by (simp add: HTTPS_GUARD_CERT_PATH_def HG_PATH_LEN_def)

lemma lsm_event_wf: "length (le_comm env) = 16 \<Longrightarrow> wf_lsm_event (lsm_event env sh ok)"
  by (simp add: wf_lsm_event_def wf_hdr_def lsm_event_def zero_lsm_event_def)

lemma lsm_verdict:
  assumes "decode_lsm_event data = Some raw" "[] \<notin> set allowed"
  shows "\<exists>n v m. first_verdict (lsm_detections readlink allowed) data = Some (n, v, m) \<and> \<not> actionable v
     \<and> (n = ''cert_access'' \<longleftrightarrow> resolveRealExePath readlink (hdr_pid (lsm_hdr raw)) \<notin> set allowed)
     \<and> (reportable v \<longleftrightarrow> utf8 (boundedString (hdr_comm (lsm_hdr raw)))
          \<and> (resolveRealExePath readlink (hdr_pid (lsm_hdr raw)) \<notin> set allowed \<longrightarrow> utf8 (resolveRealExePath readlink (hdr_pid (lsm_hdr raw)))))"
proof -
  let ?m = "fillEnvelope (lsm_hdr raw) EventMeta_init" and ?exe = "resolveRealExePath readlink (hdr_pid (lsm_hdr raw))"
  let ?evt = "CertAccessEvent ?m raw ?exe (?exe \<notin> set allowed)"
  have p: "em_process ?m = boundedString (hdr_comm (lsm_hdr raw))" by (simp add: fillEnvelope_def)
  show ?thesis
  proof (cases "CertAccessDetector_evaluate ?evt")
    case (Some v)
    then have "?exe \<notin> set allowed" "\<not> actionable v" by (auto simp: CertAccessDetector_evaluate_def CertAccessEvent_def split: if_splits)
    moreover have "reportable v \<longleftrightarrow> utf8 (boundedString (hdr_comm (lsm_hdr raw))) \<and> utf8 ?exe"
      using cert_access_reportable [OF Some] by (simp add: CertAccessEvent_def p)
    ultimately show ?thesis using assms(1) Some
      by (simp add: lsm_detections_def CertAccessDetection_inspect_def Let_def)
  next
    case None
    then have "?exe \<in> set allowed" by (auto simp: CertAccessDetector_evaluate_def CertAccessEvent_def split: if_splits)
    then show ?thesis using assms None
      by (simp add: lsm_detections_def CertAccessDetection_inspect_def TrafficObservedDetection_inspect_def lsm_traits_def lsm_fill_def
          reportable_def fillEnvelope_def Let_def)
  qed
qed

text \<open>The texts that reach the report of an open: the command name, and the executable's path when it is not an allowed one.\<close>

definition cert_texts_utf8 :: "lsm_env \<Rightarrow> string \<Rightarrow> string list \<Rightarrow> bool" where
  "cert_texts_utf8 env exe allowed \<longleftrightarrow> utf8 (boundedString (le_comm env)) \<and> (exe \<notin> set allowed \<longrightarrow> utf8 exe)"

text \<open>What the deny branch answers, and what the log says of it, need not agree: outside shadow mode an
  opener that calls itself bmcweb is let through by the hook, and when its executable is not
  allowed the event still reads as denied.\<close>

lemma spoofed_comm_not_denied:
  assumes "d_path_helper d" "take 6 (le_comm env) = ''bmcweb''" "length (le_comm env) = 16"
    and "resolveRealExePath readlink (ucast (le_pid_tgid env)) \<notin> set allowed"
  shows "fst (https_guard_cert_open d False env HTTPS_GUARD_CERT_PATH events) = 0"
    and "\<exists>m v s. CertAccessDetection_inspect readlink allowed (encode_lsm_event (lsm_event env False True)) EventMeta_init = (Some v, m)
           \<and> message v = s @ '' Access was denied.''"
proof -
  show "fst (https_guard_cert_open d False env HTTPS_GUARD_CERT_PATH events) = 0"
    using d_path_helper.matches_exactly [OF assms(1) cert_path_fits] assms(2)
    by (simp add: https_guard_cert_open_def comm_match Let_def)
  have "decode_lsm_event (encode_lsm_event (lsm_event env False True)) = Some (lsm_event env False True)"
    using decode_encode_lsm [OF lsm_event_wf [OF assms(3)], of False True "[]"] by simp
  then show "\<exists>m v s. CertAccessDetection_inspect readlink allowed (encode_lsm_event (lsm_event env False True)) EventMeta_init = (Some v, m)
       \<and> message v = s @ '' Access was denied.''"
    using assms(4) by (simp add: CertAccessDetection_inspect_def CertAccessDetector_evaluate_def CertAccessEvent_def Let_def
        lsm_event_def zero_lsm_event_def)
qed

section \<open>Properties\<close>

text \<open>C35: Certificate opens, from the hook to the log.  An open of any other path is let through in
  silence.  An open of the certificate file submits one event when the ring buffer has room; the hook
  denies it only outside shadow mode, and then exactly when the first six characters of the
  command name are not \<open>bmcweb\<close>.  The event, decoded and classified, is reported as a certificate
  violation iff the executable behind the opener's pid is not an allowed one (an unresolvable
  executable included), and whichever verdict it gets, the one action dispatched is a log entry: provided the texts
  of the report, the command name and, for a violation, the executable's path, are valid UTF-8.  Otherwise the JSON library throws, and
  the open is not logged at all.\<close>

theorem cert_open_observed:
  assumes "d_path_helper d" "length (le_comm env) = 16" "[] \<notin> set allowed" "dc_action_loop ctx" "strict_dump dump" "utf8 now"
    and "https_guard_cert_open d shadow env path events = (rc, events')"
  shows "(path \<noteq> HTTPS_GUARD_CERT_PATH \<longrightarrow> rc = 0 \<and> events' = events)
       \<and> (path = HTTPS_GUARD_CERT_PATH \<longrightarrow>
            rc = (if shadow \<or> take 6 (le_comm env) = ''bmcweb'' then 0 else - HG_EACCES)
            \<and> (\<exists>e. events' = (if le_reserve env then events @ [e] else events)
                \<and> (ca_comm_mismatch (lsm_cert e) = 0 \<longleftrightarrow> take 6 (le_comm env) = ''bmcweb'')
                \<and> hdr_pid (lsm_hdr e) = ucast (le_pid_tgid env)
                \<and> (\<exists>n v m. first_verdict (lsm_detections readlink allowed) (encode_lsm_event e) = Some (n, v, m)
                    \<and> (n = ''cert_access'' \<longleftrightarrow> resolveRealExePath readlink (hdr_pid (lsm_hdr e)) \<notin> set allowed)
                    \<and> (case dispatchVerdict res dump now m v ctx of
                         None \<Rightarrow> \<not> cert_texts_utf8 env (resolveRealExePath readlink (hdr_pid (lsm_hdr e))) allowed
                       | Some (actions, k) \<Rightarrow> cert_texts_utf8 env (resolveRealExePath readlink (hdr_pid (lsm_hdr e))) allowed
                           \<and> (\<exists>l. actions = [Log l])))))"
proof -
  have m: "https_guard_path_matches d path HTTPS_GUARD_CERT_PATH \<longleftrightarrow> path = HTTPS_GUARD_CERT_PATH"
    by (rule d_path_helper.matches_exactly [OF assms(1) cert_path_fits])
  define ok where "ok = (take 6 (le_comm env) = ''bmcweb'')"
  have bm: "bytes_match (le_comm env) HTTPS_GUARD_BMCWEB_COMM = ok"
    by (simp add: comm_match ok_def)
  let ?e = "lsm_event env shadow ok"
  have d: "decode_lsm_event (encode_lsm_event ?e) = Some ?e"
    using decode_encode_lsm [OF lsm_event_wf [OF assms(2)], of shadow ok "[]"] by simp
  have f: "(ca_comm_mismatch (lsm_cert ?e) = 0 \<longleftrightarrow> ok) \<and> hdr_pid (lsm_hdr ?e) = ucast (le_pid_tgid env)"
    by (simp add: lsm_event_def)
  let ?exe = "resolveRealExePath readlink (hdr_pid (lsm_hdr ?e))"
  obtain n v mm where v: "first_verdict (lsm_detections readlink allowed) (encode_lsm_event ?e) = Some (n, v, mm)" "\<not> actionable v"
      "n = ''cert_access'' \<longleftrightarrow> ?exe \<notin> set allowed" "reportable v \<longleftrightarrow> cert_texts_utf8 env ?exe allowed"
    using lsm_verdict [OF d assms(3), of readlink] by (auto simp: cert_texts_utf8_def lsm_event_def)
  have "case dispatchVerdict res dump now mm v ctx of None \<Rightarrow> \<not> cert_texts_utf8 env ?exe allowed
      | Some (actions, k) \<Rightarrow> cert_texts_utf8 env ?exe allowed \<and> (\<exists>l. actions = [Log l])"
    using dispatch_throws [OF assms(4-6), of res mm v] dispatch_actions [OF assms(4), of res dump now mm v] v(2,4)
    by (auto split: option.split)
  then have ev: "\<exists>n v m. first_verdict (lsm_detections readlink allowed) (encode_lsm_event ?e) = Some (n, v, m)
      \<and> (n = ''cert_access'' \<longleftrightarrow> ?exe \<notin> set allowed)
      \<and> (case dispatchVerdict res dump now m v ctx of None \<Rightarrow> \<not> cert_texts_utf8 env ?exe allowed
         | Some (actions, k) \<Rightarrow> cert_texts_utf8 env ?exe allowed \<and> (\<exists>l. actions = [Log l]))" using v by blast
  have "path = HTTPS_GUARD_CERT_PATH \<Longrightarrow> rc = (if shadow \<or> ok then 0 else - HG_EACCES) \<and>
      events' = (if le_reserve env then events @ [?e] else events)"
    using assms(7) m by (auto simp: https_guard_cert_open_def bm Let_def split: if_splits)
  moreover have "path \<noteq> HTTPS_GUARD_CERT_PATH \<Longrightarrow> rc = 0 \<and> events' = events"
    using assms(7) m by (simp add: https_guard_cert_open_def)
  ultimately show ?thesis using f ev unfolding ok_def [symmetric] by blast
qed

theorem cert_open_observed_witness:
  "fst (https_guard_cert_open d_path_model shadow_mode
     \<lparr>le_comm = ''cat'' @ replicate 13 NUL, le_reserve = True, le_now = 1, le_pid_tgid = 7, le_cgroup_id = 2\<rparr>
     HTTPS_GUARD_CERT_PATH []) = 0"
proof -
  let ?env = "\<lparr>le_comm = ''cat'' @ replicate 13 NUL, le_reserve = True, le_now = 1, le_pid_tgid = 7, le_cgroup_id = 2\<rparr>"
  obtain rc ev where r: "https_guard_cert_open d_path_model shadow_mode ?env HTTPS_GUARD_CERT_PATH [] = (rc, ev)" by fastforce
  have "rc = 0"
    using cert_open_observed [OF dp.d_path_helper_axioms _ _ _ _ _ r, where now = "[]" and dump = "\<lambda>j. if json_utf8 j then Some [] else None" and allowed = "[''/usr/bin/bmcweb'']"
        and ctx = "\<lparr>dc_action_loop = True, dc_blocklist_ttl = 300, dc_output_path = []\<rparr>"]
    by (simp add: shadow_mode_def strict_dump_def)
  then show ?thesis using r by simp
qed

end
