(* ===== verification/Detect_Loop.thy ===== *)
theory Detect_Loop
  imports Dispatch "HOL-Library.Multiset"
begin

text \<open>
  \<open>detections/core/engine/DetectLoop.cpp\<close>: the queue between the ring-buffer callback and
  classification.  The state holds the atomics, the records posted on the strand that have not
  started (\<open>dl_queue\<close>), those that have started and are suspended in their parallel group
  (\<open>dl_running\<close>), and the action groups handed to \<open>ActionLoop\<close>.  One \<open>dl_exec\<close> is one atomic step
  of some thread: a \<open>submit\<close> of the poll thread, a record starting on the strand (in the order
  posted), a started record finishing (in any order: the coroutine is suspended in between and
  the strand runs others), \<open>configure\<close>, \<open>stop\<close>, and the executor coming to rest.  Whether an
  allocation fails, a detection throws or the dispatch throws is part of the step.  The counters
  are natural numbers: the code's are 64 bits wide.
\<close>

section \<open>Records and detections\<close>

text \<open>A detection pointer: \<open>None\<close> is null.  An inspection that throws returns \<open>None\<close>.\<close>

type_synonym detection = "string \<times> (u8 list \<Rightarrow> event_meta \<Rightarrow> (verdict option \<times> event_meta) option)"

record raw_record =
  rec_bytes :: "u8 list"
  rec_detections :: "detection option list"

definition kMaxDetectionsPerRecord :: nat where "kMaxDetectionsPerRecord = 8"
definition kMaxQueueDepth :: nat where "kMaxQueueDepth = 4096"

record detect_loop =
  dl_configured :: bool
  dl_stop :: bool
  dl_halted :: bool
  dl_in_flight :: nat
  dl_dropped :: nat
  dl_unconfigured :: nat
  dl_undetected :: nat
  dl_ctx :: dispatch_context
  dl_queue :: "raw_record list"
  dl_running :: "raw_record list"
  dl_pushed :: "action list list"

definition DetectLoop_init :: detect_loop where
  "DetectLoop_init =
     \<lparr>dl_configured = False, dl_stop = False, dl_halted = False, dl_in_flight = 0, dl_dropped = 0,
      dl_unconfigured = 0, dl_undetected = 0,
      dl_ctx = \<lparr>dc_action_loop = False, dc_blocklist_ttl = 0, dc_output_path = []\<rparr>,
      dl_queue = [], dl_running = [], dl_pushed = []\<rparr>"

section \<open>Operations\<close>

definition configure :: "int \<Rightarrow> string \<Rightarrow> detect_loop \<Rightarrow> detect_loop" where
  "configure blocklist_ttl output_path s =
     (if dl_configured s then s
      else if dl_stop s then s
      else s\<lparr>dl_ctx := \<lparr>dc_action_loop = True, dc_blocklist_ttl = blocklist_ttl, dc_output_path = output_path\<rparr>,
             dl_configured := True\<rparr>)"

definition countDrop :: "detect_loop \<Rightarrow> detect_loop" where
  "countDrop s = s\<lparr>dl_dropped := dl_dropped s + 1\<rparr>"

text \<open>What became of a submitted record.\<close>

datatype admission = Ignored | Unconfigured | Dropped | Admitted raw_record

definition submit :: "bool \<Rightarrow> u8 list \<Rightarrow> detection option list \<Rightarrow> detect_loop \<Rightarrow> admission \<times> detect_loop" where
  "submit alloc_ok data detections s =
     (if length data = 0 \<or> dl_stop s then (Ignored, s)
      else if \<not> dl_configured s then (Unconfigured, s\<lparr>dl_unconfigured := dl_unconfigured s + 1\<rparr>)
      else if detections = [] then (Dropped, countDrop s)
      else if kMaxDetectionsPerRecord < length detections then (Dropped, countDrop s)
      else if HG_MAX_RAW_EVENT_SIZE < length data then (Dropped, countDrop s)
      else if kMaxQueueDepth \<le> dl_in_flight s then (Dropped, countDrop s)
      else
        let s = s\<lparr>dl_in_flight := dl_in_flight s + 1\<rparr>;
            rec = \<lparr>rec_bytes = data, rec_detections = detections\<rparr>
        in if alloc_ok then (Admitted rec, s\<lparr>dl_queue := dl_queue s @ [rec]\<rparr>)
           else (Dropped, countDrop (s\<lparr>dl_in_flight := dl_in_flight s - 1\<rparr>)))"

text \<open>\<open>inspectOne\<close> on a meta of its own; \<open>None\<close> is an exception.\<close>

definition inspectOne :: "u8 list \<Rightarrow> detection option \<Rightarrow> (verdict option \<times> event_meta) option" where
  "inspectOne data d =
     (case d of None \<Rightarrow> Some (None, EventMeta_init) | Some (name, inspect) \<Rightarrow> inspect data EventMeta_init)"

text \<open>The lowest-index verdict among the results.\<close>

fun first_claim :: "(verdict option \<times> event_meta) list \<Rightarrow> (verdict \<times> event_meta) option" where
  "first_claim [] = None"
| "first_claim ((Some v, m) # rs) = Some (v, m)"
| "first_claim ((None, m) # rs) = first_claim rs"

text \<open>\<open>None\<close> is an exception that leaves \<open>process\<close>, from \<open>dispatchVerdict\<close>; nothing was changed by then.\<close>

definition process ::
  "peer_resolver \<Rightarrow> json_dump \<Rightarrow> string \<Rightarrow> raw_record \<Rightarrow> detect_loop \<Rightarrow> detect_loop option" where
  "process resolvePeer dump now rec s =
     (if length (rec_bytes rec) < 4 then Some s
      else
        let results = map (inspectOne (rec_bytes rec)) (rec_detections rec) in
        if None \<in> set results then Some s
        else case first_claim (map the results) of
          Some (v, m) \<Rightarrow>
            (case dispatchVerdict resolvePeer dump now m v (dl_ctx s) of
               None \<Rightarrow> None
             | Some (response, _) \<Rightarrow>
                 Some (if dc_action_loop (dl_ctx s) then s\<lparr>dl_pushed := dl_pushed s @ [response]\<rparr> else s))
        | None \<Rightarrow> Some (s\<lparr>dl_undetected := dl_undetected s + 1\<rparr>))"

text \<open>\<open>handleRecord\<close> up to its first suspension, and from there on.  An exception of \<open>process\<close> is caught;
  \<open>fault\<close> is one that is not a matter of the record, such as a failed allocation.\<close>

definition handleRecord_start :: "raw_record \<Rightarrow> detect_loop \<Rightarrow> detect_loop" where
  "handleRecord_start rec s =
     s\<lparr>dl_in_flight := dl_in_flight s - 1, dl_running := dl_running s @ [rec]\<rparr>"

definition handleRecord_finish ::
  "peer_resolver \<Rightarrow> json_dump \<Rightarrow> string \<Rightarrow> bool \<Rightarrow> raw_record \<Rightarrow> detect_loop \<Rightarrow> detect_loop" where
  "handleRecord_finish resolvePeer dump now fault rec s =
     (if fault then s
      else case process resolvePeer dump now rec s of None \<Rightarrow> s | Some s' \<Rightarrow> s')"

section \<open>Steps\<close>

datatype dl_label =
    Configure int string
  | Submit bool "u8 list" "detection option list"
  | Start
  | Finish nat bool
  | Stop
  | Halt

datatype dl_out = Out_none | Out_submit admission | Out_started raw_record | Out_finished raw_record

definition remove_nth :: "nat \<Rightarrow> 'a list \<Rightarrow> 'a list" where
  "remove_nth i xs = take i xs @ drop (Suc i) xs"

fun dl_exec ::
  "peer_resolver \<Rightarrow> json_dump \<Rightarrow> string \<Rightarrow> dl_label \<Rightarrow> detect_loop \<Rightarrow> (dl_out \<times> detect_loop) option" where
  "dl_exec res dump now (Configure ttl path) s = Some (Out_none, configure ttl path s)"
| "dl_exec res dump now (Submit alloc_ok data ds) s =
     (let (a, s') = submit alloc_ok data ds s in Some (Out_submit a, s'))"
| "dl_exec res dump now Start s =
     (if dl_halted s then None
      else case dl_queue s of
             [] \<Rightarrow> None
           | rec # q \<Rightarrow> Some (Out_started rec, handleRecord_start rec (s\<lparr>dl_queue := q\<rparr>)))"
| "dl_exec res dump now (Finish i fault) s =
     (if dl_halted s \<or> length (dl_running s) \<le> i then None
      else let rec = dl_running s ! i in
        Some (Out_finished rec,
              handleRecord_finish res dump now fault rec (s\<lparr>dl_running := remove_nth i (dl_running s)\<rparr>)))"
| "dl_exec res dump now Stop s = Some (Out_none, s\<lparr>dl_stop := True\<rparr>)"
| "dl_exec res dump now Halt s = (if dl_stop s then Some (Out_none, s\<lparr>dl_halted := True\<rparr>) else None)"

text \<open>Reachability, with the outputs so far.\<close>

inductive dl_reach :: "peer_resolver \<Rightarrow> json_dump \<Rightarrow> string \<Rightarrow> dl_out list \<Rightarrow> detect_loop \<Rightarrow> bool"
  for res dump now where
  init: "dl_reach res dump now [] DetectLoop_init"
| step: "dl_reach res dump now outs s \<Longrightarrow> dl_exec res dump now l s = Some (o', s')
         \<Longrightarrow> dl_reach res dump now (outs @ [o']) s'"

inductive_cases dl_reach_snocE: "dl_reach res dump now (outs @ [x]) s"

definition admitted :: "dl_out list \<Rightarrow> raw_record list" where
  "admitted outs = concat (map (\<lambda>x. case x of Out_submit (Admitted r) \<Rightarrow> [r] | _ \<Rightarrow> []) outs)"

definition started :: "dl_out list \<Rightarrow> raw_record list" where
  "started outs = concat (map (\<lambda>x. case x of Out_started r \<Rightarrow> [r] | _ \<Rightarrow> []) outs)"

definition finished :: "dl_out list \<Rightarrow> raw_record list" where
  "finished outs = concat (map (\<lambda>x. case x of Out_finished r \<Rightarrow> [r] | _ \<Rightarrow> []) outs)"

definition submissions :: "admission \<Rightarrow> dl_out list \<Rightarrow> nat" where
  "submissions a outs = length (filter (\<lambda>x. x = Out_submit a) outs)"

lemma outs_simps [simp]:
  "admitted [] = []" "started [] = []" "finished [] = []" "submissions a [] = 0"
  "admitted (outs @ [x]) = admitted outs @ (case x of Out_submit (Admitted r) \<Rightarrow> [r] | _ \<Rightarrow> [])"
  "started (outs @ [x]) = started outs @ (case x of Out_started r \<Rightarrow> [r] | _ \<Rightarrow> [])"
  "finished (outs @ [x]) = finished outs @ (case x of Out_finished r \<Rightarrow> [r] | _ \<Rightarrow> [])"
  "submissions a (outs @ [x]) = submissions a outs + (if x = Out_submit a then 1 else 0)"
  by (simp_all add: admitted_def started_def finished_def submissions_def)

section \<open>The invariant\<close>

definition wf_record :: "raw_record \<Rightarrow> bool" where
  "wf_record r \<longleftrightarrow> 0 < length (rec_bytes r) \<and> length (rec_bytes r) \<le> HG_MAX_RAW_EVENT_SIZE \<and>
     rec_detections r \<noteq> [] \<and> length (rec_detections r) \<le> kMaxDetectionsPerRecord"

definition dl_inv :: "dl_out list \<Rightarrow> detect_loop \<Rightarrow> bool" where
  "dl_inv outs s \<longleftrightarrow>
     dl_in_flight s = length (dl_queue s) \<and> dl_in_flight s \<le> kMaxQueueDepth \<and>
     admitted outs = started outs @ dl_queue s \<and>
     mset (started outs) = mset (finished outs) + mset (dl_running s) \<and>
     dl_dropped s = submissions Dropped outs \<and> dl_unconfigured s = submissions Unconfigured outs \<and>
     length (dl_pushed s) + dl_undetected s \<le> length (finished outs) \<and>
     (dl_configured s \<longrightarrow> dc_action_loop (dl_ctx s)) \<and> (admitted outs \<noteq> [] \<longrightarrow> dl_configured s) \<and>
     list_all wf_record (admitted outs)"

lemma mset_remove_nth: "i < length xs \<Longrightarrow> mset xs = mset (remove_nth i xs) + {#xs ! i#}"
  by (subst id_take_nth_drop [of i xs]) (simp_all add: remove_nth_def)

lemma dl_inv_configure: "dl_inv outs s \<Longrightarrow> dl_inv (outs @ [Out_none]) (configure ttl path s)"
  by (auto simp: dl_inv_def configure_def)

lemma dl_inv_submit:
  "dl_inv outs s \<Longrightarrow> submit ok data ds s = (a, s') \<Longrightarrow> dl_inv (outs @ [Out_submit a]) s'"
  by (auto simp: dl_inv_def submit_def countDrop_def wf_record_def Let_def split: if_splits)

lemma dl_inv_start:
  "dl_inv outs s \<Longrightarrow> dl_queue s = r # q \<Longrightarrow> dl_inv (outs @ [Out_started r]) (handleRecord_start r (s\<lparr>dl_queue := q\<rparr>))"
  by (auto simp: dl_inv_def handleRecord_start_def)

lemma process_frame:
  assumes "process res dump now r s = Some s'"
  shows "dl_in_flight s' = dl_in_flight s" "dl_queue s' = dl_queue s" "dl_running s' = dl_running s" "dl_dropped s' = dl_dropped s"
    "dl_unconfigured s' = dl_unconfigured s" "dl_ctx s' = dl_ctx s" "dl_configured s' = dl_configured s" "dl_stop s' = dl_stop s"
    "dl_halted s' = dl_halted s"
  using assms by (auto simp: process_def Let_def split: option.splits if_splits prod.splits)

lemma process_counts:
  "process res dump now r s = Some s' \<Longrightarrow> length (dl_pushed s') + dl_undetected s' \<le> Suc (length (dl_pushed s) + dl_undetected s)"
  by (auto simp: process_def Let_def split: option.splits if_splits prod.splits)

lemma dl_inv_finish:
  assumes "dl_inv outs s" "i < length (dl_running s)"
  shows "dl_inv (outs @ [Out_finished (dl_running s ! i)])
     (handleRecord_finish res dump now fault (dl_running s ! i) (s\<lparr>dl_running := remove_nth i (dl_running s)\<rparr>))"
proof -
  let ?s = "s\<lparr>dl_running := remove_nth i (dl_running s)\<rparr>"
  have "length (dl_pushed s') + dl_undetected s' \<le> Suc (length (finished outs))"
    if "process res dump now (dl_running s ! i) ?s = Some s'" for s'
    using process_counts [OF that] assms(1) by (simp add: dl_inv_def)
  then show ?thesis using assms(1) mset_remove_nth [OF assms(2)]
    by (auto simp: dl_inv_def handleRecord_finish_def process_frame split: option.split)
qed

lemma dl_reach_inv: "dl_reach res dump now outs s \<Longrightarrow> dl_inv outs s"
proof (induction rule: dl_reach.induct)
  case init
  then show ?case by (simp add: dl_inv_def DetectLoop_init_def)
next
  case (step outs s l o' s')
  then show ?case
  proof (cases l)
    case (Finish i fault)
    then show ?thesis using step by (auto simp: Let_def dl_inv_finish split: if_splits)
  next
    case Stop
    then show ?thesis using step by (auto simp: dl_inv_def)
  next
    case Halt
    then show ?thesis using step by (auto simp: dl_inv_def split: if_splits)
  qed (auto simp: dl_inv_configure dl_inv_submit dl_inv_start split: if_splits list.splits prod.splits)
qed

lemma first_claim_first_verdict:
  assumes "\<forall>d \<in> set ds. \<exists>n f. d = Some (n, \<lambda>x m. Some (f x m))"
  shows "first_claim (map the (map (inspectOne data) ds)) =
     map_option snd (first_verdict (map (\<lambda>d. (fst (the d), \<lambda>x m. the (snd (the d) x m))) ds) data)"
  using assms
proof (induction ds)
  case (Cons d ds)
  then obtain n f where d: "d = Some (n, \<lambda>x m. Some (f x m))" by auto
  obtain v m where "f data EventMeta_init = (v, m)" by fastforce
  with Cons d show ?case by (cases v) (auto simp: inspectOne_def)
qed simp

section \<open>The hooks' lists\<close>

text \<open>What the loop expects of a hook: a list within the record's bounds that claims every record of
  its size.\<close>

definition as_detections :: "(string \<times> inspect) list \<Rightarrow> detection option list" where
  "as_detections ds = map (\<lambda>(n, f). Some (n, \<lambda>x m. Some (f x m))) ds"

lemma as_detections_inverse: "map (\<lambda>d. (fst (the d), \<lambda>x m. the (snd (the d) x m))) (as_detections ds) = ds"
  by (induction ds) (auto simp: as_detections_def)

lemma first_claim_listed:
  "first_claim (map the (map (inspectOne data) (as_detections ds))) = map_option snd (first_verdict ds data)"
proof -
  have "\<forall>d \<in> set (as_detections ds). \<exists>n f. d = Some (n, \<lambda>x m. Some (f x m))" by (auto simp: as_detections_def)
  from first_claim_first_verdict [OF this, of data] show ?thesis by (simp only: as_detections_inverse)
qed

lemma inspect_listed: "None \<notin> set (map (inspectOne data) (as_detections ds))"
  by (auto simp: as_detections_def inspectOne_def)

lemma process_listed:
  assumes "rec_detections r = as_detections ds" "4 \<le> length (rec_bytes r)" "dc_action_loop (dl_ctx s)"
  shows "process res dump now r s =
     (case first_verdict ds (rec_bytes r) of
        None \<Rightarrow> Some (s\<lparr>dl_undetected := dl_undetected s + 1\<rparr>)
      | Some (n, v, m) \<Rightarrow>
          map_option (\<lambda>(response, _). s\<lparr>dl_pushed := dl_pushed s @ [response]\<rparr>) (dispatchVerdict res dump now m v (dl_ctx s)))"
  unfolding process_def Let_def assms(1)
  using assms(2,3) inspect_listed [of "rec_bytes r" ds] first_claim_listed [of "rec_bytes r" ds]
  by (simp split: option.split prod.split)

locale hook_list =
  fixes ds :: "(string \<times> inspect) list" and sz :: nat
  assumes nonempty: "ds \<noteq> []" and bounded: "length ds \<le> kMaxDetectionsPerRecord"
    and total: "sz \<le> length data \<Longrightarrow> first_verdict ds data \<noteq> None" and size: "4 \<le> sz" "sz \<le> HG_MAX_RAW_EVENT_SIZE"
begin

lemma claimed:
  assumes "rec_detections r = as_detections ds" "sz \<le> length (rec_bytes r)" "dc_action_loop (dl_ctx s)"
  shows "\<exists>n v m. first_verdict ds (rec_bytes r) = Some (n, v, m) \<and>
     process res dump now r s =
       map_option (\<lambda>(response, _). s\<lparr>dl_pushed := dl_pushed s @ [response]\<rparr>) (dispatchVerdict res dump now m v (dl_ctx s))"
proof -
  obtain n v m where fv: "first_verdict ds (rec_bytes r) = Some (n, v, m)"
    using total [OF assms(2)] by auto
  have "4 \<le> length (rec_bytes r)" using assms(2) size by simp
  from process_listed [OF assms(1) this assms(3), of res dump now] fv show ?thesis by simp
qed

lemma accepted:
  assumes "dl_configured s" "\<not> dl_stop s" "dl_in_flight s < kMaxQueueDepth" "sz \<le> length data"
    "length data \<le> HG_MAX_RAW_EVENT_SIZE"
  shows "\<exists>r. fst (submit True data (as_detections ds) s) = Admitted r \<and> rec_bytes r = data
     \<and> rec_detections r = as_detections ds"
  using assms nonempty bounded size by (auto simp: submit_def as_detections_def Let_def)

end

lemma first_verdict_last:
  "fst (f data EventMeta_init) \<noteq> None \<Longrightarrow> first_verdict (ds @ [(n, f)]) data \<noteq> None"
  by (induction ds) (auto split: prod.splits option.splits)

lemma traffic_observed_total:
  "rt_decode rt data \<noteq> None \<Longrightarrow> fst (TrafficObservedDetection_inspect rt data m) \<noteq> None"
  by (auto simp: TrafficObservedDetection_inspect_def Let_def)

lemma traffic_observed_last:
  assumes "ds = front @ [(n, TrafficObservedDetection_inspect rt)]" "rt_decode rt data \<noteq> None"
  shows "first_verdict ds data \<noteq> None"
  unfolding assms(1) by (rule first_verdict_last) (rule traffic_observed_total [OF assms(2)])

lemma decode_total:
  "sizeof_xdp_event \<le> length data \<Longrightarrow> decode_xdp_event data \<noteq> None"
  "sizeof_uprobe_event \<le> length data \<Longrightarrow> decode_uprobe_event data \<noteq> None"
  "sizeof_lsm_event \<le> length data \<Longrightarrow> decode_lsm_event data \<noteq> None"
  by (auto simp: decode_xdp_event_def decode_uprobe_event_def decode_lsm_event_def Let_def)

interpretation xdp_list: hook_list "xdp_detections sni" sizeof_xdp_event for sni
proof
  fix data :: "u8 list"
  assume "sizeof_xdp_event \<le> length data"
  then show "first_verdict (xdp_detections sni) data \<noteq> None"
    by (intro traffic_observed_last [of _ "take 4 (xdp_detections sni)" "''traffic_observed''" xdp_traits])
       (simp_all add: xdp_detections_def xdp_traits_def decode_total)
qed (simp_all add: xdp_detections_def kMaxDetectionsPerRecord_def sizeof_xdp_event_def HG_MAX_RAW_EVENT_SIZE_def)

interpretation uprobe_list: hook_list uprobe_detections sizeof_uprobe_event
proof
  fix data :: "u8 list"
  assume "sizeof_uprobe_event \<le> length data"
  then show "first_verdict uprobe_detections data \<noteq> None"
    by (intro traffic_observed_last [of _ "take 2 uprobe_detections" "''traffic_observed''" "uprobe_traits True"])
       (simp_all add: uprobe_detections_def uprobe_traits_def decode_total)
qed (simp_all add: uprobe_detections_def kMaxDetectionsPerRecord_def sizeof_uprobe_event_def HG_MAX_RAW_EVENT_SIZE_def)

interpretation lsm_list: hook_list "lsm_detections readlink allowed" sizeof_lsm_event for readlink allowed
proof
  fix data :: "u8 list"
  assume "sizeof_lsm_event \<le> length data"
  then show "first_verdict (lsm_detections readlink allowed) data \<noteq> None"
    by (intro traffic_observed_last [of _ "take 1 (lsm_detections readlink allowed)" "''traffic_observed''" lsm_traits])
       (simp_all add: lsm_detections_def lsm_traits_def decode_total)
qed (simp_all add: lsm_detections_def kMaxDetectionsPerRecord_def sizeof_lsm_event_def HG_MAX_RAW_EVENT_SIZE_def)

section \<open>Properties\<close>

text \<open>C10: in every reachable state of the loop, whatever the interleaving of submits, starts, completions,
  failures and stop: the in-flight count is exactly the length of the queue and at most 4096,
  records start in the order they were admitted and none is lost or duplicated (the admitted
  records are the started ones followed by the queued ones, and the started ones are the finished
  ones and the running ones), every refused record is counted, and each finished record
  dispatched at most one group of actions.\<close>

theorem detect_loop_accounting:
  assumes "dl_reach res dump now outs s"
  shows "dl_in_flight s = length (dl_queue s) \<and> dl_in_flight s \<le> kMaxQueueDepth
       \<and> admitted outs = started outs @ dl_queue s
       \<and> mset (started outs) = mset (finished outs) + mset (dl_running s)
       \<and> dl_dropped s = submissions Dropped outs \<and> dl_unconfigured s = submissions Unconfigured outs
       \<and> length (dl_pushed s) + dl_undetected s \<le> length (finished outs)"
  using dl_reach_inv [OF assms] by (simp add: dl_inv_def)

theorem detect_loop_accounting_witness:
  "\<exists>s. dl_reach (\<lambda>m. (False, m)) (\<lambda>_. Some []) [] [Out_submit Unconfigured, Out_none, Out_submit Dropped] s
     \<and> dl_dropped s = 1 \<and> dl_unconfigured s = 1 \<and> dl_in_flight s = 0"
proof -
  let ?r = "\<lambda>m :: event_meta. (False, m)" and ?d = "\<lambda>_ :: json. Some ([] :: string)"
  let ?s1 = "DetectLoop_init\<lparr>dl_unconfigured := 1\<rparr>"
  have 1: "dl_reach ?r ?d [] ([] @ [Out_submit Unconfigured]) ?s1"
    by (rule dl_reach.step [OF dl_reach.init, of _ _ _ "Submit True [1] []"])
       (simp add: submit_def DetectLoop_init_def)
  have 2: "dl_reach ?r ?d [] (([] @ [Out_submit Unconfigured]) @ [Out_none]) (configure 300 ''p'' ?s1)"
    by (rule dl_reach.step [OF 1, of "Configure 300 ''p''"]) simp
  have 3: "dl_reach ?r ?d [] ((([] @ [Out_submit Unconfigured]) @ [Out_none]) @ [Out_submit Dropped])
      (countDrop (configure 300 ''p'' ?s1))"
    by (rule dl_reach.step [OF 2, of "Submit True [1] []"])
       (simp add: submit_def DetectLoop_init_def configure_def countDrop_def)
  have "dl_in_flight (countDrop (configure 300 ''p'' ?s1)) = 0"
    by (simp add: countDrop_def configure_def DetectLoop_init_def)
  then show ?thesis using 3 detect_loop_accounting [OF 3]
    by (intro exI [of _ "countDrop (configure 300 ''p'' ?s1)"]) (simp add: submissions_def)
qed

text \<open>Every full-size record of a hook is claimed.  Processing a record that carries the XDP list and
  has the size of \<open>struct xdp_event\<close> or more dispatches exactly one group of actions, that of the
  first verdict of the list, unless the dispatch throws, and is never counted as undetected; the same holds for the uprobe and
  the LSM lists at their sizes.\<close>

theorem full_records_claimed:
  assumes "dc_action_loop (dl_ctx s)"
    and "(rec_detections r = as_detections (xdp_detections sni) \<and> ds = xdp_detections sni \<and> sizeof_xdp_event \<le> length (rec_bytes r))
       \<or> (rec_detections r = as_detections uprobe_detections \<and> ds = uprobe_detections \<and> sizeof_uprobe_event \<le> length (rec_bytes r))
       \<or> (rec_detections r = as_detections (lsm_detections readlink allowed) \<and> ds = lsm_detections readlink allowed
            \<and> sizeof_lsm_event \<le> length (rec_bytes r))"
  shows "\<exists>n v m. first_verdict ds (rec_bytes r) = Some (n, v, m) \<and>
     process res dump now r s =
       map_option (\<lambda>(response, _). s\<lparr>dl_pushed := dl_pushed s @ [response]\<rparr>) (dispatchVerdict res dump now m v (dl_ctx s))"
  using assms(2)
proof (elim disjE conjE)
  assume "rec_detections r = as_detections (xdp_detections sni)" "ds = xdp_detections sni"
    "sizeof_xdp_event \<le> length (rec_bytes r)"
  then show ?thesis using xdp_list.claimed [OF _ _ assms(1)] by blast
next
  assume "rec_detections r = as_detections uprobe_detections" "ds = uprobe_detections"
    "sizeof_uprobe_event \<le> length (rec_bytes r)"
  then show ?thesis using uprobe_list.claimed [OF _ _ assms(1)] by blast
next
  assume "rec_detections r = as_detections (lsm_detections readlink allowed)" "ds = lsm_detections readlink allowed"
    "sizeof_lsm_event \<le> length (rec_bytes r)"
  then show ?thesis using lsm_list.claimed [OF _ _ assms(1)] by blast
qed

theorem full_records_claimed_witness:
  "\<forall>s. process (\<lambda>m. (False, m)) (\<lambda>_. Some []) []
     \<lparr>rec_bytes = replicate 224 0, rec_detections = as_detections uprobe_detections\<rparr>
     (configure 300 ''p'' DetectLoop_init) = Some s \<longrightarrow> dl_undetected s = 0"
proof -
  let ?r = "\<lparr>rec_bytes = replicate 224 0, rec_detections = as_detections uprobe_detections\<rparr>"
  have "dc_action_loop (dl_ctx (configure 300 ''p'' DetectLoop_init))"
    by (simp add: configure_def DetectLoop_init_def)
  then show ?thesis
    using full_records_claimed [of "configure 300 ''p'' DetectLoop_init" ?r _ uprobe_detections _ _ "\<lambda>m. (False, m)" "\<lambda>_. Some []" "[]"]
    by (auto simp: sizeof_uprobe_event_def configure_def DetectLoop_init_def eq_commute [of "Some _" "map_option _ _"])
qed

end
