(* ===== verification/Hooks.thy ===== *)
theory Hooks
  imports Detect_Loop
begin

text \<open>
  The hook modules: \<open>programs/ssl_uprobe/src/SslUprobeProgram.cpp\<close>,
  \<open>programs/xdp_tls/src/XdpTlsProgram.cpp\<close> and \<open>programs/lsm_cert_guard/src/LsmCertGuardProgram.cpp\<close>
  over their base \<open>programs/core/src/BpfProgram.cpp\<close>: attaching, the event source each owns, the
  detections each submits, and the XDP module's clean-up of a leaked attachment and its destructor.

  What libbpf and the kernel answer is the record \<open>bpf_env\<close>, an argument.  The process keeps the
  calls that acquire and release something in order (\<open>pw_calls\<close>); handles are numbered as they are
  handed out, so two live ones never coincide.
\<close>

section \<open>libbpf\<close>

datatype bpf_resource = Object nat | Ring nat | Link nat | Prog_fd nat

datatype bpf_call =
    Acquire bpf_resource
  | Release bpf_resource
  | Xdp_attach u32 u32 bool
  | Xdp_detach u32

text \<open>A \<open>bpf_link*\<close> as returned: null, an error encoded in the pointer, or a link.\<close>

datatype link_result = Link_null | Link_err int | Link_ok

text \<open>A \<open>bpf_link*\<close> as kept in the vector of links.\<close>

datatype link_ptr = Err_ptr int | Link_ptr nat

record process_world =
  pw_next :: nat
  pw_calls :: "bpf_call list"

record bpf_env =
  be_open :: bool
  be_load :: int
  be_program :: "string \<Rightarrow> bool"
  be_program_fd :: "string \<Rightarrow> int"
  be_map_fd :: "string \<Rightarrow> int"
  be_ring :: bool
  be_uprobe :: "string \<Rightarrow> string \<Rightarrow> string \<Rightarrow> bool \<Rightarrow> link_result"
  be_kprobe :: "string \<Rightarrow> string \<Rightarrow> link_result"
  be_lsm :: "string \<Rightarrow> link_result"
  be_xdp_link :: "string \<Rightarrow> u32 \<Rightarrow> link_result"
  be_xdp_query :: "u32 \<Rightarrow> (u32 \<times> u32) option"
  be_fd_by_id :: "u32 \<Rightarrow> bool"
  be_prog_name :: "u32 \<Rightarrow> string option"
  be_xdp_attach :: "u32 \<Rightarrow> u32 \<Rightarrow> int"

definition log_call :: "bpf_call \<Rightarrow> process_world \<Rightarrow> process_world" where
  "log_call c w = w\<lparr>pw_calls := pw_calls w @ [c]\<rparr>"

definition acquire :: "(nat \<Rightarrow> bpf_resource) \<Rightarrow> process_world \<Rightarrow> nat \<times> process_world" where
  "acquire kind w = (pw_next w, log_call (Acquire (kind (pw_next w))) (w\<lparr>pw_next := pw_next w + 1\<rparr>))"

section \<open>The modules\<close>

record xdp_tls_program =
  xh_ifindex :: u32
  xh_expected_sni :: string
  xh_owns_legacy_attachment :: bool

datatype hook =
    SslUprobeProgram string
  | XdpTlsProgram xdp_tls_program
  | LsmCertGuardProgram "string list"

definition XdpTlsProgram_init :: "u32 \<Rightarrow> string \<Rightarrow> hook" where
  "XdpTlsProgram_init ifindex expected_sni =
     XdpTlsProgram \<lparr>xh_ifindex = ifindex, xh_expected_sni = expected_sni, xh_owns_legacy_attachment = False\<rparr>"

fun eventSource :: "hook \<Rightarrow> u32" where
  "eventSource (SslUprobeProgram lib) = HG_SOURCE_UPROBE"
| "eventSource (XdpTlsProgram x) = HG_SOURCE_XDP"
| "eventSource (LsmCertGuardProgram exes) = HG_SOURCE_LSM_CERT_GUARD"

fun hook_detections :: "readlink \<Rightarrow> hook \<Rightarrow> (string \<times> inspect) list" where
  "hook_detections rl (SslUprobeProgram lib) = uprobe_detections"
| "hook_detections rl (XdpTlsProgram x) = xdp_detections (xh_expected_sni x)"
| "hook_detections rl (LsmCertGuardProgram exes) = lsm_detections rl exes"

definition ringBufferHandler :: "readlink \<Rightarrow> bool \<Rightarrow> hook \<Rightarrow> u8 list \<Rightarrow> detect_loop \<Rightarrow> detect_loop" where
  "ringBufferHandler rl alloc_ok h data dl = snd (submit alloc_ok data (as_detections (hook_detections rl h)) dl)"

text \<open>\<open>BpfProgram::ringBufferHandler\<close>, for a module that does not override it.\<close>

definition BpfProgram_ringBufferHandler :: "bool \<Rightarrow> u8 list \<Rightarrow> detect_loop \<Rightarrow> detect_loop" where
  "BpfProgram_ringBufferHandler alloc_ok data dl = snd (submit alloc_ok data [] dl)"

section \<open>Attaching\<close>

type_synonym attach_state = "link_ptr list \<times> process_world"

text \<open>The call that makes a link, and the pointer it returns.\<close>

fun make_link :: "link_result \<Rightarrow> process_world \<Rightarrow> link_ptr option \<times> process_world" where
  "make_link Link_null w = (None, w)"
| "make_link (Link_err e) w = (Some (Err_ptr e), w)"
| "make_link Link_ok w = (let (n, w) = acquire Link w in (Some (Link_ptr n), w))"

definition attachOneUprobe :: "bpf_env \<Rightarrow> string \<Rightarrow> string \<Rightarrow> string \<Rightarrow> bool \<Rightarrow> attach_state \<Rightarrow> bool \<times> attach_state" where
  "attachOneUprobe env bpf_prog_name target_func lib_path retprobe = (\<lambda>(links, w).
     if \<not> be_program env bpf_prog_name then (False, links, w)
     else case make_link (be_uprobe env bpf_prog_name target_func lib_path retprobe) w of
         (Some (Link_ptr n), w) \<Rightarrow> (True, links @ [Link_ptr n], w)
       | (_, w) \<Rightarrow> (False, links, w))"

definition attachOneKprobe :: "bpf_env \<Rightarrow> string \<Rightarrow> string \<Rightarrow> attach_state \<Rightarrow> bool \<times> attach_state" where
  "attachOneKprobe env bpf_prog_name target_func = (\<lambda>(links, w).
     if \<not> be_program env bpf_prog_name then (False, links, w)
     else case make_link (be_kprobe env bpf_prog_name target_func) w of
         (Some (Link_ptr n), w) \<Rightarrow> (True, links @ [Link_ptr n], w)
       | (_, w) \<Rightarrow> (False, links, w))"

definition SslUprobeProgram_attach :: "bpf_env \<Rightarrow> string \<Rightarrow> attach_state \<Rightarrow> bool \<times> attach_state" where
  "SslUprobeProgram_attach env lib s =
     (let (have_write, s) = attachOneUprobe env ''https_guard_ssl_write'' ''SSL_write'' lib False s;
          (have_read_entry, s) = attachOneUprobe env ''https_guard_ssl_read_entry'' ''SSL_read'' lib False s;
          (have_read_exit, s) = attachOneUprobe env ''https_guard_ssl_read_exit'' ''SSL_read'' lib True s;
          (have_accept, s) = attachOneUprobe env ''https_guard_ssl_accept'' ''SSL_accept'' lib False s;
          (have_connect, s) = attachOneUprobe env ''https_guard_ssl_connect'' ''SSL_connect'' lib False s;
          (have_free, s) = attachOneUprobe env ''https_guard_ssl_free'' ''SSL_free'' lib False s;
          (have_recvmsg, s) = attachOneKprobe env ''https_guard_tcp_recvmsg'' ''tcp_recvmsg'' s;
          (have_sendmsg, s) = attachOneKprobe env ''https_guard_tcp_sendmsg'' ''tcp_sendmsg'' s
      in (have_write, s))"

text \<open>\<open>strncmp(a, b, n) == 0\<close> on a char array \<open>a\<close> of at least \<open>n\<close> bytes and a literal \<open>b\<close>.\<close>

fun strncmp_eq :: "string \<Rightarrow> string \<Rightarrow> nat \<Rightarrow> bool" where
  "strncmp_eq a b 0 = True"
| "strncmp_eq (x # a) (y # b) (Suc n) = (x = y \<and> (x = CHR 0x00 \<or> strncmp_eq a b n))"
| "strncmp_eq (x # a) [] (Suc n) = (x = CHR 0x00)"
| "strncmp_eq [] b (Suc n) = False"

definition XDP_FLAGS_UPDATE_IF_NOEXIST :: u32 where "XDP_FLAGS_UPDATE_IF_NOEXIST = 1"
definition XDP_FLAGS_SKB_MODE :: u32 where "XDP_FLAGS_SKB_MODE = 2"
definition XDP_FLAGS_DRV_MODE :: u32 where "XDP_FLAGS_DRV_MODE = 4"

text \<open>\<open>BPF_OBJ_NAME_LEN\<close>, the size of \<open>bpf_prog_info::name\<close>.\<close>

definition BPF_OBJ_NAME_LEN :: nat where "BPF_OBJ_NAME_LEN = 16"

definition clearStaleAttachment :: "bpf_env \<Rightarrow> xdp_tls_program \<Rightarrow> process_world \<Rightarrow> process_world" where
  "clearStaleAttachment env x w =
     (case be_xdp_query env (xh_ifindex x) of
        None \<Rightarrow> w
      | Some (query_prog_id, skb_prog_id) \<Rightarrow>
          let prog_id = (if query_prog_id \<noteq> 0 then query_prog_id else skb_prog_id) in
          if prog_id = 0 then w
          else if \<not> be_fd_by_id env prog_id then w
          else
            let (prog_fd, w) = acquire Prog_fd w;
                info = be_prog_name env prog_id;
                is_ours = (case info of None \<Rightarrow> False
                           | Some name \<Rightarrow> strncmp_eq name ''https_guard_xdp'' BPF_OBJ_NAME_LEN);
                w = log_call (Release (Prog_fd prog_fd)) w
            in if \<not> is_ours then w else log_call (Xdp_detach (xh_ifindex x)) w)"

definition XdpTlsProgram_attach :: "bpf_env \<Rightarrow> xdp_tls_program \<Rightarrow> attach_state \<Rightarrow> bool \<times> xdp_tls_program \<times> attach_state" where
  "XdpTlsProgram_attach env x = (\<lambda>(links, w).
     if \<not> be_program env ''https_guard_xdp'' then (False, x, links, w)
     else
       case make_link (be_xdp_link env ''https_guard_xdp'' (xh_ifindex x)) (clearStaleAttachment env x w) of
         (Some (Link_ptr n), w) \<Rightarrow> (True, x, links @ [Link_ptr n], w)
       | (_, w) \<Rightarrow>
           if be_program_fd env ''https_guard_xdp'' < 0 then (False, x, links, w)
           else
             let native = XDP_FLAGS_DRV_MODE OR XDP_FLAGS_UPDATE_IF_NOEXIST;
                 native_err = be_xdp_attach env (xh_ifindex x) native;
                 w = log_call (Xdp_attach (xh_ifindex x) native (native_err = 0)) w
             in if native_err = 0 then (True, x\<lparr>xh_owns_legacy_attachment := True\<rparr>, links, w)
                else
                  let generic = XDP_FLAGS_SKB_MODE OR XDP_FLAGS_UPDATE_IF_NOEXIST;
                      generic_err = be_xdp_attach env (xh_ifindex x) generic;
                      w = log_call (Xdp_attach (xh_ifindex x) generic (generic_err = 0)) w
                  in if generic_err \<noteq> 0 then (False, x, links, w)
                     else (True, x\<lparr>xh_owns_legacy_attachment := True\<rparr>, links, w))"

definition XdpTlsProgram_destroy :: "xdp_tls_program \<Rightarrow> process_world \<Rightarrow> process_world" where
  "XdpTlsProgram_destroy x w =
     (if \<not> xh_owns_legacy_attachment x then w else log_call (Xdp_detach (xh_ifindex x)) w)"

text \<open>Only a null link is a failure here.\<close>

definition LsmCertGuardProgram_attach :: "bpf_env \<Rightarrow> attach_state \<Rightarrow> bool \<times> attach_state" where
  "LsmCertGuardProgram_attach env = (\<lambda>(links, w).
     if \<not> be_program env ''https_guard_cert_open'' then (False, links, w)
     else case make_link (be_lsm env ''https_guard_cert_open'') w of
         (None, w) \<Rightarrow> (False, links, w)
       | (Some link, w) \<Rightarrow> (True, links @ [link], w))"

text \<open>The virtual method \<open>attach\<close>, and the virtual destructor.\<close>

fun attach :: "bpf_env \<Rightarrow> hook \<Rightarrow> attach_state \<Rightarrow> bool \<times> hook \<times> attach_state" where
  "attach env (SslUprobeProgram lib) s = (let (ok, s) = SslUprobeProgram_attach env lib s in (ok, SslUprobeProgram lib, s))"
| "attach env (XdpTlsProgram x) s = (let (ok, x, s) = XdpTlsProgram_attach env x s in (ok, XdpTlsProgram x, s))"
| "attach env (LsmCertGuardProgram exes) s =
     (let (ok, s) = LsmCertGuardProgram_attach env s in (ok, LsmCertGuardProgram exes, s))"

fun hook_destroy :: "hook \<Rightarrow> process_world \<Rightarrow> process_world" where
  "hook_destroy (XdpTlsProgram x) w = XdpTlsProgram_destroy x w"
| "hook_destroy _ w = w"

section \<open>What an attachment may do\<close>

fun handle :: "bpf_resource \<Rightarrow> nat" where
  "handle (Object n) = n" | "handle (Ring n) = n" | "handle (Link n) = n" | "handle (Prog_fd n) = n"

fun acquired :: "bpf_call list \<Rightarrow> bpf_resource list" where
  "acquired [] = []"
| "acquired (Acquire r # cs) = r # acquired cs"
| "acquired (_ # cs) = acquired cs"

fun released :: "bpf_call list \<Rightarrow> bpf_resource list" where
  "released [] = []"
| "released (Release r # cs) = r # released cs"
| "released (_ # cs) = released cs"

fun held_links :: "link_ptr list \<Rightarrow> bpf_resource list" where
  "held_links [] = []"
| "held_links (Link_ptr n # ls) = Link n # held_links ls"
| "held_links (Err_ptr e # ls) = held_links ls"

lemma acquired_append [simp]: "acquired (cs @ ds) = acquired cs @ acquired ds"
  by (induction cs rule: acquired.induct) simp_all

lemma released_append [simp]: "released (cs @ ds) = released cs @ released ds"
  by (induction cs rule: released.induct) simp_all

lemma held_links_append [simp]: "held_links (ls @ ks) = held_links ls @ held_links ks"
  by (induction ls rule: held_links.induct) simp_all

text \<open>From one state to a later one: links are only added, and whatever the calls in between acquired is
  released again or now held; handles are consecutive.\<close>

definition extends :: "attach_state \<Rightarrow> attach_state \<Rightarrow> bool" where
  "extends s s' \<longleftrightarrow> (\<exists>new cs. fst s' = fst s @ new \<and> pw_calls (snd s') = pw_calls (snd s) @ cs \<and>
     mset (acquired cs) = mset (released cs) + mset (held_links new) \<and> pw_next (snd s) \<le> pw_next (snd s') \<and>
     map handle (acquired cs) = [pw_next (snd s)..<pw_next (snd s')])"

lemma extendsI:
  assumes "ls' = ls @ new" "pw_calls w' = pw_calls w @ cs"
    "mset (acquired cs) = mset (released cs) + mset (held_links new)" "pw_next w \<le> pw_next w'"
    "map handle (acquired cs) = [pw_next w..<pw_next w']"
  shows "extends (ls, w) (ls', w')"
  unfolding extends_def using assms by auto

lemma extends_refl [simp]: "extends s s"
  unfolding extends_def by (intro exI [of _ "[]"]) simp

lemma extends_trans:
  assumes "extends s t" "extends t u" shows "extends s u"
proof -
  obtain n1 c1 where 1: "fst t = fst s @ n1" "pw_calls (snd t) = pw_calls (snd s) @ c1"
      "mset (acquired c1) = mset (released c1) + mset (held_links n1)" "pw_next (snd s) \<le> pw_next (snd t)"
      "map handle (acquired c1) = [pw_next (snd s)..<pw_next (snd t)]"
    using assms(1) by (auto simp: extends_def)
  obtain n2 c2 where 2: "fst u = fst t @ n2" "pw_calls (snd u) = pw_calls (snd t) @ c2"
      "mset (acquired c2) = mset (released c2) + mset (held_links n2)" "pw_next (snd t) \<le> pw_next (snd u)"
      "map handle (acquired c2) = [pw_next (snd t)..<pw_next (snd u)]"
    using assms(2) by (auto simp: extends_def)
  show ?thesis unfolding extends_def
    using 1 2 upt_add_eq_append [of "pw_next (snd s)" "pw_next (snd t)" "pw_next (snd u) - pw_next (snd t)"]
    by (intro exI [of _ "n1 @ n2"] exI [of _ "c1 @ c2"]) simp
qed

lemma extends_make_link:
  assumes "make_link r w = (p, w')"
  shows "extends (ls, w) (ls @ (case p of Some q \<Rightarrow> [q] | None \<Rightarrow> []), w')"
proof (cases r)
  case Link_ok
  then have "p = Some (Link_ptr (pw_next w))"
    "w' = log_call (Acquire (Link (pw_next w))) (w\<lparr>pw_next := pw_next w + 1\<rparr>)"
    using assms by (auto simp: acquire_def)
  then show ?thesis
    by (intro extendsI [where new = "[Link_ptr (pw_next w)]" and cs = "[Acquire (Link (pw_next w))]"])
      (simp_all add: log_call_def)
qed (use assms in \<open>auto intro!: extendsI [where cs = "[]"]\<close>)

lemma make_link_null: "make_link r w = (Some (Err_ptr e), w') \<Longrightarrow> w' = w"
  by (cases r) (auto simp: acquire_def)

lemma extends_attachOneUprobe: "attachOneUprobe env p f lib rp s = (ok, s') \<Longrightarrow> extends s s'"
  using extends_make_link [of "be_uprobe env p f lib rp" "snd s"] make_link_null
  by (cases s) (fastforce simp: attachOneUprobe_def split: if_splits prod.splits option.splits link_ptr.splits)

lemma extends_attachOneKprobe: "attachOneKprobe env p f s = (ok, s') \<Longrightarrow> extends s s'"
  using extends_make_link [of "be_kprobe env p f" "snd s"] make_link_null
  by (cases s) (fastforce simp: attachOneKprobe_def split: if_splits prod.splits option.splits link_ptr.splits)

text \<open>The name test is an equality of C strings.\<close>

lemma strncmp_eq_iff:
  assumes "CHR 0x00 \<notin> set b" "length b < n" "n \<le> length a"
  shows "strncmp_eq a b n \<longleftrightarrow> takeWhile (\<lambda>c. c \<noteq> CHR 0x00) a = b"
  using assms by (induction a b n rule: strncmp_eq.induct) auto

definition is_ours :: "bpf_env \<Rightarrow> u32 \<Rightarrow> bool" where
  "is_ours env ifindex \<longleftrightarrow>
     (case be_xdp_query env ifindex of None \<Rightarrow> False
      | Some (q, skb) \<Rightarrow>
          let prog_id = (if q \<noteq> 0 then q else skb) in
          prog_id \<noteq> 0 \<and> be_fd_by_id env prog_id \<and>
          (\<exists>name. be_prog_name env prog_id = Some name \<and> strncmp_eq name ''https_guard_xdp'' BPF_OBJ_NAME_LEN))"

lemma clearStaleAttachment_calls:
  "\<exists>cs. pw_calls (clearStaleAttachment env x w) =
       pw_calls w @ cs @ (if is_ours env (xh_ifindex x) then [Xdp_detach (xh_ifindex x)] else []) \<and>
     (cs = [] \<and> pw_next (clearStaleAttachment env x w) = pw_next w
      \<or> cs = [Acquire (Prog_fd (pw_next w)), Release (Prog_fd (pw_next w))]
        \<and> pw_next (clearStaleAttachment env x w) = Suc (pw_next w))"
proof (cases "be_xdp_query env (xh_ifindex x)")
  case None
  then show ?thesis by (simp add: clearStaleAttachment_def is_ours_def)
next
  case (Some ab)
  obtain a b where ab: "ab = (a, b)" by (cases ab)
  define prog_id where "prog_id = (if a \<noteq> 0 then a else b)"
  have ours: "is_ours env (xh_ifindex x) \<longleftrightarrow> prog_id \<noteq> 0 \<and> be_fd_by_id env prog_id \<and>
      (\<exists>name. be_prog_name env prog_id = Some name \<and> strncmp_eq name ''https_guard_xdp'' BPF_OBJ_NAME_LEN)"
    using Some by (simp add: is_ours_def ab prog_id_def Let_def)
  show ?thesis
  proof (cases "prog_id = 0 \<or> \<not> be_fd_by_id env prog_id")
    case True
    then show ?thesis using Some ours
      by (auto simp: clearStaleAttachment_def ab Let_def simp flip: prog_id_def)
  next
    case False
    then show ?thesis using Some ours
      by (intro exI [of _ "[Acquire (Prog_fd (pw_next w)), Release (Prog_fd (pw_next w))]"])
        (auto simp: clearStaleAttachment_def ab Let_def acquire_def log_call_def split: option.split simp flip: prog_id_def)
  qed
qed

lemma extends_clearStaleAttachment: "extends (ls, w) (ls, clearStaleAttachment env x w)"
proof -
  obtain cs where "pw_calls (clearStaleAttachment env x w) =
       pw_calls w @ cs @ (if is_ours env (xh_ifindex x) then [Xdp_detach (xh_ifindex x)] else [])"
     "cs = [] \<and> pw_next (clearStaleAttachment env x w) = pw_next w
      \<or> cs = [Acquire (Prog_fd (pw_next w)), Release (Prog_fd (pw_next w))]
        \<and> pw_next (clearStaleAttachment env x w) = Suc (pw_next w)"
    using clearStaleAttachment_calls by blast
  then show ?thesis by (intro extendsI [where new = "[]"]) auto
qed

lemma extends_log_xdp:
  "extends s (ls, w) \<Longrightarrow> extends s (ls, log_call (Xdp_attach i fl ok) w)"
  by (erule extends_trans) (auto intro!: extendsI [where new = "[]" and cs = "[Xdp_attach i fl ok]"] simp: log_call_def)

lemma extends_XdpTlsProgram_attach:
  assumes "XdpTlsProgram_attach env x s = (ok, x', s')" shows "extends s s'"
proof -
  obtain ls w where s: "s = (ls, w)" by (cases s)
  obtain p w1 where ml: "make_link (be_xdp_link env ''https_guard_xdp'' (xh_ifindex x)) (clearStaleAttachment env x w) = (p, w1)"
    by fastforce
  have 1: "extends s (ls @ (case p of Some q \<Rightarrow> [q] | None \<Rightarrow> []), w1)"
    unfolding s by (rule extends_trans [OF extends_clearStaleAttachment extends_make_link [OF ml]])
  have 2: "extends s (ls, w1)" if "\<forall>n. p \<noteq> Some (Link_ptr n)"
  proof (cases p)
    case (Some q)
    with that obtain e where "q = Err_ptr e" by (cases q) auto
    with Some ml make_link_null extends_clearStaleAttachment show ?thesis unfolding s by metis
  qed (use 1 in simp)
  show ?thesis
  proof (cases "\<exists>n. p = Some (Link_ptr n)")
    case True
    then show ?thesis using assms ml 1 extends_refl [of s] unfolding s
      by (auto simp: XdpTlsProgram_attach_def split: if_splits)
  next
    case False
    then have "extends s (ls, w1)" using 2 by blast
    then show ?thesis using False assms ml extends_refl [of s] unfolding s
      by (auto simp: XdpTlsProgram_attach_def Let_def split: if_splits option.splits link_ptr.splits
          intro: extends_log_xdp)
  qed
qed

lemma extends_SslUprobeProgram_attach: "SslUprobeProgram_attach env lib s = (ok, s') \<Longrightarrow> extends s s'"
  by (auto simp: SslUprobeProgram_attach_def Let_def split: prod.splits
      dest!: extends_attachOneUprobe extends_attachOneKprobe) (meson extends_trans)

lemma extends_LsmCertGuardProgram_attach: "LsmCertGuardProgram_attach env s = (ok, s') \<Longrightarrow> extends s s'"
  using extends_make_link [of "be_lsm env ''https_guard_cert_open''" "snd s"]
  by (cases s) (fastforce simp: LsmCertGuardProgram_attach_def split: if_splits prod.splits option.splits)

section \<open>The interface the owner of the modules relies on\<close>

text \<open>The loop of \<open>HttpGuardProgram::attachHooks\<close> over the virtual method.\<close>

fun attach_each :: "('h \<Rightarrow> attach_state \<Rightarrow> bool \<times> 'h \<times> attach_state) \<Rightarrow> 'h list \<Rightarrow> attach_state \<Rightarrow> nat \<times> 'h list \<times> attach_state" where
  "attach_each att [] s = (0, [], s)"
| "attach_each att (h # hs) s =
     (let (ok, h, s) = att h s; (attached_count, hs, s) = attach_each att hs s
      in ((if ok then 1 else 0) + attached_count, h # hs, s))"

locale bpf_program =
  fixes att :: "'h \<Rightarrow> attach_state \<Rightarrow> bool \<times> 'h \<times> attach_state" and same :: "'h \<Rightarrow> 'h \<Rightarrow> bool"
  assumes att_extends: "att h s = (ok, h', s') \<Longrightarrow> extends s s'"
    and att_same: "att h s = (ok, h', s') \<Longrightarrow> same h h'"
begin

lemma each_extends: "attach_each att hs s = (n, hs', s') \<Longrightarrow> extends s s'"
proof (induction hs arbitrary: s n hs' s')
  case (Cons h hs)
  obtain ok h1 s1 where a: "att h s = (ok, h1, s1)" by (cases "att h s") auto
  obtain n1 hs1 s2 where b: "attach_each att hs s1 = (n1, hs1, s2)" by (cases "attach_each att hs s1") auto
  show ?case using Cons.prems extends_trans [OF att_extends [OF a] Cons.IH [OF b]] by (simp add: a b)
qed simp

lemma each_same: "attach_each att hs s = (n, hs', s') \<Longrightarrow> list_all2 same hs hs'"
proof (induction hs arbitrary: s n hs' s')
  case (Cons h hs)
  obtain ok h1 s1 where a: "att h s = (ok, h1, s1)" by (cases "att h s") auto
  obtain n1 hs1 s2 where b: "attach_each att hs s1 = (n1, hs1, s2)" by (cases "attach_each att hs s1") auto
  show ?case using Cons.prems att_same [OF a] Cons.IH [OF b] by (auto simp: a b)
qed simp

end

text \<open>What attaching leaves of a module as it is: everything but the note of a legacy attachment.\<close>

fun same_module :: "hook \<Rightarrow> hook \<Rightarrow> bool" where
  "same_module (XdpTlsProgram x) h = (\<exists>b. h = XdpTlsProgram (x\<lparr>xh_owns_legacy_attachment := b\<rparr>))"
| "same_module h h' = (h' = h)"

lemma XdpTlsProgram_attach_same:
  "XdpTlsProgram_attach env x s = (ok, x', s') \<Longrightarrow> \<exists>b. x' = x\<lparr>xh_owns_legacy_attachment := b\<rparr>"
  by (cases s, cases x) (auto simp: XdpTlsProgram_attach_def Let_def split: if_splits prod.splits option.splits link_ptr.splits)

interpretation hk: bpf_program "attach env" same_module for env
proof unfold_locales
  fix h s ok h' s'
  assume a: "attach env h s = (ok, h', s')"
  show "extends s s'" using a
    by (cases h) (auto dest: extends_SslUprobeProgram_attach extends_XdpTlsProgram_attach
        extends_LsmCertGuardProgram_attach split: prod.splits)
  show "same_module h h'" using a XdpTlsProgram_attach_same by (cases h) (fastforce split: prod.splits)+
qed

lemma same_module_source: "same_module h h' \<Longrightarrow> eventSource h' = eventSource h"
  by (cases h) auto

lemma same_module_detections: "same_module h h' \<Longrightarrow> hook_detections rl h' = hook_detections rl h"
  by (cases h) auto

section \<open>The XDP module on a shared interface\<close>

lemma attach_flags:
  "(XDP_FLAGS_DRV_MODE OR XDP_FLAGS_UPDATE_IF_NOEXIST) AND XDP_FLAGS_UPDATE_IF_NOEXIST \<noteq> 0"
  "(XDP_FLAGS_SKB_MODE OR XDP_FLAGS_UPDATE_IF_NOEXIST) AND XDP_FLAGS_UPDATE_IF_NOEXIST \<noteq> 0"
  by (simp_all add: XDP_FLAGS_DRV_MODE_def XDP_FLAGS_UPDATE_IF_NOEXIST_def XDP_FLAGS_SKB_MODE_def)

text \<open>The calls of one attach after the clean-up, by how far it gets.\<close>

definition attach_outcome :: "xdp_tls_program \<Rightarrow> bpf_call list \<Rightarrow> bool \<Rightarrow> xdp_tls_program \<Rightarrow> bool" where
  "attach_outcome x ds ok x' \<longleftrightarrow>
     (\<exists>n. ds = [Acquire (Link n)]) \<and> ok \<and> x' = x
     \<or> ds = [] \<and> \<not> ok \<and> x' = x
     \<or> ds = [Xdp_attach (xh_ifindex x) (XDP_FLAGS_DRV_MODE OR XDP_FLAGS_UPDATE_IF_NOEXIST) True]
         \<and> ok \<and> x' = x\<lparr>xh_owns_legacy_attachment := True\<rparr>
     \<or> ds = [Xdp_attach (xh_ifindex x) (XDP_FLAGS_DRV_MODE OR XDP_FLAGS_UPDATE_IF_NOEXIST) False,
            Xdp_attach (xh_ifindex x) (XDP_FLAGS_SKB_MODE OR XDP_FLAGS_UPDATE_IF_NOEXIST) ok]
         \<and> x' = (if ok then x\<lparr>xh_owns_legacy_attachment := True\<rparr> else x)"

lemma XdpTlsProgram_attach_calls:
  assumes "XdpTlsProgram_attach env x (ls, w) = (ok, x', ls', w')" "be_program env ''https_guard_xdp''"
  shows "\<exists>ds. pw_calls w' = pw_calls (clearStaleAttachment env x w) @ ds \<and> attach_outcome x ds ok x'"
proof (cases "be_xdp_link env ''https_guard_xdp'' (xh_ifindex x)")
  case Link_ok
  then show ?thesis using assms
    by (intro exI [of _ "[Acquire (Link (pw_next (clearStaleAttachment env x w)))]"])
      (auto simp: XdpTlsProgram_attach_def acquire_def log_call_def attach_outcome_def)
next
  case Link_null
  then show ?thesis using assms
    by (auto simp: XdpTlsProgram_attach_def log_call_def Let_def attach_outcome_def split: if_splits)
next
  case (Link_err e)
  then show ?thesis using assms
    by (auto simp: XdpTlsProgram_attach_def log_call_def Let_def attach_outcome_def split: if_splits)
qed

lemma is_ours_name:
  assumes "is_ours env i" "\<forall>id name. be_prog_name env id = Some name \<longrightarrow> length name = BPF_OBJ_NAME_LEN"
  shows "\<exists>q skb name. be_xdp_query env i = Some (q, skb) \<and> be_prog_name env (if q \<noteq> 0 then q else skb) = Some name
     \<and> takeWhile (\<lambda>c. c \<noteq> CHR 0x00) name = ''https_guard_xdp''"
proof -
  obtain q skb name where q: "be_xdp_query env i = Some (q, skb)" "be_prog_name env (if q \<noteq> 0 then q else skb) = Some name"
      "strncmp_eq name ''https_guard_xdp'' BPF_OBJ_NAME_LEN"
    using assms(1) by (auto simp: is_ours_def Let_def split: option.splits)
  have "length name = BPF_OBJ_NAME_LEN" using assms(2) q(2) by blast
  then have "takeWhile (\<lambda>c. c \<noteq> CHR 0x00) name = ''https_guard_xdp''"
    using strncmp_eq_iff [of "''https_guard_xdp''" BPF_OBJ_NAME_LEN name] q(3) by (simp add: BPF_OBJ_NAME_LEN_def)
  with q show ?thesis by blast
qed

lemma attach_outcome_calls:
  assumes "attach_outcome x ds ok x'"
  shows "Xdp_detach i \<notin> set ds"
    "Xdp_attach i fl b \<in> set ds \<Longrightarrow> i = xh_ifindex x \<and> fl AND XDP_FLAGS_UPDATE_IF_NOEXIST \<noteq> 0"
    "ok \<longleftrightarrow> (\<exists>n. Link n \<in> set (acquired ds)) \<or> (\<exists>fl. Xdp_attach (xh_ifindex x) fl True \<in> set ds)"
    "xh_owns_legacy_attachment x' \<longleftrightarrow> xh_owns_legacy_attachment x \<or> (\<exists>fl. Xdp_attach (xh_ifindex x) fl True \<in> set ds)"
    "xh_ifindex x' = xh_ifindex x"
  using assms attach_flags by (auto simp: attach_outcome_def)

text \<open>C31: Sharing the interface.  Whatever libbpf answers, attaching the XDP module detaches a program
  only when the one attached reports the name of this daemon's own program, never passes the kernel
  a request that may replace a program already attached, and reports success exactly when it made a link
  or a legacy attachment; the destructor detaches exactly when a legacy attachment was made,
  so none is leaked.\<close>

theorem xdp_attach_respects_foreign:
  assumes "XdpTlsProgram_attach env x (ls, w) = (ok, x', ls', w')"
    and "\<forall>id name. be_prog_name env id = Some name \<longrightarrow> length name = BPF_OBJ_NAME_LEN"
  shows "\<exists>cs. pw_calls w' = pw_calls w @ cs
     \<and> (\<forall>i. Xdp_detach i \<in> set cs \<longrightarrow> i = xh_ifindex x \<and>
          (\<exists>q skb name. be_xdp_query env i = Some (q, skb) \<and> be_prog_name env (if q \<noteq> 0 then q else skb) = Some name
             \<and> takeWhile (\<lambda>c. c \<noteq> CHR 0x00) name = ''https_guard_xdp''))
     \<and> (\<forall>i fl b. Xdp_attach i fl b \<in> set cs \<longrightarrow> i = xh_ifindex x \<and> fl AND XDP_FLAGS_UPDATE_IF_NOEXIST \<noteq> 0)
     \<and> (ok \<longleftrightarrow> (\<exists>n. Link n \<in> set (acquired cs)) \<or> (\<exists>fl. Xdp_attach (xh_ifindex x) fl True \<in> set cs))
     \<and> pw_calls (XdpTlsProgram_destroy x' w') = pw_calls w' @
         (if xh_owns_legacy_attachment x \<or> (\<exists>fl. Xdp_attach (xh_ifindex x) fl True \<in> set cs)
          then [Xdp_detach (xh_ifindex x)] else [])"
proof (cases "be_program env ''https_guard_xdp''")
  case False
  then show ?thesis using assms(1) by (auto simp: XdpTlsProgram_attach_def XdpTlsProgram_destroy_def log_call_def)
next
  case True
  obtain cs where cs: "pw_calls (clearStaleAttachment env x w) =
       pw_calls w @ cs @ (if is_ours env (xh_ifindex x) then [Xdp_detach (xh_ifindex x)] else [])"
     "cs = [] \<or> cs = [Acquire (Prog_fd (pw_next w)), Release (Prog_fd (pw_next w))]"
    using clearStaleAttachment_calls by blast
  obtain ds where ds: "pw_calls w' = pw_calls (clearStaleAttachment env x w) @ ds" "attach_outcome x ds ok x'"
    using XdpTlsProgram_attach_calls [OF assms(1) True] by blast
  let ?cs = "cs @ (if is_ours env (xh_ifindex x) then [Xdp_detach (xh_ifindex x)] else []) @ ds"
  have detach: "is_ours env i \<and> i = xh_ifindex x" if "Xdp_detach i \<in> set ?cs" for i
    using that cs(2) attach_outcome_calls(1) [OF ds(2)] by (auto split: if_splits)
  have att: "Xdp_attach i fl b \<in> set ?cs \<longleftrightarrow> Xdp_attach i fl b \<in> set ds" for i fl b using cs(2) by auto
  have lnk: "Link n \<in> set (acquired ?cs) \<longleftrightarrow> Link n \<in> set (acquired ds)" for n using cs(2) by auto
  have "pw_calls w' = pw_calls w @ ?cs" using cs(1) ds(1) by simp
  moreover have "\<forall>i. Xdp_detach i \<in> set ?cs \<longrightarrow> i = xh_ifindex x \<and>
          (\<exists>q skb name. be_xdp_query env i = Some (q, skb) \<and> be_prog_name env (if q \<noteq> 0 then q else skb) = Some name
             \<and> takeWhile (\<lambda>c. c \<noteq> CHR 0x00) name = ''https_guard_xdp'')"
    using detach is_ours_name [OF _ assms(2)] by blast
  ultimately show ?thesis unfolding XdpTlsProgram_destroy_def log_call_def
    using attach_outcome_calls(2-5) [OF ds(2)] by (intro exI [of _ ?cs]) (simp only: att lnk, simp)
qed

definition demo_bpf_env :: bpf_env where
  "demo_bpf_env = \<lparr>be_open = True, be_load = 0, be_program = (\<lambda>_. True), be_program_fd = (\<lambda>_. 7), be_map_fd = (\<lambda>_. 9),
     be_ring = True, be_uprobe = (\<lambda>_ _ _ _. Link_ok), be_kprobe = (\<lambda>_ _. Link_null), be_lsm = (\<lambda>_. Link_null),
     be_xdp_link = (\<lambda>_ _. Link_err (-95)), be_xdp_query = (\<lambda>_. Some (0, 41)), be_fd_by_id = (\<lambda>_. True),
     be_prog_name = (\<lambda>_. Some (''https_guard_xdp'' @ [CHR 0x00])), be_xdp_attach = (\<lambda>_ fl. if fl = 5 then - 95 else 0)\<rparr>"

definition demo_xdp :: xdp_tls_program where
  "demo_xdp = \<lparr>xh_ifindex = 2, xh_expected_sni = ''bmc'', xh_owns_legacy_attachment = False\<rparr>"

lemma demo_xdp_attach:
  "XdpTlsProgram_attach demo_bpf_env demo_xdp ([], \<lparr>pw_next = 0, pw_calls = []\<rparr>) =
     (True, demo_xdp\<lparr>xh_owns_legacy_attachment := True\<rparr>, [], \<lparr>pw_next = 1, pw_calls =
        [Acquire (Prog_fd 0), Release (Prog_fd 0), Xdp_detach 2, Xdp_attach 2 5 False, Xdp_attach 2 3 True]\<rparr>)"
  by code_simp

theorem xdp_attach_respects_foreign_witness:
  "Xdp_detach 2 \<in> set (pw_calls (XdpTlsProgram_destroy (demo_xdp\<lparr>xh_owns_legacy_attachment := True\<rparr>)
     (snd (snd (snd (XdpTlsProgram_attach demo_bpf_env demo_xdp ([], \<lparr>pw_next = 0, pw_calls = []\<rparr>)))))))"
proof -
  have "\<forall>id name. be_prog_name demo_bpf_env id = Some name \<longrightarrow> length name = BPF_OBJ_NAME_LEN"
    by (simp add: demo_bpf_env_def BPF_OBJ_NAME_LEN_def)
  from xdp_attach_respects_foreign [OF demo_xdp_attach this]
  show ?thesis unfolding demo_xdp_attach by (auto simp: demo_xdp_def)
qed

end
