(* ===== verification/Ssl_Uprobe.thy ===== *)
theory Ssl_Uprobe
  imports Bpf_Map Raw_Event
begin

unbundle bit_operations_syntax

text \<open>
  \<open>programs/ssl_uprobe/ebpf/ssl_uprobe.bpf.h\<close>: the probes on OpenSSL and on the TCP socket calls, and
  the binding of a TLS session to the connection it runs over.  The state is the three maps and
  the ring buffer; an environment holds what the kernel supplies to one probe (the thread, the
  clock, whether the ring buffer has room, the process's memory).  A pointer is a 64-bit number,
  0 is null.  The kernel's \<open>struct sock\<close> is the record of the fields the program reads.
  \<open>SSL_VERSION_OFFSET\<close>, generated at build time by \<open>gen_ssl_offset\<close>, is a field of the environment, and
  \<open>bpf_probe_read_user\<close> a function of address and length (\<open>None\<close> on a fault).
\<close>

definition HG_SESSION_TUPLE_PORT :: u16 where "HG_SESSION_TUPLE_PORT = 443"
definition HG_AF_INET6 :: u16 where "HG_AF_INET6 = 10"
definition HG_UPROBE_DIR_WRITE :: u32 where "HG_UPROBE_DIR_WRITE = 0"
definition HG_UPROBE_DIR_READ :: u32 where "HG_UPROBE_DIR_READ = 1"

record hg_bound_tuple =
  bd_is_ipv6 :: u8
  bd_local_addr :: "u8 list"
  bd_remote_addr :: "u8 list"
  bd_local_port :: u16
  bd_remote_port :: u16
  bd_timestamp_ns :: u64

record sock =
  skc_family :: u16
  skc_num :: u16
  skc_dport :: u16  \<comment> \<open>network byte order\<close>
  skc_rcv_saddr :: u32
  skc_daddr :: u32
  skc_v6_rcv_saddr :: "u8 list"
  skc_v6_daddr :: "u8 list"

record ssl_read_args =
  ra_ssl :: u64
  ra_buf :: u64

record ssl_state =
  ss_thread_tuple_map :: "u64 \<rightharpoonup> hg_bound_tuple"
  ss_session_tuple_map :: "u64 \<rightharpoonup> hg_bound_tuple"
  ss_read_args_map :: "u64 \<rightharpoonup> ssl_read_args"
  ss_events :: "uprobe_event list"

record ssl_env =
  se_pid_tgid :: u64
  se_now :: u64
  se_comm :: string
  se_reserve :: bool
  se_read_user :: "u64 \<Rightarrow> nat \<Rightarrow> u8 list option"
  se_version_offset :: u64

text \<open>The maps as declared: two LRU maps and a hash map of 1024 entries each.\<close>

definition thread_tuple_update :: "((u64 \<rightharpoonup> hg_bound_tuple) \<Rightarrow> u64) \<Rightarrow> (u64, hg_bound_tuple) bpf_update" where
  "thread_tuple_update victim = lru_update 1024 victim"

definition session_tuple_update :: "((u64 \<rightharpoonup> hg_bound_tuple) \<Rightarrow> u64) \<Rightarrow> (u64, hg_bound_tuple) bpf_update" where
  "session_tuple_update victim = lru_update 1024 victim"

definition read_args_update :: "(u64, ssl_read_args) bpf_update" where
  "read_args_update = hash_update 1024"

text \<open>The updates the kernel makes, as one argument.\<close>

record ssl_kernel =
  sk_thread_update :: "(u64, hg_bound_tuple) bpf_update"
  sk_session_update :: "(u64, hg_bound_tuple) bpf_update"
  sk_args_update :: "(u64, ssl_read_args) bpf_update"

definition ssl_maps :: "((u64 \<rightharpoonup> hg_bound_tuple) \<Rightarrow> u64) \<Rightarrow> ((u64 \<rightharpoonup> hg_bound_tuple) \<Rightarrow> u64) \<Rightarrow> ssl_kernel" where
  "ssl_maps v1 v2 = \<lparr>sk_thread_update = thread_tuple_update v1, sk_session_update = session_tuple_update v2,
     sk_args_update = read_args_update\<rparr>"

section \<open>The version offset\<close>

text \<open>\<open>scripts/gen_ssl_offset.c\<close>, run at build time: the offset for the architecture named by the first argument, and the
  header it prints.\<close>

definition ssl_offset :: "string list \<Rightarrow> nat" where
  "ssl_offset argv =
     (if 1 < length argv \<and> argv ! 1 = ''x86_64'' then 20
      else if 1 < length argv \<and> argv ! 1 = ''arm32'' then 36
      else 36)"

definition gen_ssl_offset :: "string list \<Rightarrow> string list" where
  "gen_ssl_offset argv =
     [''/* auto-generated by gen_ssl_offset.c */'', ''#ifndef SSL_VERSION_OFFSET'',
      ''#define SSL_VERSION_OFFSET '' @ to_string (ssl_offset argv), ''#endif /* SSL_VERSION_OFFSET */'']"

section \<open>The socket probes\<close>

definition read_sock_tuple_if_port_443 :: "u64 \<Rightarrow> sock \<Rightarrow> hg_bound_tuple option" where
  "read_sock_tuple_if_port_443 now sk =
     (let num_host = skc_num sk; dport_host = bswap16 (skc_dport sk) in
      if num_host \<noteq> HG_SESSION_TUPLE_PORT \<and> dport_host \<noteq> HG_SESSION_TUPLE_PORT then None
      else Some
        (if skc_family sk = HG_AF_INET6 \<and> skc_daddr sk = 0
         then \<lparr>bd_is_ipv6 = 1, bd_local_addr = skc_v6_rcv_saddr sk, bd_remote_addr = skc_v6_daddr sk,
               bd_local_port = num_host, bd_remote_port = dport_host, bd_timestamp_ns = now\<rparr>
         else \<lparr>bd_is_ipv6 = 0, bd_local_addr = le_bytes 4 (skc_rcv_saddr sk) @ replicate 12 0,
               bd_remote_addr = le_bytes 4 (skc_daddr sk) @ replicate 12 0,
               bd_local_port = num_host, bd_remote_port = dport_host, bd_timestamp_ns = now\<rparr>))"

text \<open>\<open>https_guard_tcp_recvmsg\<close> and \<open>https_guard_tcp_sendmsg\<close> have the same body; \<open>None\<close> is a null \<open>sk\<close>.\<close>

definition https_guard_tcp_msg :: "ssl_kernel \<Rightarrow> ssl_env \<Rightarrow> sock option \<Rightarrow> ssl_state \<Rightarrow> ssl_state" where
  "https_guard_tcp_msg k env sk s =
     (case sk of
        None \<Rightarrow> s
      | Some sk \<Rightarrow>
          (case read_sock_tuple_if_port_443 (se_now env) sk of
             None \<Rightarrow> s
           | Some tup \<Rightarrow>
               s\<lparr>ss_thread_tuple_map :=
                   snd (sk_thread_update k (ss_thread_tuple_map s) (se_pid_tgid env) tup)\<rparr>))"

section \<open>The session probes\<close>

definition bind_session_from_thread :: "ssl_kernel \<Rightarrow> ssl_env \<Rightarrow> u64 \<Rightarrow> ssl_state \<Rightarrow> ssl_state" where
  "bind_session_from_thread k env ssl s =
     (case ss_thread_tuple_map s (se_pid_tgid env) of
        None \<Rightarrow> s
      | Some tup \<Rightarrow>
          s\<lparr>ss_session_tuple_map := snd (sk_session_update k (ss_session_tuple_map s) ssl tup),
            ss_thread_tuple_map := map_delete_elem (ss_thread_tuple_map s) (se_pid_tgid env)\<rparr>)"

text \<open>\<open>https_guard_ssl_accept\<close> and \<open>https_guard_ssl_connect\<close> have the same body.\<close>

definition https_guard_ssl_handshake :: "ssl_kernel \<Rightarrow> ssl_env \<Rightarrow> u64 \<Rightarrow> ssl_state \<Rightarrow> ssl_state" where
  "https_guard_ssl_handshake k env ssl s = (if ssl \<noteq> 0 then bind_session_from_thread k env ssl s else s)"

definition https_guard_ssl_free :: "u64 \<Rightarrow> ssl_state \<Rightarrow> ssl_state" where
  "https_guard_ssl_free ssl s =
     (if ssl \<noteq> 0 then s\<lparr>ss_session_tuple_map := map_delete_elem (ss_session_tuple_map s) ssl\<rparr> else s)"

section \<open>The data probes\<close>

definition fill_uprobe_event_fields :: "ssl_env \<Rightarrow> u32 \<Rightarrow> uprobe_event \<Rightarrow> uprobe_event" where
  "fill_uprobe_event_fields env direction evt =
     evt\<lparr>up_hdr := (up_hdr evt)\<lparr>hdr_event_source := HG_SOURCE_UPROBE, hdr_pid := ucast (se_pid_tgid env),
           hdr_tgid := ucast (drop_bit 32 (se_pid_tgid env)), hdr_timestamp_ns := se_now env,
           hdr_comm := se_comm env, hdr_reserved := 0\<rparr>,
         up_direction := direction, up_padding := 0\<rparr>"

definition read_tls_version :: "ssl_env \<Rightarrow> u64 \<Rightarrow> u16" where
  "read_tls_version env ssl =
     (case se_read_user env (ssl + se_version_offset env) 4 of
        None \<Rightarrow> 0
      | Some bs \<Rightarrow> ucast (le_word bs AND 0xFFFF :: u32))"

definition fill_resolved_conn :: "ssl_state \<Rightarrow> u64 \<Rightarrow> hg_uprobe_conn \<Rightarrow> hg_uprobe_conn" where
  "fill_resolved_conn s ssl out =
     (case ss_session_tuple_map s ssl of
        None \<Rightarrow> out
      | Some tup \<Rightarrow> out\<lparr>uc_resolved := 1, uc_is_ipv6 := bd_is_ipv6 tup, uc_local_port := bd_local_port tup,
          uc_remote_port := bd_remote_port tup, uc_local_addr := bd_local_addr tup,
          uc_remote_addr := bd_remote_addr tup\<rparr>)"

text \<open>The snippet: at most 127 bytes of the buffer, then a null; a faulting read leaves zeroes.\<close>

definition copy_snippet :: "ssl_env \<Rightarrow> u64 \<Rightarrow> int \<Rightarrow> string \<Rightarrow> string" where
  "copy_snippet env buf num snippet =
     (let copy_sz = nat (if num < int HG_PAYLOAD_SNIPPET_LEN - 1 then num else int HG_PAYLOAD_SNIPPET_LEN - 1);
          snippet = (case se_read_user env buf copy_sz of
                       None \<Rightarrow> snippet
                     | Some bs \<Rightarrow> map chr8 bs @ drop (length bs) snippet)
      in snippet[copy_sz := NUL])"

definition ssl_event :: "ssl_env \<Rightarrow> ssl_state \<Rightarrow> u32 \<Rightarrow> u64 \<Rightarrow> u64 \<Rightarrow> int \<Rightarrow> uprobe_event" where
  "ssl_event env s direction ssl buf num =
     (let evt = fill_uprobe_event_fields env direction zero_uprobe_event
      in evt\<lparr>up_tls := (up_tls evt)\<lparr>ut_version := read_tls_version env ssl,
               ut_payload_snippet := copy_snippet env buf num (ut_payload_snippet (up_tls evt))\<rparr>,
             up_resolved_conn := fill_resolved_conn s ssl (up_resolved_conn evt)\<rparr>)"

definition https_guard_ssl_write :: "ssl_env \<Rightarrow> u64 \<Rightarrow> u64 \<Rightarrow> int \<Rightarrow> ssl_state \<Rightarrow> ssl_state" where
  "https_guard_ssl_write env ssl buf num s =
     (if num \<le> 0 \<or> buf = 0 \<or> ssl = 0 then s
      else if \<not> se_reserve env then s
      else s\<lparr>ss_events := ss_events s @ [ssl_event env s HG_UPROBE_DIR_WRITE ssl buf num]\<rparr>)"

definition https_guard_ssl_read_entry :: "ssl_kernel \<Rightarrow> ssl_env \<Rightarrow> u64 \<Rightarrow> u64 \<Rightarrow> ssl_state \<Rightarrow> ssl_state" where
  "https_guard_ssl_read_entry k env ssl buf s =
     (if ssl = 0 \<or> buf = 0 then s
      else s\<lparr>ss_read_args_map :=
               snd (sk_args_update k (ss_read_args_map s) (se_pid_tgid env) \<lparr>ra_ssl = ssl, ra_buf = buf\<rparr>)\<rparr>)"

definition https_guard_ssl_read_exit :: "ssl_env \<Rightarrow> int \<Rightarrow> ssl_state \<Rightarrow> ssl_state" where
  "https_guard_ssl_read_exit env num_read s =
     (case ss_read_args_map s (se_pid_tgid env) of
        None \<Rightarrow> s
      | Some args \<Rightarrow>
          let s = s\<lparr>ss_read_args_map := map_delete_elem (ss_read_args_map s) (se_pid_tgid env)\<rparr> in
          if num_read \<le> 0 then s
          else if \<not> se_reserve env then s
          else s\<lparr>ss_events := ss_events s @ [ssl_event env s HG_UPROBE_DIR_READ (ra_ssl args) (ra_buf args) num_read]\<rparr>)"

section \<open>Runs\<close>

datatype ssl_step =
    Touch "sock option"
  | Handshake u64
  | Free u64
  | Write u64 u64 int
  | Read_entry u64 u64
  | Read_exit int

fun ssl_exec :: "ssl_kernel \<Rightarrow> ssl_env \<times> ssl_step \<Rightarrow> ssl_state \<Rightarrow> ssl_state" where
  "ssl_exec k (env, Touch sk) s = https_guard_tcp_msg k env sk s"
| "ssl_exec k (env, Handshake ssl) s = https_guard_ssl_handshake k env ssl s"
| "ssl_exec k (env, Free ssl) s = https_guard_ssl_free ssl s"
| "ssl_exec k (env, Write ssl buf num) s = https_guard_ssl_write env ssl buf num s"
| "ssl_exec k (env, Read_entry ssl buf) s = https_guard_ssl_read_entry k env ssl buf s"
| "ssl_exec k (env, Read_exit num) s = https_guard_ssl_read_exit env num s"

definition ssl_run :: "ssl_kernel \<Rightarrow> (ssl_env \<times> ssl_step) list \<Rightarrow> ssl_state \<Rightarrow> ssl_state" where
  "ssl_run k steps s = fold (ssl_exec k) steps s"

definition ssl_init :: ssl_state where
  "ssl_init = \<lparr>ss_thread_tuple_map = Map.empty, ss_session_tuple_map = Map.empty, ss_read_args_map = Map.empty, ss_events = []\<rparr>"

lemma ssl_run_simps [simp]:
  "ssl_run k [] s = s" "ssl_run k (x # xs) s = ssl_run k xs (ssl_exec k x s)"
  "ssl_run k (xs @ [x]) s = ssl_exec k x (ssl_run k xs s)"
  by (simp_all add: ssl_run_def)

section \<open>Where bindings come from\<close>

definition kernel_maps :: "ssl_kernel \<Rightarrow> bool" where
  "kernel_maps k \<longleftrightarrow> bpf_lru_map (sk_thread_update k) \<and> bpf_lru_map (sk_session_update k) \<and> bpf_hash_map (sk_args_update k)"

text \<open>A step of thread \<open>tid\<close> that reads or replaces the thread's recorded socket.\<close>

fun uses_record :: "u64 \<Rightarrow> ssl_env \<times> ssl_step \<Rightarrow> bool" where
  "uses_record tid (env, Touch (Some sk)) \<longleftrightarrow>
     se_pid_tgid env = tid \<and> read_sock_tuple_if_port_443 (se_now env) sk \<noteq> None"
| "uses_record tid (env, Handshake ssl) \<longleftrightarrow> se_pid_tgid env = tid \<and> ssl \<noteq> 0"
| "uses_record tid _ \<longleftrightarrow> False"

fun frees :: "u64 \<Rightarrow> ssl_env \<times> ssl_step \<Rightarrow> bool" where
  "frees ssl (env, Free ssl') \<longleftrightarrow> ssl' = ssl"
| "frees ssl _ \<longleftrightarrow> False"

text \<open>The connection fields an event carries for a bound tuple.\<close>

definition conn_of_tuple :: "hg_bound_tuple \<Rightarrow> hg_uprobe_conn" where
  "conn_of_tuple tup = \<lparr>uc_resolved = 1, uc_is_ipv6 = bd_is_ipv6 tup, uc_padding = 0, uc_local_addr = bd_local_addr tup,
     uc_remote_addr = bd_remote_addr tup, uc_local_port = bd_local_port tup, uc_remote_port = bd_remote_port tup\<rparr>"

text \<open>
  \<open>recorded steps tid tup\<close>: the thread's last use of its record was touching the port-443 socket
  that \<open>tup\<close> was read from.  \<open>bound steps ssl tup\<close>: some handshake of \<open>ssl\<close>, not followed by a free,
  ran while \<open>tup\<close> was its thread's record.
\<close>

definition recorded :: "(ssl_env \<times> ssl_step) list \<Rightarrow> u64 \<Rightarrow> hg_bound_tuple \<Rightarrow> bool" where
  "recorded steps tid tup \<longleftrightarrow>
     (\<exists>pre env sk mid. steps = pre @ (env, Touch (Some sk)) # mid \<and> se_pid_tgid env = tid
        \<and> read_sock_tuple_if_port_443 (se_now env) sk = Some tup \<and> (\<forall>x \<in> set mid. \<not> uses_record tid x))"

definition bound :: "(ssl_env \<times> ssl_step) list \<Rightarrow> u64 \<Rightarrow> hg_bound_tuple \<Rightarrow> bool" where
  "bound steps ssl tup \<longleftrightarrow>
     (\<exists>pre env post. steps = pre @ (env, Handshake ssl) # post \<and> recorded pre (se_pid_tgid env) tup
        \<and> (\<forall>x \<in> set post. \<not> frees ssl x))"

definition bindings_ok :: "(ssl_env \<times> ssl_step) list \<Rightarrow> ssl_state \<Rightarrow> bool" where
  "bindings_ok steps s \<longleftrightarrow>
     (\<forall>tid tup. ss_thread_tuple_map s tid = Some tup \<longrightarrow> recorded steps tid tup)
     \<and> (\<forall>ssl tup. ss_session_tuple_map s ssl = Some tup \<longrightarrow> ssl \<noteq> 0 \<and> bound steps ssl tup)"

lemma ssl_maps_kernel: "kernel_maps (ssl_maps v1 v2)"
  by (simp add: kernel_maps_def ssl_maps_def thread_tuple_update_def session_tuple_update_def read_args_update_def
      lru_update_bpf_lru_map hash_update_bpf_hash_map)

lemma lru_origin:
  assumes "bpf_lru_map upd" "snd (upd m k v) k' = Some x"
  shows "if k' = k then x = v else m k' = Some x"
  using bpf_map.upd_origin [OF bpf_lru_map.axioms(1) [OF assms(1)] assms(2)]
    bpf_lru_map.upd_now [OF assms(1), of m k v] assms(2) by auto

lemma recorded_snoc: "recorded steps tid tup \<Longrightarrow> \<not> uses_record tid x \<Longrightarrow> recorded (steps @ [x]) tid tup"
  unfolding recorded_def by (elim exE) (rule exI, rule exI, rule exI, rule_tac x = "mid @ [x]" in exI, auto)

lemma recorded_touch:
  "read_sock_tuple_if_port_443 (se_now env) sk = Some tup \<Longrightarrow> recorded (steps @ [(env, Touch (Some sk))]) (se_pid_tgid env) tup"
  unfolding recorded_def by (rule exI [of _ steps], rule exI [of _ env], rule exI [of _ sk], rule exI [of _ "[]"]) simp

lemma bound_snoc: "bound steps ssl tup \<Longrightarrow> \<not> frees ssl x \<Longrightarrow> bound (steps @ [x]) ssl tup"
  unfolding bound_def by (elim exE) (rule exI, rule exI, rule_tac x = "post @ [x]" in exI, auto)

lemma bound_handshake:
  "recorded steps (se_pid_tgid env) tup \<Longrightarrow> bound (steps @ [(env, Handshake ssl)]) ssl tup"
  unfolding bound_def by (rule exI [of _ steps], rule exI [of _ env], rule exI [of _ "[]"]) simp

lemmas ssl_handlers = https_guard_tcp_msg_def https_guard_ssl_handshake_def bind_session_from_thread_def
  https_guard_ssl_free_def https_guard_ssl_write_def https_guard_ssl_read_entry_def https_guard_ssl_read_exit_def

lemma ssl_exec_thread:
  assumes "kernel_maps k" "ss_thread_tuple_map (ssl_exec k x s) tid = Some tup"
  shows "(ss_thread_tuple_map s tid = Some tup \<and> \<not> uses_record tid x)
       \<or> (\<exists>env sk. x = (env, Touch (Some sk)) \<and> se_pid_tgid env = tid \<and> read_sock_tuple_if_port_443 (se_now env) sk = Some tup)"
proof -
  have o: "snd (sk_thread_update k m i v) tid = Some tup \<Longrightarrow> if tid = i then tup = v else m tid = Some tup" for m i v
    by (rule lru_origin) (use assms(1) in \<open>simp_all add: kernel_maps_def\<close>)
  show ?thesis using assms(2)
    by (cases "(tid, x)" rule: uses_record.cases)
      (auto simp: ssl_handlers Let_def dest!: o split: option.splits if_splits)
qed

lemma ssl_exec_session:
  assumes "kernel_maps k" "ss_session_tuple_map (ssl_exec k x s) ssl = Some tup"
  shows "(ss_session_tuple_map s ssl = Some tup \<and> \<not> frees ssl x)
       \<or> (\<exists>env. x = (env, Handshake ssl) \<and> ss_thread_tuple_map s (se_pid_tgid env) = Some tup)
       \<or> (ssl = 0 \<and> ss_session_tuple_map s ssl = Some tup)"
proof -
  have o: "snd (sk_session_update k m i v) ssl = Some tup \<Longrightarrow> if ssl = i then tup = v else m ssl = Some tup" for m i v
    by (rule lru_origin) (use assms(1) in \<open>simp_all add: kernel_maps_def\<close>)
  show ?thesis using assms(2)
    by (cases "(ssl, x)" rule: frees.cases)
      (auto simp: ssl_handlers Let_def dest!: o split: option.splits if_splits)
qed

lemma bindings_ok_exec:
  assumes "kernel_maps k" "bindings_ok steps s"
  shows "bindings_ok (steps @ [x]) (ssl_exec k x s)"
  unfolding bindings_ok_def
proof (intro conjI allI impI)
  fix tid tup assume "ss_thread_tuple_map (ssl_exec k x s) tid = Some tup"
  from ssl_exec_thread [OF assms(1) this] show "recorded (steps @ [x]) tid tup"
    using assms(2) by (auto simp: bindings_ok_def intro: recorded_snoc recorded_touch)
next
  fix ssl tup assume a: "ss_session_tuple_map (ssl_exec k x s) ssl = Some tup"
  from ssl_exec_session [OF assms(1) a] show "bound (steps @ [x]) ssl tup"
    using assms(2) by (auto simp: bindings_ok_def intro: bound_snoc bound_handshake)
  show "ssl \<noteq> 0" using ssl_exec_session [OF assms(1) a] a assms(2)
    by (auto simp: bindings_ok_def https_guard_ssl_handshake_def split: if_splits) blast
qed

lemma ssl_event_conn:
  "up_resolved_conn (ssl_event env s dir ssl buf num) =
     (case ss_session_tuple_map s ssl of
        None \<Rightarrow> up_resolved_conn zero_uprobe_event
      | Some tup \<Rightarrow> conn_of_tuple tup)"
  by (auto simp: ssl_event_def Let_def fill_uprobe_event_fields_def fill_resolved_conn_def conn_of_tuple_def zero_uprobe_event_def zero_uprobe_conn_def
      split: option.split)

section \<open>What a run attributes\<close>

text \<open>An event that names a connection names one that was bound to its session when the event was submitted.\<close>

definition attributed :: "(ssl_env \<times> ssl_step) list \<Rightarrow> hg_uprobe_conn \<Rightarrow> bool" where
  "attributed steps c \<longleftrightarrow> (\<exists>pre post ssl tup. steps = pre @ post \<and> bound pre ssl tup \<and> c = conn_of_tuple tup)"

definition conn_ok :: "(ssl_env \<times> ssl_step) list \<Rightarrow> uprobe_event \<Rightarrow> bool" where
  "conn_ok steps u \<longleftrightarrow> uc_resolved (up_resolved_conn u) = 0 \<or> attributed steps (up_resolved_conn u)"

definition attributions_ok :: "(ssl_env \<times> ssl_step) list \<Rightarrow> ssl_state \<Rightarrow> bool" where
  "attributions_ok steps s \<longleftrightarrow> bindings_ok steps s \<and>
     (\<forall>u \<in> set (ss_events s). conn_ok steps u)"

lemma attributed_mono: "attributed steps c \<Longrightarrow> attributed (steps @ xs) c"
  unfolding attributed_def by (metis append_assoc)

lemma conn_ok_mono: "conn_ok steps u \<Longrightarrow> conn_ok (steps @ xs) u"
  using attributed_mono unfolding conn_ok_def by blast

lemma ssl_event_attributed:
  assumes "bindings_ok steps s" "ss_session_tuple_map s' = ss_session_tuple_map s"
  shows "conn_ok steps (ssl_event env s' dir ssl buf num)"
proof (cases "ss_session_tuple_map s ssl")
  case None
  then show ?thesis using assms(2) by (simp add: conn_ok_def ssl_event_conn zero_uprobe_event_def zero_uprobe_conn_def)
next
  case (Some tup)
  then have "bound steps ssl tup" using assms(1) by (simp add: bindings_ok_def)
  then show ?thesis using Some assms(2) unfolding conn_ok_def attributed_def
    by (intro disjI2 exI [of _ steps] exI [of _ "[]"] exI [of _ ssl] exI [of _ tup]) (simp add: ssl_event_conn)
qed

lemma attributions_ok_exec:
  assumes "kernel_maps k" "attributions_ok steps s"
  shows "attributions_ok (steps @ [x]) (ssl_exec k x s)"
proof -
  have b: "bindings_ok steps s" using assms(2) by (simp add: attributions_ok_def)
  have old: "\<And>u. u \<in> set (ss_events s) \<Longrightarrow> conn_ok steps u" using assms(2) by (simp add: attributions_ok_def)
  have ev: "conn_ok steps (ssl_event env (s\<lparr>ss_read_args_map := r\<rparr>) dir ssl buf num)" "conn_ok steps (ssl_event env s dir ssl buf num)"
    for env r dir ssl buf num by (rule ssl_event_attributed [OF b], simp)+
  obtain env st where x: "x = (env, st)" by (cases x)
  have "conn_ok steps u" if "u \<in> set (ss_events (ssl_exec k x s))" for u
    using that x old ev by (cases st) (auto simp: ssl_handlers Let_def split: option.splits if_splits)
  then show ?thesis using bindings_ok_exec [OF assms(1) b] conn_ok_mono unfolding attributions_ok_def by blast
qed

lemma attributions_ok_init: "attributions_ok [] ssl_init"
  by (simp add: attributions_ok_def bindings_ok_def ssl_init_def)

lemma attributions_ok_run: "kernel_maps k \<Longrightarrow> attributions_ok steps (ssl_run k steps ssl_init)"
proof (induction steps rule: rev_induct)
  case (snoc x steps)
  then show ?case using attributions_ok_exec [of k steps "ssl_run k steps ssl_init" x] by simp
qed (simp add: attributions_ok_init)

text \<open>The maps may lose entries in between.\<close>

lemma attributions_ok_sub:
  assumes "attributions_ok steps s" "ss_events s' = ss_events s"
    and "ss_thread_tuple_map s' \<subseteq>\<^sub>m ss_thread_tuple_map s" "ss_session_tuple_map s' \<subseteq>\<^sub>m ss_session_tuple_map s"
  shows "attributions_ok steps s'"
proof -
  have "m' i = Some t \<Longrightarrow> m' \<subseteq>\<^sub>m m \<Longrightarrow> m i = Some t" for m m' :: "u64 \<rightharpoonup> hg_bound_tuple" and i t
    by (metis domI map_le_def)
  then show ?thesis using assms unfolding attributions_ok_def bindings_ok_def by metis
qed

text \<open>An IPv4 connection that was attributed is to the peer of a socket on port 443 that a thread touched.\<close>

definition touched_peer :: "(ssl_env \<times> ssl_step) list \<Rightarrow> u32 \<Rightarrow> bool" where
  "touched_peer steps a \<longleftrightarrow> (\<exists>env sk. (env, Touch (Some sk)) \<in> set steps \<and> skc_daddr sk = a \<and>
     (skc_num sk = HG_SESSION_TUPLE_PORT \<or> bswap16 (skc_dport sk) = HG_SESSION_TUPLE_PORT))"

lemma touched_peer_mono: "touched_peer steps a \<Longrightarrow> touched_peer (steps @ xs) a"
  unfolding touched_peer_def by auto

lemma attributed_peer:
  assumes "attributed steps c" "uc_is_ipv6 c = 0"
  shows "touched_peer steps (le_word (take 4 (uc_remote_addr c)))"
proof -
  obtain pre post ssl tup where a: "steps = pre @ post" "bound pre ssl tup" "c = conn_of_tuple tup"
    using assms(1) by (auto simp: attributed_def)
  then obtain env sk where t: "(env, Touch (Some sk)) \<in> set pre" "read_sock_tuple_if_port_443 (se_now env) sk = Some tup"
    unfolding bound_def recorded_def by fastforce
  from t(2) have "skc_num sk = HG_SESSION_TUPLE_PORT \<or> bswap16 (skc_dport sk) = HG_SESSION_TUPLE_PORT"
    "bd_is_ipv6 tup = 0 \<Longrightarrow> bd_remote_addr tup = le_bytes 4 (skc_daddr sk) @ replicate 12 0"
    by (auto simp: read_sock_tuple_if_port_443_def Let_def split: if_splits)
  then show ?thesis using a(1,3) t(1) assms(2) unfolding touched_peer_def
    by (intro exI [of _ env] exI [of _ sk]) (simp add: conn_of_tuple_def)
qed

section \<open>Well-formed states\<close>

text \<open>What the kernel's helpers promise of lengths: the task name has 16 bytes, a read of user memory returns the
  bytes asked for, an IPv6 address has 16.\<close>

definition sock_ok :: "sock \<Rightarrow> bool" where
  "sock_ok sk \<longleftrightarrow> length (skc_v6_rcv_saddr sk) = 16 \<and> length (skc_v6_daddr sk) = 16"

definition ssl_env_ok :: "ssl_env \<Rightarrow> bool" where
  "ssl_env_ok env \<longleftrightarrow> length (se_comm env) = HG_COMM_LEN \<and> (\<forall>a n bs. se_read_user env a n = Some bs \<longrightarrow> length bs = n)"

fun ssl_step_ok :: "ssl_kernel \<Rightarrow> ssl_env \<Rightarrow> ssl_step \<Rightarrow> bool" where
  "ssl_step_ok k env (Touch (Some sk)) \<longleftrightarrow> kernel_maps k \<and> ssl_env_ok env \<and> sock_ok sk"
| "ssl_step_ok k env _ \<longleftrightarrow> kernel_maps k \<and> ssl_env_ok env"

definition wf_tuple :: "hg_bound_tuple \<Rightarrow> bool" where
  "wf_tuple tup \<longleftrightarrow> length (bd_local_addr tup) = 16 \<and> length (bd_remote_addr tup) = 16"

definition ssl_wf :: "ssl_state \<Rightarrow> bool" where
  "ssl_wf s \<longleftrightarrow> (\<forall>tid tup. ss_thread_tuple_map s tid = Some tup \<longrightarrow> wf_tuple tup) \<and>
     (\<forall>ssl tup. ss_session_tuple_map s ssl = Some tup \<longrightarrow> wf_tuple tup) \<and> (\<forall>u \<in> set (ss_events s). wf_uprobe_event u)"

lemma sock_tuple_wf: "sock_ok sk \<Longrightarrow> read_sock_tuple_if_port_443 now sk = Some tup \<Longrightarrow> wf_tuple tup"
  by (auto simp: read_sock_tuple_if_port_443_def sock_ok_def wf_tuple_def Let_def split: if_splits)

lemma length_copy_snippet:
  assumes "ssl_env_ok env" "length snippet = HG_PAYLOAD_SNIPPET_LEN"
  shows "length (copy_snippet env buf num snippet) = HG_PAYLOAD_SNIPPET_LEN"
  using assms by (auto simp: copy_snippet_def ssl_env_ok_def HG_PAYLOAD_SNIPPET_LEN_def Let_def split: option.split)

lemma ssl_event_wf:
  assumes "ssl_env_ok env" "\<And>tup. ss_session_tuple_map s ssl = Some tup \<Longrightarrow> wf_tuple tup"
  shows "wf_uprobe_event (ssl_event env s dir ssl buf num)"
proof -
  have z: "wf_uprobe_event zero_uprobe_event" by (rule wf_zero_events)
  then have "length (copy_snippet env buf num (ut_payload_snippet (up_tls zero_uprobe_event))) = HG_PAYLOAD_SNIPPET_LEN"
    by (intro length_copy_snippet [OF assms(1)]) (simp add: wf_uprobe_event_def)
  moreover have "length (uc_local_addr (up_resolved_conn (ssl_event env s dir ssl buf num))) = 16
      \<and> length (uc_remote_addr (up_resolved_conn (ssl_event env s dir ssl buf num))) = 16"
    using z assms(2) by (auto simp: ssl_event_conn conn_of_tuple_def wf_tuple_def wf_uprobe_event_def split: option.split)
  ultimately show ?thesis using assms(1)
    by (simp add: wf_uprobe_event_def wf_hdr_def ssl_event_def fill_uprobe_event_fields_def ssl_env_ok_def Let_def)
qed

lemma ssl_step_ok_kernel: "ssl_step_ok k env st \<Longrightarrow> kernel_maps k \<and> ssl_env_ok env"
  by (cases "(k, env, st)" rule: ssl_step_ok.cases) auto

lemma ssl_wf_exec:
  assumes "ssl_step_ok k env st" "ssl_wf s"
  shows "ssl_wf (ssl_exec k (env, st) s)"
proof -
  have k: "kernel_maps k" and e: "ssl_env_ok env" using ssl_step_ok_kernel [OF assms(1)] by auto
  have ev: "wf_uprobe_event (ssl_event env (s\<lparr>ss_read_args_map := r\<rparr>) dir ssl buf num)" for r dir ssl buf num
    by (rule ssl_event_wf [OF e]) (use assms(2) in \<open>auto simp: ssl_wf_def\<close>)
  have ev0: "wf_uprobe_event (ssl_event env s dir ssl buf num)" for dir ssl buf num
    by (rule ssl_event_wf [OF e]) (use assms(2) in \<open>auto simp: ssl_wf_def\<close>)
  have "wf_uprobe_event u" if "u \<in> set (ss_events (ssl_exec k (env, st) s))" for u
    using that assms(2) ev ev0 by (cases st) (auto simp: ssl_wf_def ssl_handlers Let_def split: option.splits if_splits)
  moreover have "wf_tuple tup" if "ss_thread_tuple_map (ssl_exec k (env, st) s) tid = Some tup" for tid tup
    using ssl_exec_thread [OF k that] assms sock_tuple_wf by (auto simp: ssl_wf_def)
  moreover have "wf_tuple tup" if "ss_session_tuple_map (ssl_exec k (env, st) s) ssl = Some tup" for ssl tup
    using ssl_exec_session [OF k that] assms(2) by (auto simp: ssl_wf_def)
  ultimately show ?thesis by (auto simp: ssl_wf_def)
qed

text \<open>Another thread's steps leave a thread's saved read arguments alone.\<close>

lemma ssl_exec_args_frame:
  assumes "kernel_maps k" "se_pid_tgid (fst x) \<noteq> tid"
  shows "ss_read_args_map (ssl_exec k x s) tid = ss_read_args_map s tid"
proof -
  have f: "tid \<noteq> i \<Longrightarrow> snd (sk_args_update k m i v) tid = m tid" for m i v
    using assms(1) by (auto simp: kernel_maps_def bpf_hash_map.upd_frame)
  show ?thesis using assms(2)
    by (cases x; cases "snd x") (auto simp: ssl_handlers Let_def f split: option.splits)
qed

lemma ssl_run_args_frame:
  "kernel_maps k \<Longrightarrow> (\<And>x. x \<in> set mid \<Longrightarrow> se_pid_tgid (fst x) \<noteq> tid)
     \<Longrightarrow> ss_read_args_map (ssl_run k mid s) tid = ss_read_args_map s tid"
  by (induction mid arbitrary: s) (simp_all add: ssl_exec_args_frame)

lemma read_entry_stored:
  assumes "kernel_maps k" "ssl \<noteq> 0" "buf \<noteq> 0"
    and "ss_read_args_map s (se_pid_tgid env) = None \<Longrightarrow> fst (sk_args_update k (ss_read_args_map s) (se_pid_tgid env) \<lparr>ra_ssl = ssl, ra_buf = buf\<rparr>) = 0"
  shows "ss_read_args_map (ssl_exec k (env, Read_entry ssl buf) s) (se_pid_tgid env) = Some \<lparr>ra_ssl = ssl, ra_buf = buf\<rparr>"
proof -
  have h: "bpf_hash_map (sk_args_update k)" using assms(1) by (simp add: kernel_maps_def)
  have "fst (sk_args_update k (ss_read_args_map s) (se_pid_tgid env) \<lparr>ra_ssl = ssl, ra_buf = buf\<rparr>) = 0"
    using assms(4) bpf_hash_map.upd_existing [OF h] by blast
  then show ?thesis using assms(2,3) bpf_map.upd_stored [OF bpf_hash_map.axioms(1) [OF h]]
    by (simp add: https_guard_ssl_read_entry_def)
qed

text \<open>A concrete kernel, thread environment and socket for the witnesses.\<close>

definition demo_kernel :: ssl_kernel where "demo_kernel = ssl_maps (\<lambda>m. 0) (\<lambda>m. 0)"

definition demo_env :: "u64 \<Rightarrow> ssl_env" where
  "demo_env tid = \<lparr>se_pid_tgid = tid, se_now = 5, se_comm = replicate 16 NUL, se_reserve = True,
     se_read_user = (\<lambda>_ _. None), se_version_offset = 0\<rparr>"

definition demo_sock :: sock where
  "demo_sock = \<lparr>skc_family = 2, skc_num = 443, skc_dport = 0x5000, skc_rcv_saddr = 0x0100000A, skc_daddr = 0x0900000A,
     skc_v6_rcv_saddr = replicate 16 0, skc_v6_daddr = replicate 16 0\<rparr>"

definition demo_tuple :: hg_bound_tuple where
  "demo_tuple = \<lparr>bd_is_ipv6 = 0, bd_local_addr = [10, 0, 0, 1] @ replicate 12 0, bd_remote_addr = [10, 0, 0, 9] @ replicate 12 0,
     bd_local_port = 443, bd_remote_port = 80, bd_timestamp_ns = 5\<rparr>"

lemma demo_tuple_read: "read_sock_tuple_if_port_443 (se_now (demo_env tid)) demo_sock = Some demo_tuple"
  by (simp add: read_sock_tuple_if_port_443_def demo_env_def demo_sock_def demo_tuple_def HG_SESSION_TUPLE_PORT_def
      HG_AF_INET6_def bswap16_def Let_def) code_simp

lemma demo_kernel_maps: "kernel_maps demo_kernel"
  unfolding demo_kernel_def by (rule ssl_maps_kernel)

text \<open>C18: Where an attribution comes from.  After any run of the probes, under any interleaving of
  threads and whatever the LRU maps evict, a session's binding, and with it the connection an
  event for that session carries, was read from a port-443 socket that the thread of one of
  the session's handshakes had touched; between that touch and that handshake the thread
  neither touched another port-443 socket nor made another handshake (one touch binds at most
  one handshake), and the session was not freed since.  A null session is never bound.  Every
  event the run submitted is unresolved or names a connection that was so bound when it was
  submitted; over IPv4 its peer is that of a port-443 socket which a thread touched.
\<close>

theorem session_binding_provenance:
  assumes "kernel_maps k" "s = ssl_run k steps ssl_init"
  shows "(\<forall>ssl tup. ss_session_tuple_map s ssl = Some tup \<longrightarrow> ssl \<noteq> 0 \<and> bound steps ssl tup)
       \<and> (\<forall>env dir ssl buf num. uc_resolved (up_resolved_conn (ssl_event env s dir ssl buf num)) = 1 \<longrightarrow>
            (\<exists>tup. bound steps ssl tup
               \<and> up_resolved_conn (ssl_event env s dir ssl buf num) =
                   conn_of_tuple tup))
       \<and> (\<forall>u \<in> set (ss_events s). uc_resolved (up_resolved_conn u) = 0 \<or>
            attributed steps (up_resolved_conn u) \<and>
            (uc_is_ipv6 (up_resolved_conn u) = 0 \<longrightarrow> touched_peer steps (le_word (take 4 (uc_remote_addr (up_resolved_conn u))))))"
proof (intro conjI ballI)
  have ok: "bindings_ok steps s" "\<And>u. u \<in> set (ss_events s) \<Longrightarrow> conn_ok steps u"
    using attributions_ok_run [OF assms(1), of steps] assms(2) by (simp_all add: attributions_ok_def)
  show "\<forall>ssl tup. ss_session_tuple_map s ssl = Some tup \<longrightarrow> ssl \<noteq> 0 \<and> bound steps ssl tup"
    using ok(1) by (simp add: bindings_ok_def)
  show "\<forall>env dir ssl buf num. uc_resolved (up_resolved_conn (ssl_event env s dir ssl buf num)) = 1 \<longrightarrow>
      (\<exists>tup. bound steps ssl tup \<and> up_resolved_conn (ssl_event env s dir ssl buf num) = conn_of_tuple tup)"
    using ok(1) by (auto simp: bindings_ok_def ssl_event_conn zero_uprobe_event_def zero_uprobe_conn_def split: option.splits) blast
  show "uc_resolved (up_resolved_conn u) = 0 \<or> attributed steps (up_resolved_conn u) \<and>
      (uc_is_ipv6 (up_resolved_conn u) = 0 \<longrightarrow> touched_peer steps (le_word (take 4 (uc_remote_addr (up_resolved_conn u)))))"
    if "u \<in> set (ss_events s)" for u
    using ok(2) [OF that] attributed_peer by (auto simp: conn_ok_def)
qed

theorem session_binding_provenance_witness:
  "kernel_maps demo_kernel
   \<and> ss_session_tuple_map (ssl_run demo_kernel [(demo_env 7, Touch (Some demo_sock)), (demo_env 7, Handshake 16)] ssl_init) 16 = Some demo_tuple
   \<and> bound [(demo_env 7, Touch (Some demo_sock)), (demo_env 7, Handshake 16)] 16 demo_tuple"
proof -
  let ?s = "ssl_run demo_kernel [(demo_env 7, Touch (Some demo_sock)), (demo_env 7, Handshake 16)] ssl_init"
  have "ss_session_tuple_map ?s 16 = Some demo_tuple"
    by (simp add: ssl_handlers demo_tuple_read ssl_init_def demo_kernel_def ssl_maps_def thread_tuple_update_def
        session_tuple_update_def lru_update_def)
  then show ?thesis
    using session_binding_provenance [OF demo_kernel_maps refl,
        of "[(demo_env 7, Touch (Some demo_sock)), (demo_env 7, Handshake 16)]"] demo_kernel_maps by blast
qed

text \<open>Attribution as the probes do it.  When a thread touches a port-443 socket and then
  calls into a handshake, the session gets the tuple of that socket and the thread's record is
  consumed, so that a further handshake of the thread binds nothing; a write on the session
  then submits one event that carries the tuple, and once the session is freed its events are
  unresolved again.  The session and the socket need not belong together: the binding follows
  the order of the thread's calls only.
\<close>

theorem handshake_binds_last_touched:
  assumes "kernel_maps k" "ssl \<noteq> 0" "read_sock_tuple_if_port_443 (se_now e1) sk = Some tup"
    and "se_pid_tgid e1 = se_pid_tgid e2" "s' = ssl_run k [(e1, Touch (Some sk)), (e2, Handshake ssl)] s"
  shows "ss_session_tuple_map s' ssl = Some tup \<and> ss_thread_tuple_map s' (se_pid_tgid e2) = None
       \<and> (\<forall>e3 ssl'. se_pid_tgid e3 = se_pid_tgid e2 \<longrightarrow> ssl_exec k (e3, Handshake ssl') s' = s')
       \<and> (\<forall>e3 buf num. 0 < num \<longrightarrow> buf \<noteq> 0 \<longrightarrow> se_reserve e3 \<longrightarrow>
            ss_events (ssl_exec k (e3, Write ssl buf num) s') = ss_events s' @ [ssl_event e3 s' HG_UPROBE_DIR_WRITE ssl buf num]
            \<and> up_resolved_conn (ssl_event e3 s' HG_UPROBE_DIR_WRITE ssl buf num) =
                conn_of_tuple tup)
       \<and> (\<forall>e3 env dir buf num. uc_resolved (up_resolved_conn (ssl_event env (ssl_exec k (e3, Free ssl) s') dir ssl buf num)) = 0)"
proof -
  have l: "bpf_lru_map (sk_thread_update k)" "bpf_lru_map (sk_session_update k)"
    using assms(1) by (simp_all add: kernel_maps_def)
  have b: "ss_session_tuple_map s' ssl = Some tup" "ss_thread_tuple_map s' (se_pid_tgid e2) = None"
    using assms(2-5) l by (simp_all add: ssl_handlers bpf_lru_map.upd_now)
  then show ?thesis using assms(2)
    by (auto simp: ssl_event_conn) (simp_all add: ssl_handlers zero_uprobe_event_def zero_uprobe_conn_def)
qed

theorem handshake_binds_last_touched_witness:
  "ss_session_tuple_map (ssl_run demo_kernel [(demo_env 7, Touch (Some demo_sock)), (demo_env 7, Handshake 32)] ssl_init) 32
     = Some demo_tuple"
  using handshake_binds_last_touched [OF demo_kernel_maps, of 32 "demo_env 7" demo_sock demo_tuple "demo_env 7" _ ssl_init]
    demo_tuple_read by simp

text \<open>C30: Entry and exit of \<open>SSL_read\<close> pair up under interleaving.  Between a thread's entry
  probe, whose arguments the kernel could save, and its exit probe, other threads may run any
  probes: the exit then submits exactly one event, for the session and the buffer of this
  thread's entry, iff bytes were read and the ring buffer has room, and the saved arguments are
  gone in either case; without saved arguments the exit does nothing.
\<close>

theorem ssl_read_pairs:
  assumes "kernel_maps k" "ssl \<noteq> 0" "buf \<noteq> 0" "se_pid_tgid e2 = se_pid_tgid e1"
    and "ss_read_args_map s (se_pid_tgid e1) = None \<Longrightarrow> fst (sk_args_update k (ss_read_args_map s) (se_pid_tgid e1) \<lparr>ra_ssl = ssl, ra_buf = buf\<rparr>) = 0"
    and "\<And>x. x \<in> set mid \<Longrightarrow> se_pid_tgid (fst x) \<noteq> se_pid_tgid e1"
    and "s1 = ssl_run k ((e1, Read_entry ssl buf) # mid) s" "s2 = ssl_exec k (e2, Read_exit num) s1"
  shows "ss_events s2 = ss_events s1 @
           (if 0 < num \<and> se_reserve e2
            then [ssl_event e2 s1 HG_UPROBE_DIR_READ ssl buf num] else [])
       \<and> ss_read_args_map s2 (se_pid_tgid e1) = None
       \<and> (\<forall>num'. ssl_exec k (e2, Read_exit num') s2 = s2)
       \<and> ss_session_tuple_map s2 = ss_session_tuple_map s1"
proof -
  have "ss_read_args_map s1 (se_pid_tgid e1) = Some \<lparr>ra_ssl = ssl, ra_buf = buf\<rparr>"
    using ssl_run_args_frame [OF assms(1,6)] read_entry_stored [OF assms(1-3), of s e1] assms(5,7) by simp
  then show ?thesis using assms(4,8)
    by (simp add: https_guard_ssl_read_exit_def ssl_event_def fill_resolved_conn_def Let_def)
qed

theorem ssl_read_pairs_witness:
  "let s1 = ssl_run demo_kernel ((demo_env 7, Read_entry 16 64) # [(demo_env 8, Read_entry 24 64), (demo_env 8, Read_exit 0)]) ssl_init
   in ss_events (ssl_exec demo_kernel (demo_env 7, Read_exit 3) s1)
      = ss_events s1 @ [ssl_event (demo_env 7) s1 HG_UPROBE_DIR_READ 16 64 3]"
proof -
  let ?mid = "[(demo_env 8, Read_entry 24 64), (demo_env 8, Read_exit 0)]"
  have m: "\<And>x. x \<in> set ?mid \<Longrightarrow> se_pid_tgid (fst x) \<noteq> se_pid_tgid (demo_env 7)"
    by (auto simp: demo_env_def)
  have u: "fst (sk_args_update demo_kernel (ss_read_args_map ssl_init) (se_pid_tgid (demo_env 7)) \<lparr>ra_ssl = 16, ra_buf = 64\<rparr>) = 0"
    by (simp add: demo_kernel_def ssl_maps_def read_args_update_def hash_update_def ssl_init_def)
  have r: "se_reserve (demo_env 7)" by (simp add: demo_env_def)
  show ?thesis
    using ssl_read_pairs [where mid = ?mid and num = 3, OF demo_kernel_maps _ _ refl u m refl refl] r by (simp add: Let_def)
qed

end
