(* ===== verification/Sweepers.thy ===== *)
theory Sweepers
  imports Ssl_Uprobe Conn_Rate Dispatch
begin

text \<open>
  \<open>detections/core/sweep\<close>: \<open>ConnRateSweeper\<close> turns the per-source counters into events, and
  \<open>SessionTupleSweeper\<close> removes stale socket bindings.  A walk with \<open>bpf_map_get_next_key\<close> is the list of
  what it observed: the keys the kernel returned, in order, each with the result of the lookup
  (\<open>None\<close> when the entry was gone by then), so that the theorems hold whatever the packet path
  does underneath.  The clocks are arguments.
\<close>

section \<open>Clock\<close>

text \<open>\<open>monotonic_now_ns\<close>, the same in both files: \<open>None\<close> is a failing \<open>clock_gettime\<close>.\<close>

definition monotonic_now_ns :: "(int \<times> int) option \<Rightarrow> u64" where
  "monotonic_now_ns ts =
     (case ts of None \<Rightarrow> 0 | Some (tv_sec, tv_nsec) \<Rightarrow> word_of_int tv_sec * 1000000000 + word_of_int tv_nsec)"

section \<open>The rate sweeper\<close>

record thresholds =
  th_connection_rate :: u32
  th_open_conns :: u32
  th_handshakes :: u32

record conn_rate_sweeper =
  rs_map_fd :: int
  rs_thresholds :: thresholds
  rs_reported_rate :: "u32 \<rightharpoonup> u64"
  rs_reported_reneg :: "u32 \<rightharpoonup> u64"
  rs_reported_open :: "u32 \<rightharpoonup> u32"
  rs_last_report :: int

definition ConnRateSweeper :: "int \<Rightarrow> thresholds \<Rightarrow> conn_rate_sweeper" where
  "ConnRateSweeper map_fd th =
     \<lparr>rs_map_fd = map_fd, rs_thresholds = th, rs_reported_rate = Map.empty, rs_reported_reneg = Map.empty,
      rs_reported_open = Map.empty, rs_last_report = 0\<rparr>"

definition rate_enabled :: "conn_rate_sweeper \<Rightarrow> bool" where
  "rate_enabled sw \<longleftrightarrow>
     0 \<le> rs_map_fd sw \<and> (0 < th_connection_rate (rs_thresholds sw) \<or> 0 < th_open_conns (rs_thresholds sw)
       \<or> 0 < th_handshakes (rs_thresholds sw))"

datatype sweep_event =
    Rate conn_rate_event
  | Reneg renegotiation_event
  | Slow slowloris_event

text \<open>The locals of one walk.\<close>

record sweep_locals =
  sl_seen_rate :: "u32 \<rightharpoonup> u64"
  sl_seen_reneg :: "u32 \<rightharpoonup> u64"
  sl_seen_open :: "u32 \<rightharpoonup> u32"
  sl_entries_seen :: nat
  sl_max_syn :: u32
  sl_max_hello :: u32
  sl_max_open :: u32
  sl_reports :: "sweep_event list"

definition sweep_start :: sweep_locals where
  "sweep_start = \<lparr>sl_seen_rate = Map.empty, sl_seen_reneg = Map.empty, sl_seen_open = Map.empty, sl_entries_seen = 0,
     sl_max_syn = 0, sl_max_hello = 0, sl_max_open = 0, sl_reports = []\<rparr>"

definition sweep_meta :: "u64 \<Rightarrow> u32 \<Rightarrow> event_meta" where
  "sweep_meta now_ns key =
     EventMeta_init\<lparr>em_remote_ip := setV4 key (em_remote_ip EventMeta_init), em_source_ip := inet_ntop4 key,
       em_timestamp_ns := now_ns\<rparr>"

definition sweep_maxima :: "hg_conn_rate \<Rightarrow> sweep_locals \<Rightarrow> sweep_locals" where
  "sweep_maxima entry l =
     l\<lparr>sl_entries_seen := sl_entries_seen l + 1,
       sl_max_syn := (if sl_max_syn l < syn_count entry then syn_count entry else sl_max_syn l),
       sl_max_hello := (if sl_max_hello l < hello_count entry then hello_count entry else sl_max_hello l),
       sl_max_open := (if sint (sl_max_open l) < sint (open_conns entry) then open_conns entry else sl_max_open l)\<rparr>"

definition sweep_rate :: "conn_rate_sweeper \<Rightarrow> u64 \<Rightarrow> u32 \<Rightarrow> hg_conn_rate \<Rightarrow> sweep_locals \<Rightarrow> sweep_locals" where
  "sweep_rate sw now_ns key entry l =
     (let th = th_connection_rate (rs_thresholds sw) in
      if 0 < th \<and> th \<le> syn_count entry then
        let l = l\<lparr>sl_seen_rate := (sl_seen_rate l)(key \<mapsto> window_start_ns entry)\<rparr>;
            prev = rs_reported_rate sw key
        in if prev = None \<or> prev \<noteq> Some (window_start_ns entry)
           then l\<lparr>sl_reports := sl_reports l @
                    [Rate \<lparr>cre_meta = sweep_meta now_ns key, cre_attempts_in_window = syn_count entry,
                       cre_window_seconds = of_nat HTTPS_GUARD_CONN_RATE_WINDOW_SEC, cre_threshold = th\<rparr>]\<rparr>
           else l
      else l)"

definition sweep_reneg :: "conn_rate_sweeper \<Rightarrow> u64 \<Rightarrow> u32 \<Rightarrow> hg_conn_rate \<Rightarrow> sweep_locals \<Rightarrow> sweep_locals" where
  "sweep_reneg sw now_ns key entry l =
     (let th = th_handshakes (rs_thresholds sw) in
      if 0 < th \<and> th \<le> hello_count entry then
        let l = l\<lparr>sl_seen_reneg := (sl_seen_reneg l)(key \<mapsto> window_start_ns entry)\<rparr>;
            prev = rs_reported_reneg sw key
        in if prev = None \<or> prev \<noteq> Some (window_start_ns entry)
           then l\<lparr>sl_reports := sl_reports l @
                    [Reneg \<lparr>rne_meta = sweep_meta now_ns key, rne_handshakes_in_window = hello_count entry,
                       rne_window_seconds = of_nat HTTPS_GUARD_CONN_RATE_WINDOW_SEC, rne_threshold = th\<rparr>]\<rparr>
           else l
      else l)"

definition sweep_open :: "conn_rate_sweeper \<Rightarrow> u64 \<Rightarrow> u32 \<Rightarrow> hg_conn_rate \<Rightarrow> sweep_locals \<Rightarrow> sweep_locals" where
  "sweep_open sw now_ns key entry l =
     (let th = th_open_conns (rs_thresholds sw) in
      if 0 < th \<and> 0 < sint (open_conns entry) \<and> th \<le> open_conns entry then
        let lvl = open_conns entry;
            l = l\<lparr>sl_seen_open := (sl_seen_open l)(key \<mapsto> lvl)\<rparr>
        in if (case rs_reported_open sw key of None \<Rightarrow> True | Some prev \<Rightarrow> prev < lvl)
           then l\<lparr>sl_reports := sl_reports l @
                    [Slow \<lparr>sle_meta = sweep_meta now_ns key, sle_open_connections = lvl, sle_threshold = th\<rparr>]\<rparr>
           else l
      else l)"

fun sweep_one :: "conn_rate_sweeper \<Rightarrow> u64 \<Rightarrow> u32 \<times> hg_conn_rate option \<Rightarrow> sweep_locals \<Rightarrow> sweep_locals" where
  "sweep_one sw now_ns (key, None) l = l"
| "sweep_one sw now_ns (key, Some entry) l =
     sweep_open sw now_ns key entry (sweep_reneg sw now_ns key entry (sweep_rate sw now_ns key entry (sweep_maxima entry l)))"

fun sweep_verdict :: "sweep_event \<Rightarrow> verdict option" where
  "sweep_verdict (Rate evt) = ConnRateDetector_evaluate evt"
| "sweep_verdict (Reneg evt) = RenegotiationDetector_evaluate evt"
| "sweep_verdict (Slow evt) = SlowlorisDetector_evaluate evt"

fun sweep_event_meta :: "sweep_event \<Rightarrow> event_meta" where
  "sweep_event_meta (Rate evt) = cre_meta evt"
| "sweep_event_meta (Reneg evt) = rne_meta evt"
| "sweep_event_meta (Slow evt) = sle_meta evt"

text \<open>Evaluate and dispatch one event: what is pushed for it, \<open>None\<close> when \<open>dispatchVerdict\<close> throws.\<close>

definition sweep_dispatch ::
  "peer_resolver \<Rightarrow> json_dump \<Rightarrow> string \<Rightarrow> dispatch_context \<Rightarrow> sweep_event \<Rightarrow> action list list option" where
  "sweep_dispatch res dump now ctx evt =
     (case sweep_verdict evt of
        None \<Rightarrow> Some []
      | Some v \<Rightarrow> map_option (\<lambda>(actions, _). [actions]) (dispatchVerdict res dump now (sweep_event_meta evt) v ctx))"

text \<open>The result: the events in order and the counters report, if one is due.\<close>

definition rate_sweep ::
  "u64 \<Rightarrow> int \<Rightarrow> (u32 \<times> hg_conn_rate option) list \<Rightarrow> conn_rate_sweeper
   \<Rightarrow> sweep_event list \<times> (nat \<times> u32 \<times> u32 \<times> u32) option \<times> conn_rate_sweeper" where
  "rate_sweep now_ns steady walk sw =
     (if \<not> rate_enabled sw then ([], None, sw)
      else
        let l = fold (sweep_one sw now_ns) walk sweep_start;
            due = 0 < sl_entries_seen l \<and> 10 * ns_per_s \<le> steady - rs_last_report sw
        in (sl_reports l,
            if due then Some (sl_entries_seen l, sl_max_syn l, sl_max_hello l, sl_max_open l) else None,
            sw\<lparr>rs_last_report := (if due then steady else rs_last_report sw), rs_reported_rate := sl_seen_rate l,
               rs_reported_reneg := sl_seen_reneg l, rs_reported_open := sl_seen_open l\<rparr>))"

section \<open>The session-tuple sweeper\<close>

record session_tuple_sweeper =
  ts_thread_map_fd :: int
  ts_session_map_fd :: int

definition kMaxAge_ns :: u64 where "kMaxAge_ns = 5 * 60 * 1000000000"

definition SessionTupleSweeper :: "int \<Rightarrow> int \<Rightarrow> session_tuple_sweeper" where
  "SessionTupleSweeper thread_map_fd session_map_fd =
     \<lparr>ts_thread_map_fd = thread_map_fd, ts_session_map_fd = session_map_fd\<rparr>"

definition tuple_enabled :: "session_tuple_sweeper \<Rightarrow> bool" where
  "tuple_enabled sw \<longleftrightarrow> 0 \<le> ts_thread_map_fd sw \<and> 0 \<le> ts_session_map_fd sw"

text \<open>\<open>bpf_map_get_next_key\<close> is kernel code: a function of the map and the cursor.  The loop of
  \<open>sweepOneMap\<close> fetches the next key, then looks up and possibly deletes the current one.\<close>

type_synonym next_key = "(u64 \<rightharpoonup> hg_bound_tuple) \<Rightarrow> u64 option \<Rightarrow> u64 option"

definition sweep_age :: "u64 \<Rightarrow> u64 \<Rightarrow> u64 \<Rightarrow> (u64 \<rightharpoonup> hg_bound_tuple) \<Rightarrow> (u64 \<rightharpoonup> hg_bound_tuple)" where
  "sweep_age now_ns max_age_ns key m =
     (case m key of
        None \<Rightarrow> m
      | Some entry \<Rightarrow> if max_age_ns < now_ns - bd_timestamp_ns entry then map_delete_elem m key else m)"

partial_function (option) sweepOneMap_loop ::
  "next_key \<Rightarrow> u64 \<Rightarrow> u64 \<Rightarrow> u64 option \<Rightarrow> (u64 \<rightharpoonup> hg_bound_tuple) \<Rightarrow> (u64 \<rightharpoonup> hg_bound_tuple) option" where
  "sweepOneMap_loop get_next_key now_ns max_age_ns next_key m =
     (case next_key of
        None \<Rightarrow> Some m
      | Some key \<Rightarrow>
          sweepOneMap_loop get_next_key now_ns max_age_ns (get_next_key m (Some key)) (sweep_age now_ns max_age_ns key m))"

definition sweepOneMap ::
  "next_key \<Rightarrow> int \<Rightarrow> u64 \<Rightarrow> u64 \<Rightarrow> (u64 \<rightharpoonup> hg_bound_tuple) \<Rightarrow> (u64 \<rightharpoonup> hg_bound_tuple) option" where
  "sweepOneMap get_next_key map_fd now_ns max_age_ns m =
     (if map_fd < 0 then Some m else sweepOneMap_loop get_next_key now_ns max_age_ns (get_next_key m None) m)"

definition tuple_sweep :: "next_key \<Rightarrow> (int \<times> int) option \<Rightarrow> session_tuple_sweeper \<Rightarrow> ssl_state \<Rightarrow> ssl_state option" where
  "tuple_sweep get_next_key clock sw s =
     (if \<not> tuple_enabled sw then Some s
      else
        let now_ns = monotonic_now_ns clock in
        case sweepOneMap get_next_key (ts_thread_map_fd sw) now_ns kMaxAge_ns (ss_thread_tuple_map s) of
          None \<Rightarrow> None
        | Some t \<Rightarrow>
            (case sweepOneMap get_next_key (ts_session_map_fd sw) now_ns kMaxAge_ns (ss_session_tuple_map s) of
               None \<Rightarrow> None
             | Some u \<Rightarrow> Some (s\<lparr>ss_thread_tuple_map := t, ss_session_tuple_map := u\<rparr>)))"

section \<open>The key walk\<close>

text \<open>
  What the walk relies on: the kernel visits the keys in some order, a deletion does not
  reorder the others, and a cursor that is in the map is followed by its successor.  Nothing is
  assumed of a cursor that is no longer in the map.
\<close>

locale key_walk =
  fixes get_next_key :: next_key
    and key_order :: "(u64 \<rightharpoonup> hg_bound_tuple) \<Rightarrow> u64 list"
  assumes order_dom: "set (key_order m) = dom m"
    and order_distinct: "distinct (key_order m)"
    and order_delete: "key_order (map_delete_elem m k) = removeAll k (key_order m)"
    and next_first: "get_next_key m None = (case key_order m of [] \<Rightarrow> None | k # _ \<Rightarrow> Some k)"
    and next_after: "key_order m = xs @ k # ys \<Longrightarrow>
      get_next_key m (Some k) = (case ys of [] \<Rightarrow> None | y # _ \<Rightarrow> Some y)"
begin

lemma order_after_age:
  assumes "key_order m = xs @ k # ys"
  shows "\<exists>xs'. key_order (sweep_age now age k m) = xs' @ ys"
proof -
  have "removeAll k (xs @ k # ys) = xs @ ys" using assms order_distinct [of m] by (auto simp: removeAll_id)
  then show ?thesis using assms order_delete [of m k]
    by (cases "m k") (auto simp: sweep_age_def intro: exI [of _ "xs @ [k]"])
qed

lemma sweep_loop_returns:
  assumes "key_order m = xs @ ys"
  shows "sweepOneMap_loop get_next_key now age (case ys of [] \<Rightarrow> None | y # _ \<Rightarrow> Some y) m =
           Some (fold (sweep_age now age) ys m)"
  using assms
proof (induction ys arbitrary: m xs)
  case Nil
  then show ?case by (simp add: sweepOneMap_loop.simps)
next
  case (Cons k ys)
  obtain xs' where "key_order (sweep_age now age k m) = xs' @ ys" using order_after_age [OF Cons.prems] by blast
  then show ?case using Cons.IH [of "sweep_age now age k m" xs'] next_after [OF Cons.prems]
    by (simp add: sweepOneMap_loop.simps [of _ _ _ "Some k"])
qed

end

lemma fold_sweep_age:
  "distinct ks \<Longrightarrow> fold (sweep_age now age) ks m k =
     (if k \<in> set ks then (case m k of None \<Rightarrow> None | Some e \<Rightarrow> if age < now - bd_timestamp_ns e then None else Some e) else m k)"
  by (induction ks arbitrary: m) (auto simp: sweep_age_def split: option.split)

definition aged_out :: "u64 \<Rightarrow> u64 \<Rightarrow> (u64 \<rightharpoonup> hg_bound_tuple) \<Rightarrow> (u64 \<rightharpoonup> hg_bound_tuple)" where
  "aged_out now age m k = (case m k of None \<Rightarrow> None | Some e \<Rightarrow> if age < now - bd_timestamp_ns e then None else Some e)"

context key_walk
begin

lemma sweepOneMap_exact: "0 \<le> fd \<Longrightarrow> sweepOneMap get_next_key fd now age m = Some (aged_out now age m)"
  using sweep_loop_returns [of m "[]" "key_order m"] fold_sweep_age [OF order_distinct [of m]] order_dom [of m]
  by (auto simp: sweepOneMap_def next_first aged_out_def fun_eq_iff dom_def split: option.split)

lemma tuple_sweep_exact:
  "tuple_enabled sw \<Longrightarrow> tuple_sweep get_next_key clock sw s =
     Some (s\<lparr>ss_thread_tuple_map := aged_out (monotonic_now_ns clock) kMaxAge_ns (ss_thread_tuple_map s),
             ss_session_tuple_map := aged_out (monotonic_now_ns clock) kMaxAge_ns (ss_session_tuple_map s)\<rparr>)"
  by (simp add: tuple_sweep_def tuple_enabled_def sweepOneMap_exact Let_def)

end

text \<open>Without any contract a sweep, if it ends, has only removed entries.\<close>

lemma sweepOneMap_loop_le:
  assumes "sweepOneMap_loop nk now age nxt m = Some m'"
  shows "m' \<subseteq>\<^sub>m m"
proof (rule sweepOneMap_loop.raw_induct [of "\<lambda>nk now age nxt m m'. m' \<subseteq>\<^sub>m m", OF _ assms], goal_cases)
  case (1 loop nk now age nxt m m')
  show ?case
  proof (cases nxt)
    case (Some key)
    then have "m' \<subseteq>\<^sub>m sweep_age now age key m" using 1 by simp
    moreover have "sweep_age now age key m \<subseteq>\<^sub>m m"
      by (auto simp: sweep_age_def map_delete_elem_def map_le_def split: option.split)
    ultimately show ?thesis by (rule map_le_trans)
  qed (use 1 in simp)
qed

lemma tuple_sweep_removes:
  assumes "tuple_sweep nk clock sw s = Some s'"
  shows "ss_thread_tuple_map s' \<subseteq>\<^sub>m ss_thread_tuple_map s \<and> ss_session_tuple_map s' \<subseteq>\<^sub>m ss_session_tuple_map s \<and> ss_events s' = ss_events s"
  using assms sweepOneMap_loop_le
  by (fastforce simp: tuple_sweep_def sweepOneMap_def Let_def split: if_splits option.splits)

text \<open>The contract holds of a kernel that walks in key order and restarts on an unknown cursor.\<close>

definition sorted_keys :: "(u64 \<rightharpoonup> hg_bound_tuple) \<Rightarrow> u64 list" where
  "sorted_keys m = sorted_list_of_set (dom m)"

definition sorted_next_key :: next_key where
  "sorted_next_key m cursor =
     (case cursor of
        None \<Rightarrow> (case sorted_keys m of [] \<Rightarrow> None | k # _ \<Rightarrow> Some k)
      | Some k \<Rightarrow>
          (case dropWhile (\<lambda>x. x \<noteq> k) (sorted_keys m) of
             [] \<Rightarrow> (case sorted_keys m of [] \<Rightarrow> None | k # _ \<Rightarrow> Some k)
           | [_] \<Rightarrow> None
           | _ # y # _ \<Rightarrow> Some y))"

interpretation sorted_walk: key_walk sorted_next_key sorted_keys
proof unfold_locales
  fix m :: "u64 \<rightharpoonup> hg_bound_tuple" and k xs ys
  have f: "finite (dom m)" by simp
  show "set (sorted_keys m) = dom m" "distinct (sorted_keys m)" by (simp_all add: sorted_keys_def)
  show "sorted_keys (map_delete_elem m k) = removeAll k (sorted_keys m)"
    by (simp add: sorted_keys_def sorted_list_of_set_remove distinct_remove1_removeAll)
  show "sorted_next_key m None = (case sorted_keys m of [] \<Rightarrow> None | k # _ \<Rightarrow> Some k)"
    by (simp add: sorted_next_key_def)
  assume e: "sorted_keys m = xs @ k # ys"
  have "distinct (sorted_keys m)" by (simp add: sorted_keys_def)
  then have "\<forall>x \<in> set xs. x \<noteq> k" using e by auto
  then have "dropWhile (\<lambda>x. x \<noteq> k) (sorted_keys m) = k # ys" using e by (simp add: dropWhile_append2)
  then show "sorted_next_key m (Some k) = (case ys of [] \<Rightarrow> None | y # _ \<Rightarrow> Some y)"
    by (simp add: sorted_next_key_def split: list.split)
qed

section \<open>What one rate sweep reports\<close>

text \<open>What a walk contributes for one observed entry: the events, and the marks it leaves.\<close>

definition rate_over :: "conn_rate_sweeper \<Rightarrow> hg_conn_rate \<Rightarrow> bool" where
  "rate_over sw e \<longleftrightarrow> 0 < th_connection_rate (rs_thresholds sw) \<and> th_connection_rate (rs_thresholds sw) \<le> syn_count e"

definition reneg_over :: "conn_rate_sweeper \<Rightarrow> hg_conn_rate \<Rightarrow> bool" where
  "reneg_over sw e \<longleftrightarrow> 0 < th_handshakes (rs_thresholds sw) \<and> th_handshakes (rs_thresholds sw) \<le> hello_count e"

definition open_over :: "conn_rate_sweeper \<Rightarrow> hg_conn_rate \<Rightarrow> bool" where
  "open_over sw e \<longleftrightarrow>
     0 < th_open_conns (rs_thresholds sw) \<and> 0 < sint (open_conns e) \<and> th_open_conns (rs_thresholds sw) \<le> open_conns e"

definition climbed :: "conn_rate_sweeper \<Rightarrow> u32 \<Rightarrow> hg_conn_rate \<Rightarrow> bool" where
  "climbed sw k e \<longleftrightarrow> (case rs_reported_open sw k of None \<Rightarrow> True | Some prev \<Rightarrow> prev < open_conns e)"

definition entry_reports :: "conn_rate_sweeper \<Rightarrow> u64 \<Rightarrow> u32 \<Rightarrow> hg_conn_rate \<Rightarrow> sweep_event list" where
  "entry_reports sw now k e =
     (if rate_over sw e \<and> rs_reported_rate sw k \<noteq> Some (window_start_ns e)
      then [Rate \<lparr>cre_meta = sweep_meta now k, cre_attempts_in_window = syn_count e,
              cre_window_seconds = of_nat HTTPS_GUARD_CONN_RATE_WINDOW_SEC, cre_threshold = th_connection_rate (rs_thresholds sw)\<rparr>] else [])
   @ (if reneg_over sw e \<and> rs_reported_reneg sw k \<noteq> Some (window_start_ns e)
      then [Reneg \<lparr>rne_meta = sweep_meta now k, rne_handshakes_in_window = hello_count e,
              rne_window_seconds = of_nat HTTPS_GUARD_CONN_RATE_WINDOW_SEC, rne_threshold = th_handshakes (rs_thresholds sw)\<rparr>] else [])
   @ (if open_over sw e \<and> climbed sw k e
      then [Slow \<lparr>sle_meta = sweep_meta now k, sle_open_connections = open_conns e, sle_threshold = th_open_conns (rs_thresholds sw)\<rparr>] else [])"

fun obs_reports :: "conn_rate_sweeper \<Rightarrow> u64 \<Rightarrow> u32 \<times> hg_conn_rate option \<Rightarrow> sweep_event list" where
  "obs_reports sw now (k, None) = []"
| "obs_reports sw now (k, Some e) = entry_reports sw now k e"

lemma sweep_one_fields:
  "sl_reports (sweep_one sw now (k, Some e) l) = sl_reports l @ entry_reports sw now k e"
  "sl_seen_rate (sweep_one sw now (k, Some e) l) = (if rate_over sw e then (sl_seen_rate l)(k \<mapsto> window_start_ns e) else sl_seen_rate l)"
  "sl_seen_reneg (sweep_one sw now (k, Some e) l) = (if reneg_over sw e then (sl_seen_reneg l)(k \<mapsto> window_start_ns e) else sl_seen_reneg l)"
  "sl_seen_open (sweep_one sw now (k, Some e) l) = (if open_over sw e then (sl_seen_open l)(k \<mapsto> open_conns e) else sl_seen_open l)"
  by (auto simp: sweep_maxima_def sweep_rate_def sweep_reneg_def sweep_open_def entry_reports_def Let_def
      rate_over_def reneg_over_def open_over_def climbed_def)

lemma fold_reports: "sl_reports (fold (sweep_one sw now) walk l) = sl_reports l @ concat (map (obs_reports sw now) walk)"
proof (induction walk arbitrary: l)
  case (Cons x walk)
  then show ?case by (cases "(sw, now, x, l)" rule: sweep_one.cases) (simp_all add: sweep_one_fields del: sweep_one.simps(2))
qed simp

text \<open>The marks left for one source by a walk that visits it once.\<close>

lemma fold_seen:
  assumes "distinct (map fst walk)" "(k, Some e) \<in> set walk"
  shows "sl_seen_rate (fold (sweep_one sw now) walk l) k = (if rate_over sw e then Some (window_start_ns e) else sl_seen_rate l k)"
    and "sl_seen_reneg (fold (sweep_one sw now) walk l) k = (if reneg_over sw e then Some (window_start_ns e) else sl_seen_reneg l k)"
    and "sl_seen_open (fold (sweep_one sw now) walk l) k = (if open_over sw e then Some (open_conns e) else sl_seen_open l k)"
proof -
  have skip: "sl_seen_rate (fold (sweep_one sw now) w l) k = sl_seen_rate l k \<and>
              sl_seen_reneg (fold (sweep_one sw now) w l) k = sl_seen_reneg l k \<and>
              sl_seen_open (fold (sweep_one sw now) w l) k = sl_seen_open l k" if "k \<notin> set (map fst w)" for w l
    using that
  proof (induction w arbitrary: l)
    case (Cons x w)
    then show ?case by (cases "(sw, now, x, l)" rule: sweep_one.cases) (simp_all add: sweep_one_fields del: sweep_one.simps(2))
  qed simp
  obtain xs ys where w: "walk = xs @ (k, Some e) # ys" using assms(2) by (meson split_list)
  then have n: "k \<notin> set (map fst xs)" "k \<notin> set (map fst ys)" using assms(1) by auto
  show "sl_seen_rate (fold (sweep_one sw now) walk l) k = (if rate_over sw e then Some (window_start_ns e) else sl_seen_rate l k)"
    "sl_seen_reneg (fold (sweep_one sw now) walk l) k = (if reneg_over sw e then Some (window_start_ns e) else sl_seen_reneg l k)"
    "sl_seen_open (fold (sweep_one sw now) walk l) k = (if open_over sw e then Some (open_conns e) else sl_seen_open l k)"
    using skip [OF n(1), of l] skip [OF n(2), of "sweep_one sw now (k, Some e) (fold (sweep_one sw now) xs l)"]
    by (simp_all add: w sweep_one_fields del: sweep_one.simps(2))
qed

lemma rate_sweep_reports:
  "rate_enabled sw \<Longrightarrow> fst (rate_sweep now steady walk sw) = concat (map (obs_reports sw now) walk)"
  by (simp add: rate_sweep_def Let_def fold_reports sweep_start_def)

text \<open>Every event a sweep manufactures makes its rule fire, enforceably, for the key it was made of.\<close>

lemma entry_reports_fire:
  assumes "evt \<in> set (entry_reports sw now k e)"
  shows "\<exists>v. sweep_verdict evt = Some v \<and> actionable v" "sweep_event_meta evt = sweep_meta now k"
  using assms by (auto simp: entry_reports_def rate_over_def reneg_over_def open_over_def ConnRateDetector_evaluate_def
      RenegotiationDetector_evaluate_def SlowlorisDetector_evaluate_def not_less split: if_splits)

lemma sweep_meta_enforcement:
  "fst (enforcement (snd (ensurePeerResolved res (sweep_meta now k))) v ctx) =
     (if k = 0 then [] else [BlocklistAdd \<lparr>act_src_ip_v4 = k, act_ttl = dc_blocklist_ttl ctx, act_reason = message v\<rparr>])"
  by (simp add: ensurePeerResolved_no_resolver sweep_meta_def EventMeta_init_def enforcement_def Let_def)

text \<open>What a sweep reports of a source is ASCII, so that the JSON library never refuses it.\<close>

lemma ascii_inet_ntop4 [simp]: "ascii (inet_ntop4 ip)"
  by (simp add: inet_ntop4_def)

lemma sweep_verdict_reportable:
  assumes "sweep_event_meta evt = sweep_meta now k" "sweep_verdict evt = Some v"
  shows "reportable v"
proof -
  have ip: "ascii (em_source_ip (sweep_event_meta evt))" using assms(1) by (simp add: sweep_meta_def)
  show ?thesis using assms(2) ip by (cases evt) (auto dest: rates_reportable)
qed

lemma sweep_dispatch_groups:
  assumes "sweep_dispatch res dump now ctx evt = Some groups" "g \<in> set groups"
  shows "\<exists>v. sweep_verdict evt = Some v \<and> g = dispatched res dump now (sweep_event_meta evt) v ctx"
  using assms by (auto simp: sweep_dispatch_def dispatched_def split: option.splits)

lemma sweep_dispatch_actions:
  assumes "evt \<in> set (entry_reports sw now k e)" "dc_action_loop ctx" "strict_dump dump" "utf8 txt'"
  shows "\<exists>v l. sweep_verdict evt = Some v \<and> actionable v \<and> sweep_dispatch res dump txt' ctx evt = Some
     [(if k = 0 then [] else [BlocklistAdd \<lparr>act_src_ip_v4 = k, act_ttl = dc_blocklist_ttl ctx, act_reason = message v\<rparr>]) @ [Log l]]"
proof -
  obtain v where v: "sweep_verdict evt = Some v" "actionable v" using entry_reports_fire(1) [OF assms(1)] by blast
  note m = entry_reports_fire(2) [OF assms(1)]
  obtain as n where d: "dispatchVerdict res dump txt' (sweep_meta now k) v ctx = Some (as, n)"
    using dispatch_throws [OF assms(2-4), of res "sweep_meta now k" v] sweep_verdict_reportable [OF m v(1)] by fastforce
  then show ?thesis using dispatch_actions [OF assms(2) d] v m by (auto simp: sweep_dispatch_def sweep_meta_enforcement)
qed

text \<open>Several sweeps, one after another.\<close>

fun sweep_run :: "(u64 \<times> int \<times> (u32 \<times> hg_conn_rate option) list) list \<Rightarrow> conn_rate_sweeper \<Rightarrow> sweep_event list" where
  "sweep_run [] sw = []"
| "sweep_run ((now_ns, steady, walk) # rest) sw =
     (let (evts, _, sw') = rate_sweep now_ns steady walk sw in evts @ sweep_run rest sw')"

fun is_rate_of :: "u32 \<Rightarrow> sweep_event \<Rightarrow> bool" where
  "is_rate_of k (Rate evt) \<longleftrightarrow> v4 (em_remote_ip (cre_meta evt)) = k"
| "is_rate_of k _ \<longleftrightarrow> False"

lemma entry_reports_rate_of:
  "filter (is_rate_of k) (entry_reports sw now k' e) =
     (if k' = k \<and> rate_over sw e \<and> rs_reported_rate sw k \<noteq> Some (window_start_ns e)
      then [Rate \<lparr>cre_meta = sweep_meta now k, cre_attempts_in_window = syn_count e,
              cre_window_seconds = of_nat HTTPS_GUARD_CONN_RATE_WINDOW_SEC, cre_threshold = th_connection_rate (rs_thresholds sw)\<rparr>]
      else [])"
  by (auto simp: entry_reports_def sweep_meta_def)

lemma walk_rate_of:
  assumes "distinct (map fst walk)" "(k, Some e) \<in> set walk"
  shows "filter (is_rate_of k) (concat (map (obs_reports sw now) walk)) = filter (is_rate_of k) (entry_reports sw now k e)"
proof -
  have other: "filter (is_rate_of k) (concat (map (obs_reports sw now) w)) = []" if "k \<notin> set (map fst w)" for w
    using that
  proof (induction w)
    case (Cons x w)
    then show ?case by (cases "(sw, now, x)" rule: obs_reports.cases) (auto simp: entry_reports_rate_of)
  qed simp
  obtain xs ys where w: "walk = xs @ (k, Some e) # ys" using assms(2) by (meson split_list)
  then have n: "k \<notin> set (map fst xs)" "k \<notin> set (map fst ys)" using assms(1) by auto
  show ?thesis using other [OF n(1)] other [OF n(2)] by (simp add: w)
qed

lemma rate_sweep_next:
  assumes "rate_enabled sw" "distinct (map fst walk)" "(k, Some e) \<in> set walk" "rate_sweep now steady walk sw = (evts, out, sw')"
  shows "rs_thresholds sw' = rs_thresholds sw" "rs_map_fd sw' = rs_map_fd sw"
    "rs_reported_rate sw' k = (if rate_over sw e then Some (window_start_ns e) else None)"
  using assms(1,4) fold_seen(1) [OF assms(2,3), of sw now sweep_start]
  by (auto simp: rate_sweep_def Let_def sweep_start_def)

lemma sweep_run_quiet:
  assumes "rate_enabled sw" "0 < th_connection_rate (rs_thresholds sw)" "rs_reported_rate sw k = Some w"
    and "\<And>n s walk. (n, s, walk) \<in> set sweeps \<Longrightarrow> distinct (map fst walk) \<and>
      (\<exists>e. (k, Some e) \<in> set walk \<and> window_start_ns e = w \<and> th_connection_rate (rs_thresholds sw) \<le> syn_count e)"
  shows "filter (is_rate_of k) (sweep_run sweeps sw) = []"
  using assms
proof (induction sweeps arbitrary: sw)
  case (Cons x sweeps)
  obtain n s walk where x: "x = (n, s, walk)" by (cases x)
  obtain e where e: "distinct (map fst walk)" "(k, Some e) \<in> set walk" "window_start_ns e = w"
      "th_connection_rate (rs_thresholds sw) \<le> syn_count e"
    using Cons.prems(4) [of n s walk] x by auto
  obtain evts out sw' where r: "rate_sweep n s walk sw = (evts, out, sw')" by (cases "rate_sweep n s walk sw")
  have over: "rate_over sw e" using e(4) Cons.prems(2) by (simp add: rate_over_def)
  have evts: "evts = concat (map (obs_reports sw n) walk)" using rate_sweep_reports [OF Cons.prems(1), of n s walk] r by simp
  note nx = rate_sweep_next [OF Cons.prems(1) e(1,2) r]
  have "filter (is_rate_of k) (sweep_run sweeps sw') = []"
    by (rule Cons.IH) (use Cons.prems nx over e(3) x in \<open>auto simp: rate_enabled_def\<close>)
  then show ?case using walk_rate_of [OF e(1,2), of sw n] evts e(3) Cons.prems(3) r
    by (simp add: x entry_reports_rate_of)
qed simp

text \<open>The counters a walk over the counter map sees: an observation is the map's entry.\<close>

definition walk_of :: "conn_rate_map \<Rightarrow> (u32 \<times> hg_conn_rate option) list \<Rightarrow> bool" where
  "walk_of m walk \<longleftrightarrow> (\<forall>k e. (k, Some e) \<in> set walk \<longrightarrow> m k = Some e)"

text \<open>Which source, with which count of what, an event accuses.\<close>

fun accused :: "sweep_event \<Rightarrow> u32 \<times> hg_conn_event \<times> u32" where
  "accused (Rate evt) = (v4 (em_remote_ip (cre_meta evt)), HG_CONN_ATTEMPT, cre_threshold evt)"
| "accused (Reneg evt) = (v4 (em_remote_ip (rne_meta evt)), HG_CONN_HELLO, rne_threshold evt)"
| "accused (Slow evt) = (v4 (em_remote_ip (sle_meta evt)), HG_CONN_ATTEMPT, sle_threshold evt)"

lemma uint_of_sint: "0 \<le> sint (w :: u32) \<Longrightarrow> uint w = sint w"
  using sint_u32_bounds(2) [of w] by (subst uint_sint) (simp add: take_bit_int_eq_self)

lemma entry_reports_accused:
  assumes "evt \<in> set (entry_reports sw now k e)" "charged_at_most a h e"
  shows "\<exists>what th. accused evt = (k, what, th) \<and> 0 < th \<and>
     unat th \<le> (if what = HG_CONN_HELLO then h else a)"
proof -
  have pos: "0 < sint (open_conns e) \<Longrightarrow> unat (open_conns e) = level e"
    by (simp add: level_def uint_of_sint flip: nat_uint_eq)
  show ?thesis using assms pos
    by (auto simp: entry_reports_def rate_over_def reneg_over_def open_over_def sweep_meta_def charged_at_most_def
        word_le_nat_alt split: if_splits)
qed

text \<open>The subtraction wraps: an entry stamped after the sweep read its clock counts as old, and a
  failing clock, which reads as 0, makes every entry old.\<close>

lemma future_entry_aged_out:
  assumes "now < bd_timestamp_ns e" "unat (bd_timestamp_ns e) < 2 ^ 64 - unat kMaxAge_ns" "m k = Some e"
  shows "aged_out now kMaxAge_ns m k = None"
proof -
  have "unat kMaxAge_ns < unat (now - bd_timestamp_ns e)"
    using assms(1,2) by (simp add: unat_sub_if' word_less_nat_alt)
  then show ?thesis using assms(3) by (simp add: aged_out_def word_less_nat_alt)
qed

text \<open>A walk that visits a source twice (a cursor that was evicted restarts it) reports it twice:
  the check is against the previous sweep's marks.\<close>

lemma revisited_source_reported_twice:
  assumes "rate_enabled sw" "rate_over sw e" "rs_reported_rate sw k = None"
  shows "length (filter (is_rate_of k) (fst (rate_sweep now steady [(k, Some e), (k, Some e)] sw))) = 2"
  using assms by (simp add: rate_sweep_reports entry_reports_rate_of)

text \<open>A sweeper with a limit of two attempts, and the entry of a source that made two.\<close>

definition demo_sweeper :: conn_rate_sweeper where
  "demo_sweeper = ConnRateSweeper 5 \<lparr>th_connection_rate = 2, th_open_conns = 0, th_handshakes = 0\<rparr>"

definition demo_entry :: hg_conn_rate where
  "demo_entry = \<lparr>window_start_ns = 3, syn_count = 2, hello_count = 0, open_conns = 2\<rparr>"

definition demo_obs :: "(u64 \<times> u32 \<times> hg_conn_event) list" where
  "demo_obs = [(3, 7, HG_CONN_ATTEMPT), (4, 7, HG_CONN_ATTEMPT)]"

lemma demo_sweep_facts:
  "rate_enabled demo_sweeper" "rate_over demo_sweeper demo_entry" "rs_reported_rate demo_sweeper k = None"
  "th_connection_rate (rs_thresholds demo_sweeper) = 2" "window_start_ns demo_entry = 3" "syn_count demo_entry = 2"
  by (simp_all add: rate_enabled_def demo_sweeper_def ConnRateSweeper_def rate_over_def demo_entry_def)

lemma demo_counters:
  "run_obs (conn_rate_record (conn_rate_map_update (\<lambda>_. 0))) Map.empty demo_obs 7 = Some demo_entry"
  by (simp add: demo_obs_def conn_rate_record_def conn_rate_map_update_def lru_update_def
      HTTPS_GUARD_CONN_RATE_MAX_ENTRIES_def conn_rate_fresh_def conn_rate_roll_def demo_entry_def window_ns_def
      HTTPS_GUARD_CONN_RATE_WINDOW_SEC_def conn_rate_bump.simps Let_def)

section \<open>Properties\<close>

text \<open>C17: A sweep punishes only offenders.  Let the counter map be the result of any run of the
  packet path, whatever it evicted, and let a sweep observe entries of it.  Every event the sweep
  manufactures accuses a source that really sent at least as many connection attempts (or, for
  the renegotiation rule, handshakes) as the configured, non-zero limit; its rule fires; and the
  actions dispatched for it are the blocklisting of exactly that source and one log entry (the
  log entry alone for the unspecified address).  Its texts are ASCII, so a JSON library that
  throws only on text that is not UTF-8 never interrupts the sweep.\<close>

theorem sweep_punishes_only_offenders:
  assumes "walk_of (run_obs (conn_rate_record (conn_rate_map_update victim)) Map.empty os) walk"
    and "evt \<in> set (fst (rate_sweep now steady walk sw))" "dc_action_loop ctx"
    and "strict_dump dump" "utf8 txt'"
  shows "\<exists>k what th v l. accused evt = (k, what, th) \<and> 0 < th \<and> unat th \<le> sent k what os
     \<and> sweep_verdict evt = Some v
     \<and> sweep_dispatch res dump txt' ctx evt = Some
         [(if k = 0 then [] else [BlocklistAdd \<lparr>act_src_ip_v4 = k, act_ttl = dc_blocklist_ttl ctx, act_reason = message v\<rparr>]) @ [Log l]]"
proof -
  have en: "rate_enabled sw" using assms(2) by (cases "rate_enabled sw") (auto simp: rate_sweep_def)
  obtain ob where ob: "ob \<in> set walk" "evt \<in> set (obs_reports sw now ob)"
    using assms(2) by (auto simp: rate_sweep_reports [OF en])
  then obtain k e where k: "ob = (k, Some e)" "evt \<in> set (entry_reports sw now k e)"
    by (cases "(sw, now, ob)" rule: obs_reports.cases) auto
  have m: "run_obs (conn_rate_record (conn_rate_map_update victim)) Map.empty os k = Some e"
    using assms(1) ob(1) k(1) by (auto simp: walk_of_def)
  have "charged_at_most (sent k HG_CONN_ATTEMPT os) (sent k HG_CONN_HELLO os) e"
    using cr.run_charged [of Map.empty victim os k e] m by (simp add: conn_rate_lookup_def)
  from entry_reports_accused [OF k(2) this] obtain what th
    where "accused evt = (k, what, th)" "0 < th" "unat th \<le> (if what = HG_CONN_HELLO then sent k HG_CONN_HELLO os else sent k HG_CONN_ATTEMPT os)"
    by blast
  moreover have "what \<noteq> HG_CONN_CLOSED" using \<open>accused evt = (k, what, th)\<close> by (cases evt) auto
  ultimately have "unat th \<le> sent k what os" by (cases what) auto
  then show ?thesis using \<open>accused evt = (k, what, th)\<close> \<open>0 < th\<close> sweep_dispatch_actions [OF k(2) assms(3-5), of res] by blast
qed

theorem sweep_punishes_only_offenders_witness:
  "\<exists>evt k what th. evt \<in> set (fst (rate_sweep 9 0 [(7, Some demo_entry)] demo_sweeper))
     \<and> accused evt = (k, what, th) \<and> 0 < th \<and> unat th \<le> sent k what demo_obs"
proof -
  have w: "walk_of (run_obs (conn_rate_record (conn_rate_map_update (\<lambda>_. 0))) Map.empty demo_obs) [(7, Some demo_entry)]"
    by (simp add: walk_of_def demo_counters)
  have "fst (rate_sweep 9 0 [(7, Some demo_entry)] demo_sweeper) \<noteq> []"
    by (simp add: rate_sweep_reports demo_sweep_facts entry_reports_def)
  then obtain evt where e: "evt \<in> set (fst (rate_sweep 9 0 [(7, Some demo_entry)] demo_sweeper))"
    by (meson last_in_set)
  have c: "dc_action_loop \<lparr>dc_action_loop = True, dc_blocklist_ttl = 300, dc_output_path = []\<rparr>"
    "strict_dump (\<lambda>j. if json_utf8 j then Some [] else None)" "utf8 []" by (simp_all add: strict_dump_def)
  show ?thesis using sweep_punishes_only_offenders [OF w e c] e by blast
qed



text \<open>One report per source and window.  Over any number of sweeps that each see the source
  once, over the rate limit in the same window, the source is reported exactly once, by the
  first of them, and not at all if that window had been reported before.\<close>

theorem sweep_reports_once:
  assumes "rate_enabled sw" "0 < th_connection_rate (rs_thresholds sw)" "sweeps \<noteq> []"
    and "\<And>n s walk. (n, s, walk) \<in> set sweeps \<Longrightarrow> distinct (map fst walk) \<and>
      (\<exists>e. (k, Some e) \<in> set walk \<and> window_start_ns e = w \<and> th_connection_rate (rs_thresholds sw) \<le> syn_count e)"
  shows "length (filter (is_rate_of k) (sweep_run sweeps sw)) = (if rs_reported_rate sw k = Some w then 0 else 1)"
proof (cases "rs_reported_rate sw k = Some w")
  case True
  then show ?thesis using sweep_run_quiet [OF assms(1,2) True assms(4)] by simp
next
  case False
  obtain n s walk rest where x: "sweeps = (n, s, walk) # rest" using assms(3) by (cases sweeps) auto
  obtain e where e: "distinct (map fst walk)" "(k, Some e) \<in> set walk" "window_start_ns e = w"
      "th_connection_rate (rs_thresholds sw) \<le> syn_count e"
    using assms(4) [of n s walk] x by auto
  obtain evts out sw' where r: "rate_sweep n s walk sw = (evts, out, sw')" by (cases "rate_sweep n s walk sw")
  have over: "rate_over sw e" using e(4) assms(2) by (simp add: rate_over_def)
  have evts: "evts = concat (map (obs_reports sw n) walk)" using rate_sweep_reports [OF assms(1), of n s walk] r by simp
  note nx = rate_sweep_next [OF assms(1) e(1,2) r]
  have "filter (is_rate_of k) (sweep_run rest sw') = []"
    by (rule sweep_run_quiet [where w = w]) (use assms nx over e(3) x in \<open>auto simp: rate_enabled_def\<close>)
  then show ?thesis using walk_rate_of [OF e(1,2), of sw n] evts e(3) over False r
    by (simp add: x entry_reports_rate_of)
qed

theorem sweep_reports_once_witness:
  "length (filter (is_rate_of 7) (sweep_run [(9, 0, [(7, Some demo_entry)]), (10, 0, [(8, None), (7, Some demo_entry)])] demo_sweeper)) = 1"
proof -
  let ?sweeps = "[(9 :: u64, 0 :: int, [(7 :: u32, Some demo_entry)]), (10, 0, [(8, None), (7, Some demo_entry)])]"
  have s: "distinct (map fst walk) \<and> (\<exists>e. (7, Some e) \<in> set walk \<and> window_start_ns e = 3 \<and>
      th_connection_rate (rs_thresholds demo_sweeper) \<le> syn_count e)"
    if "(n, s, walk) \<in> set ?sweeps" for n s walk
    using that demo_sweep_facts by (auto intro!: exI [of _ demo_entry])
  show ?thesis
    using sweep_reports_once [where sweeps = ?sweeps, OF demo_sweep_facts(1) _ _ s] by (simp only: demo_sweep_facts) simp
qed

text \<open>C27: The stale-binding sweep returns, and is exact.  On any key order the kernel has, provided
  a cursor still in the map is followed by its successor, the sweep visits every key although it
  deletes while it walks, and leaves exactly the entries of both maps whose age, computed in
  64-bit arithmetic, is at most five minutes.  The events and saved read arguments are untouched.\<close>

theorem tuple_sweep_keeps_fresh:
  assumes "key_walk get_next_key key_order" "tuple_enabled sw"
  shows "\<exists>s'. tuple_sweep get_next_key clock sw s = Some s'
     \<and> ss_events s' = ss_events s \<and> ss_read_args_map s' = ss_read_args_map s
     \<and> (\<forall>k. ss_thread_tuple_map s' k =
           (case ss_thread_tuple_map s k of
              None \<Rightarrow> None
            | Some e \<Rightarrow> if monotonic_now_ns clock - bd_timestamp_ns e \<le> kMaxAge_ns then Some e else None))
     \<and> (\<forall>k. ss_session_tuple_map s' k =
           (case ss_session_tuple_map s k of
              None \<Rightarrow> None
            | Some e \<Rightarrow> if monotonic_now_ns clock - bd_timestamp_ns e \<le> kMaxAge_ns then Some e else None))"
  by (simp add: key_walk.tuple_sweep_exact [OF assms] aged_out_def not_less [symmetric] split: option.split)

theorem tuple_sweep_keeps_fresh_witness:
  "\<exists>s'. tuple_sweep sorted_next_key (Some (400, 0)) (SessionTupleSweeper 3 4)
       (ssl_init\<lparr>ss_session_tuple_map := [16 \<mapsto> demo_tuple]\<rparr>) = Some s' \<and> ss_session_tuple_map s' 16 = None"
proof -
  have en: "tuple_enabled (SessionTupleSweeper 3 4)" by (simp add: tuple_enabled_def SessionTupleSweeper_def)
  show ?thesis
    using tuple_sweep_keeps_fresh [OF sorted_walk.key_walk_axioms en, of "Some (400, 0)" "ssl_init\<lparr>ss_session_tuple_map := [16 \<mapsto> demo_tuple]\<rparr>"]
    by (auto simp: demo_tuple_def monotonic_now_ns_def kMaxAge_ns_def)
qed

end
