(* ===== verification/Sweep_Timer.thy ===== *)
theory Sweep_Timer
  imports Sweepers
begin

text \<open>
  The sweep timer of \<open>detections/core/engine/DetectLoop.cpp\<close>: enabling the sweepers, arming
  the timer, and the coroutine that runs both sweeps and re-arms it.  The worker threads run the
  handlers in any order, so the state counts what is outstanding: posted starts, armed waits
  and sweeps in progress.  Flags say whether Asio's calls succeeded; \<open>expires_after\<close> cancels a pending
  wait, whose handler then only returns.
\<close>

record sweep_timer =
  st_started :: bool
  st_stop :: bool
  st_posted :: nat
  st_armed :: nat
  st_sweeping :: nat
  st_rate :: "conn_rate_sweeper option"
  st_tuple :: "session_tuple_sweeper option"

definition sweep_timer_init :: sweep_timer where
  "sweep_timer_init = \<lparr>st_started = False, st_stop = False, st_posted = 0, st_armed = 0, st_sweeping = 0,
     st_rate = None, st_tuple = None\<rparr>"

definition armSweepTimer :: "bool \<Rightarrow> sweep_timer \<Rightarrow> sweep_timer" where
  "armSweepTimer arm_ok s = (if st_stop s then s else if arm_ok then s\<lparr>st_armed := 1\<rparr> else s)"

text \<open>The handler of the wait.\<close>

definition sweep_timer_handler :: "bool \<Rightarrow> bool \<Rightarrow> bool \<Rightarrow> sweep_timer \<Rightarrow> sweep_timer" where
  "sweep_timer_handler ec spawn_ok arm_ok s =
     (if ec \<or> st_stop s then s
      else if spawn_ok then s\<lparr>st_sweeping := st_sweeping s + 1\<rparr>
      else armSweepTimer arm_ok s)"

definition ensureSweepTimerStarted :: "bool \<Rightarrow> sweep_timer \<Rightarrow> sweep_timer" where
  "ensureSweepTimerStarted post_ok s =
     (if st_started s then s
      else let s = s\<lparr>st_started := True\<rparr> in
        if post_ok then s\<lparr>st_posted := st_posted s + 1\<rparr>
        else s\<lparr>st_started := False, st_rate := None, st_tuple := None\<rparr>)"

definition enableRateSweeps :: "bool \<Rightarrow> int \<Rightarrow> thresholds \<Rightarrow> sweep_timer \<Rightarrow> sweep_timer" where
  "enableRateSweeps post_ok conn_rate_map_fd th s =
     (let sw = ConnRateSweeper conn_rate_map_fd th in
      if \<not> rate_enabled sw then s\<lparr>st_rate := None\<rparr>
      else ensureSweepTimerStarted post_ok (s\<lparr>st_rate := Some sw\<rparr>))"

definition enableSessionTupleSweeps :: "bool \<Rightarrow> int \<Rightarrow> int \<Rightarrow> sweep_timer \<Rightarrow> sweep_timer" where
  "enableSessionTupleSweeps post_ok thread_map_fd session_map_fd s =
     (let sw = SessionTupleSweeper thread_map_fd session_map_fd in
      if \<not> tuple_enabled sw then s\<lparr>st_tuple := None\<rparr>
      else ensureSweepTimerStarted post_ok (s\<lparr>st_tuple := Some sw\<rparr>))"

text \<open>
  What one run of \<open>sweepAll\<close> finds: the clocks, the observations of the counter walk, and how it
  fails, if it does (\<open>rate_fault = Some n\<close>: an exception after \<open>n\<close> events had been dispatched, before
  the marks were replaced; an exception of \<open>dispatchVerdict\<close> ends the walk in the same way).
\<close>

record sweep_input =
  si_clock :: "(int \<times> int) option"
  si_steady :: int
  si_walk :: "(u32 \<times> hg_conn_rate option) list"
  si_rate_fault :: "nat option"
  si_ssl :: ssl_state
  si_next_key :: next_key
  si_arm_ok :: bool

text \<open>The events of a walk are dispatched in order until one throws.\<close>

fun dispatch_events :: "(sweep_event \<Rightarrow> action list list option) \<Rightarrow> sweep_event list \<Rightarrow> action list list \<times> bool" where
  "dispatch_events disp [] = ([], False)"
| "dispatch_events disp (evt # evts) =
     (case disp evt of
        None \<Rightarrow> ([], True)
      | Some groups \<Rightarrow> let (rest, threw) = dispatch_events disp evts in (groups @ rest, threw))"

definition sweep_rates ::
  "(sweep_event \<Rightarrow> action list list option) \<Rightarrow> sweep_input \<Rightarrow> conn_rate_sweeper option \<Rightarrow> action list list \<times> conn_rate_sweeper option" where
  "sweep_rates disp inp rate =
     (case rate of
        None \<Rightarrow> ([], None)
      | Some sw \<Rightarrow>
          let (evts, _, sw') = rate_sweep (monotonic_now_ns (si_clock inp)) (si_steady inp) (si_walk inp) sw in
          case si_rate_fault inp of
            None \<Rightarrow> let (pushed, threw) = dispatch_events disp evts in (pushed, Some (if threw then sw else sw'))
          | Some n \<Rightarrow> (fst (dispatch_events disp (take n evts)), Some sw))"

definition sweep_tuples :: "sweep_input \<Rightarrow> session_tuple_sweeper option \<Rightarrow> ssl_state option" where
  "sweep_tuples inp tuple =
     (case tuple of None \<Rightarrow> Some (si_ssl inp) | Some sw \<Rightarrow> tuple_sweep (si_next_key inp) (si_clock inp) sw (si_ssl inp))"

definition sweepAll ::
  "(sweep_event \<Rightarrow> action list list option) \<Rightarrow> sweep_input \<Rightarrow> sweep_timer \<Rightarrow> (action list list \<times> ssl_state \<times> sweep_timer) option" where
  "sweepAll disp inp s =
     (let (pushed, rate') = sweep_rates disp inp (st_rate s) in
      case sweep_tuples inp (st_tuple s) of
        None \<Rightarrow> None
      | Some ssl' \<Rightarrow>
          Some (pushed, ssl', armSweepTimer (si_arm_ok inp) (s\<lparr>st_rate := rate', st_sweeping := st_sweeping s - 1\<rparr>)))"

section \<open>Steps\<close>

datatype sweep_label =
    Enable_rate bool int thresholds
  | Enable_tuple bool int int
  | Run_posted bool
  | Fire bool bool bool
  | Sweep "sweep_event \<Rightarrow> action list list option" sweep_input
  | Stop_sweeps

fun sweep_exec :: "sweep_label \<Rightarrow> sweep_timer \<Rightarrow> sweep_timer option" where
  "sweep_exec (Enable_rate post_ok fd th) s = Some (enableRateSweeps post_ok fd th s)"
| "sweep_exec (Enable_tuple post_ok fd1 fd2) s = Some (enableSessionTupleSweeps post_ok fd1 fd2 s)"
| "sweep_exec (Run_posted arm_ok) s =
     (if st_posted s = 0 then None else Some (armSweepTimer arm_ok (s\<lparr>st_posted := st_posted s - 1\<rparr>)))"
| "sweep_exec (Fire ec spawn_ok arm_ok) s =
     (if st_armed s = 0 then None else Some (sweep_timer_handler ec spawn_ok arm_ok (s\<lparr>st_armed := st_armed s - 1\<rparr>)))"
| "sweep_exec (Sweep disp inp) s =
     (if st_sweeping s = 0 then None else map_option (\<lambda>(_, _, s'). s') (sweepAll disp inp s))"
| "sweep_exec Stop_sweeps s = Some (s\<lparr>st_stop := True\<rparr>)"

text \<open>A step in which every call of the library succeeded and nothing stopped the loop.\<close>

fun smooth :: "sweep_label \<Rightarrow> bool" where
  "smooth (Enable_rate post_ok _ _) = post_ok"
| "smooth (Enable_tuple post_ok _ _) = post_ok"
| "smooth (Run_posted arm_ok) = arm_ok"
| "smooth (Fire ec spawn_ok arm_ok) = (\<not> ec \<and> (spawn_ok \<or> arm_ok))"
| "smooth (Sweep disp inp) = si_arm_ok inp"
| "smooth Stop_sweeps = False"

text \<open>Reachable states; with \<open>sm\<close>, by smooth steps only.\<close>

inductive sweep_reach :: "bool \<Rightarrow> sweep_timer \<Rightarrow> bool" for sm where
  init: "sweep_reach sm sweep_timer_init"
| step: "sweep_reach sm s \<Longrightarrow> sweep_exec l s = Some s' \<Longrightarrow> (sm \<Longrightarrow> smooth l) \<Longrightarrow> sweep_reach sm s'"

definition outstanding :: "sweep_timer \<Rightarrow> nat" where
  "outstanding s = st_posted s + st_armed s + st_sweeping s"

definition sweep_inv :: "bool \<Rightarrow> sweep_timer \<Rightarrow> bool" where
  "sweep_inv sm s \<longleftrightarrow>
     outstanding s \<le> 1 \<and> (\<not> st_started s \<longrightarrow> outstanding s = 0 \<and> st_rate s = None \<and> st_tuple s = None)
     \<and> (\<forall>sw. st_rate s = Some sw \<longrightarrow> rate_enabled sw) \<and> (\<forall>sw. st_tuple s = Some sw \<longrightarrow> tuple_enabled sw)
     \<and> (sm \<longrightarrow> \<not> st_stop s \<and> (st_started s \<longrightarrow> outstanding s = 1))"

lemmas sweep_inv_defs = sweep_inv_def outstanding_def

lemma dispatch_events_groups:
  "g \<in> set (fst (dispatch_events disp evts)) \<Longrightarrow> \<exists>evt groups. evt \<in> set evts \<and> disp evt = Some groups \<and> g \<in> set groups"
  by (induction evts) (auto split: option.splits prod.splits)

lemma rate_sweep_enabled:
  "rate_sweep now steady walk sw = (evts, out, sw') \<Longrightarrow> rate_enabled sw' = rate_enabled sw"
  by (auto simp: rate_sweep_def Let_def rate_enabled_def split: if_splits)

lemma sweep_rates_enabled:
  "sweep_rates disp inp rate = (pushed, rate') \<Longrightarrow>
   (rate' = None \<longleftrightarrow> rate = None) \<and> (\<forall>sw'. rate' = Some sw' \<longrightarrow> (\<exists>sw. rate = Some sw \<and> rate_enabled sw' = rate_enabled sw))"
  by (auto simp: sweep_rates_def Let_def split: option.splits prod.splits if_splits dest: rate_sweep_enabled)

lemma inv_ensure:
  "sweep_inv sm s \<Longrightarrow> rate_enabled sw \<Longrightarrow> (sm \<Longrightarrow> ok) \<Longrightarrow> sweep_inv sm (ensureSweepTimerStarted ok (s\<lparr>st_rate := Some sw\<rparr>))"
  "sweep_inv sm s \<Longrightarrow> tuple_enabled sw2 \<Longrightarrow> (sm \<Longrightarrow> ok) \<Longrightarrow> sweep_inv sm (ensureSweepTimerStarted ok (s\<lparr>st_tuple := Some sw2\<rparr>))"
  by (auto simp: sweep_inv_defs ensureSweepTimerStarted_def Let_def)

lemma inv_step:
  assumes "sweep_inv sm s" "sweep_exec l s = Some s'" "sm \<Longrightarrow> smooth l"
  shows "sweep_inv sm s'"
proof (cases l)
  case (Enable_rate ok fd th)
  then show ?thesis using assms inv_ensure(1) [OF assms(1), of "ConnRateSweeper fd th" ok]
    by (auto simp: enableRateSweeps_def Let_def sweep_inv_defs split: if_splits)
next
  case (Enable_tuple ok fd1 fd2)
  then show ?thesis using assms inv_ensure(2) [OF assms(1), of "SessionTupleSweeper fd1 fd2" ok]
    by (auto simp: enableSessionTupleSweeps_def Let_def sweep_inv_defs split: if_splits)
next
  case (Sweep disp inp)
  obtain pushed rate' where r: "sweep_rates disp inp (st_rate s) = (pushed, rate')" by fastforce
  show ?thesis using Sweep assms r sweep_rates_enabled [OF r]
    by (auto simp: sweepAll_def armSweepTimer_def sweep_inv_defs split: option.splits if_splits)
next
  case (Run_posted ok)
  then show ?thesis using assms by (auto simp: sweep_inv_defs armSweepTimer_def split: if_splits)
next
  case (Fire ec spawn_ok arm_ok)
  then show ?thesis using assms by (auto simp: sweep_inv_defs armSweepTimer_def sweep_timer_handler_def split: if_splits)
next
  case Stop_sweeps
  then show ?thesis using assms by (auto simp: sweep_inv_defs)
qed

lemma sweep_reach_inv: "sweep_reach sm s \<Longrightarrow> sweep_inv sm s"
proof (induction rule: sweep_reach.induct)
  case init
  then show ?case by (simp add: sweep_inv_defs sweep_timer_init_def)
next
  case (step s l s')
  then show ?case by (blast intro: inv_step)
qed

text \<open>C28: Sweeps are serial and are not lost.  In every reachable state, however the workers
  interleave and whichever library calls fail, at most one start, wait or sweep is outstanding,
  so two sweeps never overlap, and only enabled sweepers are kept.  As long as the library calls
  succeed and the loop is not stopped, exactly one is outstanding once a sweeper was enabled:
  every sweep is followed by another.
\<close>

theorem sweeps_serial:
  assumes "sweep_reach sm s"
  shows "st_posted s + st_armed s + st_sweeping s \<le> 1
       \<and> (\<forall>sw. st_rate s = Some sw \<longrightarrow> rate_enabled sw) \<and> (\<forall>sw. st_tuple s = Some sw \<longrightarrow> tuple_enabled sw)
       \<and> (sm \<longrightarrow> st_rate s \<noteq> None \<or> st_tuple s \<noteq> None \<longrightarrow> st_posted s + st_armed s + st_sweeping s = 1)"
  using sweep_reach_inv [OF assms] by (auto simp: sweep_inv_defs)

theorem sweeps_serial_witness:
  "\<exists>s. sweep_reach True s \<and> st_rate s \<noteq> None \<and> st_posted s + st_armed s + st_sweeping s = 1"
proof -
  let ?s = "enableRateSweeps True 5 \<lparr>th_connection_rate = 2, th_open_conns = 0, th_handshakes = 0\<rparr> sweep_timer_init"
  have r: "sweep_reach True ?s"
    by (rule sweep_reach.step [OF sweep_reach.init,
          where l = "Enable_rate True 5 \<lparr>th_connection_rate = 2, th_open_conns = 0, th_handshakes = 0\<rparr>"]) simp_all
  have "st_rate ?s \<noteq> None"
    by (simp add: enableRateSweeps_def ensureSweepTimerStarted_def rate_enabled_def ConnRateSweeper_def sweep_timer_init_def Let_def)
  then show ?thesis using sweeps_serial [OF r] r by auto
qed

end
