(* ===== verification/Peer_Resolver.thy ===== *)
theory Peer_Resolver
  imports Dispatch
begin

text \<open>
  \<open>programs/ssl_uprobe/src/proc_peer_resolver.hpp\<close> and \<open>SslUprobeProgram::resolvePeer\<close>: the
  fallback attribution of an SSL event to a connection, from the \<open>/proc\<close> files of the process.
  What the kernel answers is an argument (\<open>proc_fs\<close>): the directory of descriptor links, with
  each link's target, and the text of the socket table.  The conversions of the C and C++
  libraries that the parser uses are modelled first.
\<close>

section \<open>Library conversions\<close>

definition is_space :: "char \<Rightarrow> bool" where
  "is_space c \<longleftrightarrow> (let n = of_char c :: nat in n = 32 \<or> 9 \<le> n \<and> n \<le> 13)"

definition digit_value :: "nat \<Rightarrow> char \<Rightarrow> nat option" where
  "digit_value base c =
     (let n = of_char c :: nat;
          v = (if 48 \<le> n \<and> n \<le> 57 then n - 48 else if 65 \<le> n \<and> n \<le> 90 then n - 55
               else if 97 \<le> n \<and> n \<le> 122 then n - 87 else 99)
      in if v < base then Some v else None)"

definition is_digit :: "nat \<Rightarrow> char \<Rightarrow> bool" where
  "is_digit base c \<longleftrightarrow> digit_value base c \<noteq> None"

definition digits_value :: "nat \<Rightarrow> string \<Rightarrow> nat" where
  "digits_value base s = foldl (\<lambda>acc c. base * acc + the (digit_value base c)) 0 s"

text \<open>The value \<open>strtol\<close> and its relatives read before any range check; \<open>None\<close> when there is no digit.\<close>

definition strto :: "nat \<Rightarrow> string \<Rightarrow> int option" where
  "strto base s =
     (let s = dropWhile is_space s;
          neg = (case s of c # _ \<Rightarrow> c = CHR ''-'' | [] \<Rightarrow> False);
          s = (case s of c # cs \<Rightarrow> if c = CHR ''-'' \<or> c = CHR ''+'' then cs else s | [] \<Rightarrow> []);
          s = (case s of z # x # d # _ \<Rightarrow>
                 if base = 16 \<and> z = CHR ''0'' \<and> (x = CHR ''x'' \<or> x = CHR ''X'') \<and> is_digit 16 d then drop 2 s else s
               | _ \<Rightarrow> s);
          ds = takeWhile (is_digit base) s
      in if ds = [] then None
         else Some (if neg then - int (digits_value base ds) else int (digits_value base ds)))"

text \<open>\<open>std::stoul\<close> and \<open>std::stoi\<close> on the 32-bit target; \<open>None\<close> is the exception.\<close>

definition stoul :: "nat \<Rightarrow> string \<Rightarrow> u32 option" where
  "stoul base s =
     (case strto base s of None \<Rightarrow> None | Some v \<Rightarrow> if \<bar>v\<bar> < 2 ^ 32 then Some (word_of_int v) else None)"

definition stoi :: "nat \<Rightarrow> string \<Rightarrow> int option" where
  "stoi base s =
     (case strto base s of None \<Rightarrow> None | Some v \<Rightarrow> if - (2 ^ 31) \<le> v \<and> v < 2 ^ 31 then Some v else None)"

definition strtoull :: "nat \<Rightarrow> string \<Rightarrow> u64" where
  "strtoull base s =
     (case strto base s of None \<Rightarrow> 0 | Some v \<Rightarrow> if \<bar>v\<bar> < 2 ^ 64 then word_of_int v else - 1)"

text \<open>\<open>std::getline\<close> until the end of the text, and \<open>>>\<close> into a string until it fails.\<close>

function getlines :: "string \<Rightarrow> string list" where
  "getlines s =
     (if s = [] then [] else takeWhile (\<lambda>c. c \<noteq> CHR 0x0A) s # getlines (drop 1 (dropWhile (\<lambda>c. c \<noteq> CHR 0x0A) s)))"
  by pat_completeness auto

termination getlines
proof (relation "measure length")
  fix s :: string assume "s \<noteq> []"
  then show "(drop 1 (dropWhile (\<lambda>c. c \<noteq> CHR 0x0A) s), s) \<in> measure length"
    using length_dropWhile_le [of "\<lambda>c. c \<noteq> CHR 0x0A" s] by (cases s) (auto simp: le_less_trans)
qed simp

function split_columns :: "string \<Rightarrow> string list" where
  "split_columns s =
     (let s = dropWhile is_space s in
      if s = [] then []
      else takeWhile (\<lambda>c. \<not> is_space c) s # split_columns (dropWhile (\<lambda>c. \<not> is_space c) s))"
  by pat_completeness auto

termination split_columns
proof (relation "measure length")
  fix s x :: string assume x: "x = dropWhile is_space s" "x \<noteq> []"
  then obtain c cs where c: "x = c # cs" "\<not> is_space c" by (metis hd_dropWhile list.exhaust_sel)
  have "length (dropWhile (\<lambda>c. \<not> is_space c) x) \<le> length cs"
    using c length_dropWhile_le [of "\<lambda>c. \<not> is_space c" cs] by simp
  moreover have "length (c # cs) \<le> length s" using x(1) c(1) length_dropWhile_le [of is_space s] by metis
  ultimately show "(dropWhile (\<lambda>c. \<not> is_space c) x, s) \<in> measure length" by simp
qed simp

declare getlines.simps [simp del] split_columns.simps [simp del]

section \<open>The resolver\<close>

record tcp_socket_entry =
  se_local_ip_v4 :: u32
  se_remote_ip_v4 :: u32
  se_local_port :: u16
  se_remote_port :: u16
  se_uid :: int
  se_tx_queue :: int
  se_rx_queue :: int
  se_sk :: int
  se_inode :: u64

definition zero_socket_entry :: tcp_socket_entry where
  "zero_socket_entry = \<lparr>se_local_ip_v4 = 0, se_remote_ip_v4 = 0, se_local_port = 0, se_remote_port = 0, se_uid = 0,
     se_tx_queue = 0, se_rx_queue = 0, se_sk = 0, se_inode = 0\<rparr>"

record peer_resolution =
  pr_resolved :: bool
  pr_entry :: tcp_socket_entry
  pr_reason :: string

text \<open>\<open>pf_fd_dir\<close>: the names in \<open>/proc/<pid>/fd\<close> with \<open>readlink\<close>'s result; \<open>pf_net_tcp\<close>: \<open>/proc/<pid>/net/tcp\<close>.\<close>

record proc_fs =
  pf_fd_dir :: "u32 \<Rightarrow> (string \<times> string option) list option"
  pf_net_tcp :: "u32 \<Rightarrow> string option"

definition kTcpStateEstablished :: string where "kTcpStateEstablished = ''01''"

definition parseProcNetEntry :: "string \<Rightarrow> u32 \<times> u16 \<Rightarrow> u32 \<times> u16" where
  "parseProcNetEntry field out =
     (if CHR '':'' \<notin> set field then (0, 0)
      else
        let ip_hex = takeWhile (\<lambda>c. c \<noteq> CHR '':'') field;
            port_hex = drop 1 (dropWhile (\<lambda>c. c \<noteq> CHR '':'') field);
            ip_v4 = (if length ip_hex = 8 then (case stoul 16 ip_hex of None \<Rightarrow> 0 | Some v \<Rightarrow> v) else fst out);
            port = (if length port_hex \<le> 4 then (case stoul 16 port_hex of None \<Rightarrow> 0 | Some v \<Rightarrow> ucast v) else snd out)
        in (ip_v4, port))"

definition parseQueue :: "string \<Rightarrow> int \<times> int \<Rightarrow> int \<times> int" where
  "parseQueue field out =
     (if CHR '':'' \<notin> set field then out
      else
        case stoi 16 (takeWhile (\<lambda>c. c \<noteq> CHR '':'') field) of
          None \<Rightarrow> out
        | Some tx \<Rightarrow>
            (case stoi 16 (drop 1 (dropWhile (\<lambda>c. c \<noteq> CHR '':'') field)) of
               None \<Rightarrow> (tx, snd out)
             | Some rx \<Rightarrow> (tx, rx)))"

text \<open>One line of the table, after the header.\<close>

definition parse_socket_line :: "string \<Rightarrow> tcp_socket_entry option" where
  "parse_socket_line line =
     (let cols = split_columns line in
      if length cols < 10 then None
      else if cols ! 3 \<noteq> kTcpStateEstablished then None
      else
        let entry = zero_socket_entry;
            (lip, lport) = parseProcNetEntry (cols ! 1) (se_local_ip_v4 entry, se_local_port entry);
            (rip, rport) = parseProcNetEntry (cols ! 2) (se_remote_ip_v4 entry, se_remote_port entry);
            (tx, rx) = parseQueue (cols ! 4) (se_tx_queue entry, se_rx_queue entry);
            uid = (case stoi 10 (cols ! 7) of None \<Rightarrow> 0 | Some v \<Rightarrow> v)
        in Some (entry\<lparr>se_local_ip_v4 := lip, se_local_port := lport, se_remote_ip_v4 := rip, se_remote_port := rport,
             se_tx_queue := tx, se_rx_queue := rx, se_uid := uid, se_inode := strtoull 10 (cols ! 9)\<rparr>))"

definition getTcpSockets :: "proc_fs \<Rightarrow> u32 \<Rightarrow> tcp_socket_entry list" where
  "getTcpSockets fs pid =
     (case pf_net_tcp fs pid of
        None \<Rightarrow> []
      | Some content \<Rightarrow> List.map_filter parse_socket_line (drop 1 (getlines content)))"

definition kPrefix :: string where "kPrefix = ''socket:[''"

text \<open>The inode of one descriptor, if it is a socket.\<close>

fun owned_inode :: "string \<times> string option \<Rightarrow> u64 option" where
  "owned_inode (d_name, tgt) =
     (if take 1 d_name = ''.'' then None
      else case tgt of
        None \<Rightarrow> None
      | Some l \<Rightarrow>
          let link = take 63 l in
          if link = [] then None
          else if take 8 link \<noteq> kPrefix then None
          else let inode = strtoull 10 (drop 8 link) in if inode \<noteq> 0 then Some inode else None)"

definition getOwnedSocketInodes :: "proc_fs \<Rightarrow> u32 \<Rightarrow> u64 set" where
  "getOwnedSocketInodes fs pid =
     (case pf_fd_dir fs pid of None \<Rightarrow> {} | Some ents \<Rightarrow> set (List.map_filter owned_inode ents))"

definition resolveEstablishedPeer :: "proc_fs \<Rightarrow> u32 \<Rightarrow> peer_resolution" where
  "resolveEstablishedPeer fs pid =
     (let result = \<lparr>pr_resolved = False, pr_entry = zero_socket_entry, pr_reason = ''not attempted''\<rparr>;
          owned = getOwnedSocketInodes fs pid
      in if owned = {} then result\<lparr>pr_reason := ''no socket fds owned by pid (process gone, or not permitted)''\<rparr>
         else
           let matches = filter (\<lambda>sock. \<not> (se_inode sock = 0 \<or> se_inode sock \<notin> owned)) (getTcpSockets fs pid)
           in case matches of
                [] \<Rightarrow> result\<lparr>pr_reason := ''pid owns no established TCP connection''\<rparr>
              | [match] \<Rightarrow> result\<lparr>pr_resolved := True, pr_entry := match,
                    pr_reason := ''unique established connection owned by pid''\<rparr>
              | _ \<Rightarrow> result\<lparr>pr_reason := ''pid owns multiple established connections; cannot attribute event to one''\<rparr>)"

section \<open>The memo\<close>

text \<open>\<open>resolveEstablishedPeerCached\<close> holds its lock twice, so a call is two steps of the cache: the
  lookup, and after a miss the store of what was resolved.  Times are in nanoseconds.\<close>

type_synonym peer_cache = "u32 \<rightharpoonup> peer_resolution \<times> int"

definition kTtl :: int where "kTtl = 50000000"

definition cache_lookup :: "int \<Rightarrow> u32 \<Rightarrow> peer_cache \<Rightarrow> peer_resolution option" where
  "cache_lookup now pid cache =
     (case cache pid of None \<Rightarrow> None | Some (result, at) \<Rightarrow> if now - at < kTtl then Some result else None)"

definition cache_store :: "int \<Rightarrow> u32 \<Rightarrow> peer_resolution \<Rightarrow> peer_cache \<Rightarrow> peer_cache" where
  "cache_store now pid fresh cache =
     (let cache = (if 256 < card (dom cache) then Map.empty else cache) in cache(pid \<mapsto> (fresh, now)))"

definition resolveEstablishedPeerCached :: "int \<Rightarrow> proc_fs \<Rightarrow> u32 \<Rightarrow> peer_cache \<Rightarrow> peer_resolution \<times> peer_cache" where
  "resolveEstablishedPeerCached now fs pid cache =
     (case cache_lookup now pid cache of
        Some r \<Rightarrow> (r, cache)
      | None \<Rightarrow> let fresh = resolveEstablishedPeer fs pid in (fresh, cache_store now pid fresh cache))"

text \<open>\<open>SslUprobeProgram::resolvePeer\<close>, on what the memo answered.\<close>

definition resolvePeer_with :: "peer_resolution \<Rightarrow> peer_resolver" where
  "resolvePeer_with peer m =
     (if \<not> pr_resolved peer then (False, m)
      else (True, m\<lparr>em_local_ip := setV4 (se_local_ip_v4 (pr_entry peer)) (em_local_ip m),
              em_remote_ip := setV4 (se_remote_ip_v4 (pr_entry peer)) (em_remote_ip m),
              em_local_port := se_local_port (pr_entry peer), em_remote_port := se_remote_port (pr_entry peer)\<rparr>))"

definition resolvePeer :: "int \<Rightarrow> proc_fs \<Rightarrow> peer_cache \<Rightarrow> event_meta \<Rightarrow> (bool \<times> event_meta) \<times> peer_cache" where
  "resolvePeer now fs cache m =
     (let (peer, cache') = resolveEstablishedPeerCached now fs (em_pid m) cache in (resolvePeer_with peer m, cache'))"

section \<open>Reading back what the kernel prints\<close>

text \<open>The kernel's \<open>%0nX\<close>, and a row of the table: a sequence number, the two addresses, the state, the
  queues, then columns of which the parser uses the user id and the inode.  Columns are
  separated by one or more blanks and the row is padded with blanks.\<close>

definition hex_digit :: "nat \<Rightarrow> char" where
  "hex_digit d = (if d < 10 then char_of (48 + d) else char_of (55 + d))"

fun hex_upper :: "nat \<Rightarrow> nat \<Rightarrow> string" where
  "hex_upper 0 v = []"
| "hex_upper (Suc n) v = hex_upper n (v div 16) @ [hex_digit (v mod 16)]"

record proc_sock =
  ps_sl :: nat
  ps_local :: u32
  ps_local_port :: u16
  ps_remote :: u32
  ps_remote_port :: u16
  ps_state :: u8
  ps_tx :: u32
  ps_rx :: u32
  ps_timer :: string
  ps_retransmits :: string
  ps_uid :: nat
  ps_timeout :: string
  ps_inode :: u64
  ps_more :: "string list"

definition addr_col :: "u32 \<Rightarrow> u16 \<Rightarrow> string" where
  "addr_col a p = hex_upper 8 (unat a) @ '':'' @ hex_upper 4 (unat p)"

definition proc_cols :: "proc_sock \<Rightarrow> string list" where
  "proc_cols k = [to_string (ps_sl k) @ '':'', addr_col (ps_local k) (ps_local_port k), addr_col (ps_remote k) (ps_remote_port k),
     hex_upper 2 (unat (ps_state k)), hex_upper 8 (unat (ps_tx k)) @ '':'' @ hex_upper 8 (unat (ps_rx k)),
     ps_timer k, ps_retransmits k, to_string (ps_uid k), ps_timeout k, to_string (unat (ps_inode k))] @ ps_more k"

text \<open>The blanks before each column, and at the end, are given by \<open>pad\<close>.\<close>

definition proc_line :: "(nat \<Rightarrow> nat) \<Rightarrow> proc_sock \<Rightarrow> string" where
  "proc_line pad k =
     concat (map (\<lambda>(i, c). replicate (if i = 0 then pad i else Suc (pad i)) CHR '' '' @ c) (enumerate 0 (proc_cols k)))
     @ replicate (pad (length (proc_cols k))) CHR '' ''"

text \<open>Every row has blanks of its own: \<open>pad i c\<close> for column \<open>c\<close> of row \<open>i\<close>.\<close>

definition proc_table :: "string \<Rightarrow> (nat \<Rightarrow> nat \<Rightarrow> nat) \<Rightarrow> proc_sock list \<Rightarrow> string" where
  "proc_table header pad ks = concat (map (\<lambda>l. l @ [CHR 0x0A]) (header # map (\<lambda>(i, k). proc_line (pad i) k) (enumerate 0 ks)))"

text \<open>The kernel's own alignment, \<open>%4d:\<close>, \<open>%5u\<close> and \<open>%8d\<close> for the number, the user and the timeout, each row filled up to
  149 characters.\<close>

definition kernel_pad :: "proc_sock \<Rightarrow> nat \<Rightarrow> nat" where
  "kernel_pad k c =
     (if c = 0 then 4 - length (to_string (ps_sl k))
      else if c = 7 then 5 - length (to_string (ps_uid k))
      else if c = 8 then 8 - length (ps_timeout k)
      else if c = length (proc_cols k)
      then 149 - ((4 - length (to_string (ps_sl k))) + (5 - length (to_string (ps_uid k))) + (8 - length (ps_timeout k))
             + length (concat (proc_cols k)) + length (proc_cols k) - 1)
      else 0)"

text \<open>A column is not empty and has no white space.\<close>

definition column :: "string \<Rightarrow> bool" where
  "column c \<longleftrightarrow> c \<noteq> [] \<and> list_all (\<lambda>x. \<not> is_space x) c"

definition wf_proc_sock :: "proc_sock \<Rightarrow> bool" where
  "wf_proc_sock k \<longleftrightarrow> column (ps_timer k) \<and> column (ps_retransmits k) \<and> column (ps_timeout k) \<and> list_all column (ps_more k)"

definition entry_of_sock :: "proc_sock \<Rightarrow> tcp_socket_entry" where
  "entry_of_sock k =
     \<lparr>se_local_ip_v4 = ps_local k, se_remote_ip_v4 = ps_remote k, se_local_port = ps_local_port k,
      se_remote_port = ps_remote_port k, se_uid = (if ps_uid k < 2 ^ 31 then int (ps_uid k) else 0),
      se_tx_queue = (if unat (ps_tx k) < 2 ^ 31 then int (unat (ps_tx k)) else 0),
      se_rx_queue = (if unat (ps_tx k) < 2 ^ 31 \<and> unat (ps_rx k) < 2 ^ 31 then int (unat (ps_rx k)) else 0),
      se_sk = 0, se_inode = ps_inode k\<rparr>"

lemma split_columns_Nil [simp]: "list_all is_space s \<Longrightarrow> split_columns s = []"
  by (simp add: split_columns.simps [of s] dropWhile_eq_Nil_conv list_all_iff Let_def)

lemma split_columns_step:
  assumes "list_all is_space b" "column c" "s = [] \<or> is_space (hd s)"
  shows "split_columns (b @ c @ s) = c # split_columns s"
proof -
  have d: "dropWhile is_space (b @ c @ s) = c @ s"
    using assms(1,2) by (cases c) (auto simp: dropWhile_append2 list_all_iff column_def)
  have t: "takeWhile (\<lambda>x. \<not> is_space x) (c @ s) = c"
    using assms(2,3) by (cases s) (auto simp: takeWhile_append2 list_all_iff column_def)
  have w: "dropWhile (\<lambda>x. \<not> is_space x) (c @ s) = s"
    using assms(2,3) by (cases s) (auto simp: dropWhile_append2 list_all_iff column_def)
  show ?thesis using assms(2) by (simp add: split_columns.simps [of "b @ c @ s"] d t w Let_def column_def)
qed

lemma split_columns_join:
  assumes "list_all column cs"
  shows "split_columns (concat (map (\<lambda>(i, c). replicate (if i = 0 then pad i else Suc (pad i)) CHR '' '' @ c) (enumerate n cs))
           @ replicate m CHR '' '') = cs"
  using assms
proof (induction cs arbitrary: n)
  case Nil
  then show ?case by (simp add: list_all_iff is_space_def)
next
  case (Cons c cs)
  have "split_columns (replicate k CHR '' '' @ c @ (concat (map (\<lambda>(i, c). replicate (if i = 0 then pad i else Suc (pad i)) CHR '' '' @ c)
          (enumerate (Suc n) cs)) @ replicate m CHR '' '')) =
        c # split_columns (concat (map (\<lambda>(i, c). replicate (if i = 0 then pad i else Suc (pad i)) CHR '' '' @ c)
          (enumerate (Suc n) cs)) @ replicate m CHR '' '')" for k
    using Cons.prems
    by (intro split_columns_step) (cases cs; cases m; auto simp: list_all_iff is_space_def)+
  then show ?case using Cons by simp
qed

lemma digit_value_digits:
  "d < 10 \<Longrightarrow> digit_value 10 (digit_char d) = Some d" "d < 16 \<Longrightarrow> digit_value 16 (hex_digit d) = Some d"
  by (auto simp: digit_value_def digit_char_def hex_digit_def Let_def)

lemma is_digit_plain:
  assumes "is_digit base c" "base \<le> 36"
  shows "\<not> is_space c" "c \<noteq> CHR ''-''" "c \<noteq> CHR ''+''" "c \<noteq> CHR '':''" "c \<noteq> CHR 0x0A"
  using assms by (auto simp: is_digit_def digit_value_def is_space_def Let_def split: if_splits)

lemma x_no_digit: "\<not> is_digit 16 CHR ''x''" "\<not> is_digit 16 CHR ''X''"
  by (simp_all add: is_digit_def digit_value_def)

lemma strto_digits:
  assumes "s \<noteq> []" "list_all (is_digit base) s" "base \<le> 36"
  shows "strto base s = Some (int (digits_value base s))"
proof -
  obtain c cs where s: "s = c # cs" using assms(1) by (cases s) auto
  have c: "\<not> is_space c" "c \<noteq> CHR ''-''" "c \<noteq> CHR ''+''" using is_digit_plain(1-3) [of base c] assms(2,3) s by simp_all
  have all: "takeWhile (is_digit base) s = s" using assms(2) by (simp add: takeWhile_eq_all_conv list_all_iff)
  have x: "base = 16 \<longrightarrow> cs = x # t \<longrightarrow> x \<noteq> CHR ''x'' \<and> x \<noteq> CHR ''X''" for x t
    using assms(2) s x_no_digit by auto
  have pre: "(case s of z # x # d # _ \<Rightarrow>
      if base = 16 \<and> z = CHR ''0'' \<and> (x = CHR ''x'' \<or> x = CHR ''X'') \<and> is_digit 16 d then drop 2 s else s | _ \<Rightarrow> s) = s"
    using x s by (auto split: list.split)
  have dw: "dropWhile is_space s = s" using c s by simp
  have sg: "(case s of c # cs \<Rightarrow> if c = CHR ''-'' \<or> c = CHR ''+'' then cs else s | [] \<Rightarrow> []) = s" using c s by simp
  have ng: "(case s of c # _ \<Rightarrow> c = CHR ''-'' | [] \<Rightarrow> False) = False" using c s by simp
  show ?thesis using assms(1) unfolding strto_def Let_def dw sg ng pre all by simp
qed

lemma digits_value_snoc: "digits_value b (s @ [c]) = b * digits_value b s + the (digit_value b c)"
  by (simp add: digits_value_def)

lemma length_hex_upper [simp]: "length (hex_upper n v) = n"
  by (induction n arbitrary: v) simp_all

lemma hex_upper_digits: "list_all (is_digit 16) (hex_upper n v)"
  by (induction n arbitrary: v) (simp_all add: is_digit_def digit_value_digits)

lemma hex_upper_value: "v < 16 ^ n \<Longrightarrow> digits_value 16 (hex_upper n v) = v"
proof (induction n arbitrary: v)
  case 0
  then show ?case by (simp add: digits_value_def)
next
  case (Suc n)
  then have "v div 16 < 16 ^ n" by (simp add: less_mult_imp_div_less mult.commute)
  then show ?case using Suc.IH by (simp add: digits_value_snoc digit_value_digits)
qed

lemma strto_hex: "v < 16 ^ n \<Longrightarrow> 0 < n \<Longrightarrow> strto 16 (hex_upper n v) = Some (int v)"
  using strto_digits [OF _ hex_upper_digits, of n v] hex_upper_value [of v n] by (cases n) simp_all

lemma to_string_digits: "list_all (is_digit 10) (to_string n)" "digits_value 10 (to_string n) = n"
proof (induction n rule: to_string.induct)
  case (1 n)
  { case 1
    show ?case using "1.IH"(1) by (cases "n < 10") (simp_all add: to_string.simps [of n] is_digit_def digit_value_digits)
  next
    case 2
    show ?case using "1.IH"(2)
      by (cases "n < 10") (simp_all add: to_string.simps [of n] digits_value_snoc digit_value_digits, simp add: digits_value_def digit_value_digits) }
qed

lemma strto_dec: "strto 10 (to_string n) = Some (int n)"
  using strto_digits [OF to_string_not_empty to_string_digits(1), of n] to_string_digits(2) [of n] by simp

lemma split_at_colon:
  assumes "list_all (is_digit 16) a"
  shows "takeWhile (\<lambda>c. c \<noteq> CHR '':'') (a @ CHR '':'' # b) = a" "dropWhile (\<lambda>c. c \<noteq> CHR '':'') (a @ CHR '':'' # b) = CHR '':'' # b"
proof -
  have "\<forall>c \<in> set a. c \<noteq> CHR '':''" using assms is_digit_plain(4) [of 16] by (auto simp: list_all_iff)
  then show "takeWhile (\<lambda>c. c \<noteq> CHR '':'') (a @ CHR '':'' # b) = a" "dropWhile (\<lambda>c. c \<noteq> CHR '':'') (a @ CHR '':'' # b) = CHR '':'' # b"
    by (simp_all add: takeWhile_append2 dropWhile_append2)
qed

text \<open>No byte swap: the address column reads back as the same 32 bits, the port as the same 16.\<close>

lemma ucast_u16_u32: "ucast (ucast p :: u32) = (p :: u16)"
  by (rule bit_word_eqI) (auto simp: bit_simps)

lemma parse_addr_col: "parseProcNetEntry (addr_col a p) out = (a, p)"
proof -
  have "strto 16 (hex_upper 8 (unat a)) = Some (int (unat a))" by (rule strto_hex) simp_all
  then have ip: "stoul 16 (hex_upper 8 (unat a)) = Some a" using uint_lt2p [of a] by (simp add: stoul_def)
  have "strto 16 (hex_upper 4 (unat p)) = Some (int (unat p))" by (rule strto_hex) simp_all
  then have port: "stoul 16 (hex_upper 4 (unat p)) = Some (ucast p)"
    using uint_lt2p [of p] by (simp add: stoul_def)
  show ?thesis
    by (simp add: parseProcNetEntry_def addr_col_def split_at_colon [OF hex_upper_digits] Let_def ip port ucast_u16_u32)
qed

lemma stoi_nat: "strto b s = Some (int n) \<Longrightarrow> stoi b s = (if n < 2 ^ 31 then Some (int n) else None)"
  by (simp add: stoi_def)

lemma stoi_hex8: "stoi 16 (hex_upper 8 (unat (w :: u32))) = (if unat w < 2 ^ 31 then Some (int (unat w)) else None)"
  by (rule stoi_nat, rule strto_hex) simp_all

lemma parse_queue_col:
  "parseQueue (hex_upper 8 (unat tx) @ '':'' @ hex_upper 8 (unat rx)) (0, 0) =
     (if unat (tx :: u32) < 2 ^ 31 then int (unat tx) else 0,
      if unat tx < 2 ^ 31 \<and> unat (rx :: u32) < 2 ^ 31 then int (unat rx) else 0)"
  by (simp add: parseQueue_def split_at_colon [OF hex_upper_digits] stoi_hex8)

lemma stoi_dec: "stoi 10 (to_string n) = (if n < 2 ^ 31 then Some (int n) else None)"
  by (rule stoi_nat [OF strto_dec])

lemma strtoull_dec: "strtoull 10 (to_string (unat (w :: u64))) = w"
  using uint_lt2p [of w] by (simp add: strtoull_def strto_dec)

lemma hex_upper_column: "0 < n \<Longrightarrow> column (hex_upper n v)"
  using hex_upper_digits [of n v] is_digit_plain(1) [of 16] 
  by (cases n) (auto simp: column_def list_all_iff)

lemma to_string_column: "column (to_string n)"
  using to_string_digits(1) [of n] is_digit_plain(1) [of 10] by (auto simp: column_def list_all_iff)

lemma column_append: "column a \<Longrightarrow> column b \<Longrightarrow> column (a @ b)"
  by (simp add: column_def)

lemma column_colon: "column '':''"
  by (simp add: column_def is_space_def)

lemma proc_cols_columns: "wf_proc_sock k \<Longrightarrow> list_all column (proc_cols k)"
  by (simp add: proc_cols_def wf_proc_sock_def addr_col_def)
    (use hex_upper_column to_string_column column_append column_colon in \<open>metis append_Cons append_Nil zero_less_numeral\<close>)

lemma split_proc_line: "wf_proc_sock k \<Longrightarrow> split_columns (proc_line pad k) = proc_cols k"
  unfolding proc_line_def by (rule split_columns_join [OF proc_cols_columns])

lemma state_col: "hex_upper 2 (unat (st :: u8)) = kTcpStateEstablished \<longleftrightarrow> st = 1"
proof
  assume "hex_upper 2 (unat st) = kTcpStateEstablished"
  then have "digits_value 16 (hex_upper 2 (unat st)) = digits_value 16 kTcpStateEstablished" by simp
  then have "unat st = 1" by (simp add: hex_upper_value) (simp add: kTcpStateEstablished_def digits_value_def digit_value_def)
  then show "st = 1" by (simp add: word_unat_eq_iff)
next
  assume "st = 1"
  then show "hex_upper 2 (unat st) = kTcpStateEstablished"
    by (simp add: kTcpStateEstablished_def) code_simp
qed

lemma proc_cols_nth:
  "proc_cols k ! 1 = addr_col (ps_local k) (ps_local_port k)" "proc_cols k ! 2 = addr_col (ps_remote k) (ps_remote_port k)"
  "proc_cols k ! 3 = hex_upper 2 (unat (ps_state k))"
  "proc_cols k ! 4 = hex_upper 8 (unat (ps_tx k)) @ '':'' @ hex_upper 8 (unat (ps_rx k))"
  "proc_cols k ! 7 = to_string (ps_uid k)" "proc_cols k ! 9 = to_string (unat (ps_inode k))" "10 \<le> length (proc_cols k)"
  by (simp_all add: proc_cols_def)

lemma parse_proc_line:
  assumes "wf_proc_sock k"
  shows "parse_socket_line (proc_line pad k) = (if ps_state k = 1 then Some (entry_of_sock k) else None)"
  using state_col [of "ps_state k"]
  by (simp add: parse_socket_line_def split_proc_line [OF assms] proc_cols_nth [simplified] parse_addr_col parse_queue_col [simplified] stoi_dec
      strtoull_dec zero_socket_entry_def entry_of_sock_def Let_def not_less [THEN iffD2, OF proc_cols_nth(7)])

lemma getlines_join: "(\<And>l. l \<in> set ls \<Longrightarrow> CHR 0x0A \<notin> set l) \<Longrightarrow> getlines (concat (map (\<lambda>l. l @ [CHR 0x0A]) ls)) = ls"
proof (induction ls)
  case Nil
  then show ?case by (simp add: getlines.simps)
next
  case (Cons l ls)
  then have n: "\<forall>c \<in> set l. c \<noteq> CHR 0x0A" by auto
  then have "takeWhile (\<lambda>c. c \<noteq> CHR 0x0A) (l @ CHR 0x0A # r) = l" "dropWhile (\<lambda>c. c \<noteq> CHR 0x0A) (l @ CHR 0x0A # r) = CHR 0x0A # r" for r
    by (simp_all add: takeWhile_append2 dropWhile_append2)
  then show ?case using Cons by (simp add: getlines.simps [of "l @ _"])
qed

lemma proc_line_no_newline:
  assumes "wf_proc_sock k"
  shows "CHR 0x0A \<notin> set (proc_line pad k)"
proof -
  have nl: "is_space CHR 0x0A" by (simp add: is_space_def)
  have "CHR 0x0A \<notin> set c" if "c \<in> set (proc_cols k)" for c
    using proc_cols_columns [OF assms] that nl by (auto simp: list_all_iff column_def)
  moreover have "c \<in> set (proc_cols k)" if "(i, c) \<in> set (enumerate 0 (proc_cols k))" for i c
    using that map_snd_enumerate [of 0 "proc_cols k"] by (metis image_eqI list.set_map snd_conv)
  ultimately show ?thesis by (auto simp: proc_line_def)
qed

lemma getTcpSockets_table:
  assumes "pf_net_tcp fs pid = Some (proc_table header pad ks)" "CHR 0x0A \<notin> set header" "list_all wf_proc_sock ks"
  shows "getTcpSockets fs pid = map entry_of_sock (filter (\<lambda>k. ps_state k = 1) ks)"
proof -
  let ?rows = "\<lambda>n. map (\<lambda>(i, k). proc_line (pad i) k) (enumerate n ks)"
  have mem: "(i, k) \<in> set (enumerate n ks) \<Longrightarrow> wf_proc_sock k" for i k n
    using assms(3) map_snd_enumerate [of n ks] by (metis image_eqI list.set_map list_all_iff snd_conv)
  have "getlines (proc_table header pad ks) = header # ?rows 0"
    unfolding proc_table_def by (rule getlines_join) (use assms(2) mem proc_line_no_newline in auto)
  moreover have "List.map_filter parse_socket_line (?rows n) = map entry_of_sock (filter (\<lambda>k. ps_state k = 1) ks)" for n
    using assms(3) by (induction ks arbitrary: n) (auto simp: parse_proc_line List.map_filter_simps)
  ultimately show ?thesis using assms(1) by (simp add: getTcpSockets_def)
qed

section \<open>Who is enforced against\<close>

definition owned_socks :: "proc_fs \<Rightarrow> u32 \<Rightarrow> proc_sock list \<Rightarrow> proc_sock list" where
  "owned_socks fs pid ks =
     filter (\<lambda>k. ps_state k = 1 \<and> ps_inode k \<noteq> 0 \<and> ps_inode k \<in> getOwnedSocketInodes fs pid) ks"

lemma resolve_owned:
  assumes "pf_net_tcp fs pid = Some (proc_table header pad ks)" "CHR 0x0A \<notin> set header" "list_all wf_proc_sock ks"
  shows "pr_resolved (resolveEstablishedPeer fs pid) \<longleftrightarrow> length (owned_socks fs pid ks) = 1"
    and "owned_socks fs pid ks = [k] \<Longrightarrow> pr_entry (resolveEstablishedPeer fs pid) = entry_of_sock k"
proof -
  have m: "filter (\<lambda>sock. \<not> (se_inode sock = 0 \<or> se_inode sock \<notin> getOwnedSocketInodes fs pid)) (getTcpSockets fs pid) =
      map entry_of_sock (owned_socks fs pid ks)"
    unfolding getTcpSockets_table [OF assms]
    by (simp add: owned_socks_def filter_map comp_def entry_of_sock_def conj_assoc)
  have e: "getOwnedSocketInodes fs pid = {} \<Longrightarrow> owned_socks fs pid ks = []" by (simp add: owned_socks_def)
  show "pr_resolved (resolveEstablishedPeer fs pid) \<longleftrightarrow> length (owned_socks fs pid ks) = 1"
    "owned_socks fs pid ks = [k] \<Longrightarrow> pr_entry (resolveEstablishedPeer fs pid) = entry_of_sock k"
    using e unfolding resolveEstablishedPeer_def Let_def m
    by (auto split: list.split)
qed

lemma ip_bytes16_setV4: "ip_bytes16 (setV4 v a) = le_bytes 4 v @ replicate 12 0"
  by (simp add: setV4_def)

lemma resolvePeer_with_attempted: "em_peer_attempted (snd (resolvePeer_with p m)) = em_peer_attempted m"
  by (simp add: resolvePeer_with_def)

text \<open>The cache after any interleaving of lookups and stores by any number of threads.\<close>

datatype cache_step = Lookup int u32 | Store int u32 proc_fs

fun cache_exec :: "cache_step \<Rightarrow> peer_cache \<Rightarrow> peer_cache" where
  "cache_exec (Lookup now pid) cache = cache"
| "cache_exec (Store at pid fs) cache = cache_store at pid (resolveEstablishedPeer fs pid) cache"

lemma cache_origin:
  "fold cache_exec steps Map.empty pid = Some (r, at) \<Longrightarrow>
     \<exists>fs. Store at pid fs \<in> set steps \<and> r = resolveEstablishedPeer fs pid"
proof (induction steps rule: rev_induct)
  case (snoc x steps)
  then show ?case
    by (cases x) (auto simp: cache_store_def Let_def split: if_splits)
qed simp

lemma cache_bounded: "card (dom (fold cache_exec steps Map.empty)) \<le> 257"
proof (induction steps rule: rev_induct)
  case (snoc x steps)
  show ?case
  proof (cases x)
    case (Store at pid fs)
    have "card (dom (m(pid \<mapsto> r))) \<le> Suc (card (dom m))" for m :: peer_cache and r
      by (simp add: card_insert_if)
    from this [of Map.empty "(resolveEstablishedPeer fs pid, at)"]
      this [of "fold cache_exec steps Map.empty" "(resolveEstablishedPeer fs pid, at)"]
    show ?thesis using Store snoc by (auto simp: cache_store_def Let_def simp del: dom_fun_upd fun_upd_apply)
  qed (use snoc in simp)
qed simp

text \<open>A process with one socket descriptor, and the table with its connection in a two-digit row and a listener of
  another user in a one-digit row, aligned as the kernel does it.\<close>

definition demo_psock :: "nat \<Rightarrow> nat \<Rightarrow> u8 \<Rightarrow> u64 \<Rightarrow> proc_sock" where
  "demo_psock sl uid st ino = \<lparr>ps_sl = sl, ps_local = 0x0100007F, ps_local_port = 443, ps_remote = 0x0200007F, ps_remote_port = 50000,
     ps_state = st, ps_tx = 0, ps_rx = 0, ps_timer = ''00:00000000'', ps_retransmits = ''00000000'', ps_uid = uid,
     ps_timeout = ''0'', ps_inode = ino, ps_more = [''1'']\<rparr>"

definition demo_socks :: "proc_sock list" where
  "demo_socks = [demo_psock 9 1000 10 4, demo_psock 10 0 1 5]"

definition demo_fs :: proc_fs where
  "demo_fs = \<lparr>pf_fd_dir = (\<lambda>_. Some [(''.'', None), (''3'', Some ''socket:[5]'')]),
     pf_net_tcp = (\<lambda>_. Some (proc_table ''sl'' (\<lambda>i. kernel_pad (demo_socks ! i)) demo_socks))\<rparr>"

lemma demo_fs_facts:
  "pf_net_tcp demo_fs pid = Some (proc_table ''sl'' (\<lambda>i. kernel_pad (demo_socks ! i)) demo_socks)"
  "CHR 0x0A \<notin> set ''sl''" "list_all wf_proc_sock demo_socks"
  "getOwnedSocketInodes demo_fs pid = {5}"
  by (simp_all add: demo_fs_def demo_socks_def wf_proc_sock_def demo_psock_def column_def is_space_def getOwnedSocketInodes_def
      List.map_filter_simps kPrefix_def) code_simp

section \<open>Properties\<close>

text \<open>C20: The socket table reads back exactly.  From the text the kernel prints for any list of
  sockets, whatever blanks each row has before its columns and at its end (so right-aligned columns
  and rows of a fixed width are covered), the parser returns the established sockets in order, each
  with its addresses and inode bit for bit and its ports in host order; the user id and the
  queue lengths are exact when they fit an \<open>int\<close>.\<close>

theorem proc_table_roundtrip:
  assumes "pf_net_tcp fs pid = Some (proc_table header pad ks)" "CHR 0x0A \<notin> set header" "list_all wf_proc_sock ks"
  shows "getTcpSockets fs pid = map entry_of_sock (filter (\<lambda>k. ps_state k = 1) ks)"
  by (rule getTcpSockets_table [OF assms])

theorem proc_table_roundtrip_witness: "getTcpSockets demo_fs 9 = [entry_of_sock (demo_psock 10 0 1 5)]"
  using proc_table_roundtrip [OF demo_fs_facts(1-3), of 9] by (simp add: demo_socks_def demo_psock_def)

text \<open>C19: Attribution from \<open>/proc\<close> fails closed.  For an enforceable verdict on an event whose
  connection the kernel did not supply, and which is handed over (the JSON library did not throw): if the process owns
  exactly one established socket of the IPv4 table and that socket's remote address is not \<open>0.0.0.0\<close>, the dispatched
  enforcement is the teardown of that socket's connection (when both ports and the local address are set) and the
  blocklisting of its peer, in that order; if the remote address is \<open>0.0.0.0\<close>, or the process owns none or several, or
  its descriptors cannot be read, nothing but a log entry is dispatched.  The table is any the kernel prints, with
  blanks of its own in every row.\<close>

theorem proc_attribution_fails_closed:
  assumes "pf_net_tcp fs (em_pid m) = Some (proc_table header pad ks)" "CHR 0x0A \<notin> set header" "list_all wf_proc_sock ks"
    and "em_peer_resolver m" "\<not> em_peer_attempted m" "\<not> isSet (em_remote_ip m)" "dc_action_loop ctx" "actionable v"
    and "dispatchVerdict (resolvePeer_with (resolveEstablishedPeer fs (em_pid m))) dump now m v ctx = Some (actions, n)"
  shows "\<exists>l. case owned_socks fs (em_pid m) ks of
      [k] \<Rightarrow> actions = (if ps_remote k = 0 then [Log l] else
          (if ps_local k \<noteq> 0 \<and> ps_local_port k \<noteq> 0 \<and> ps_remote_port k \<noteq> 0
           then [BlockTcp \<lparr>bt_is_ipv6 = False, bt_local_addr = le_bytes 4 (ps_local k) @ replicate 12 0,
                   bt_remote_addr = le_bytes 4 (ps_remote k) @ replicate 12 0, bt_local_port = ps_local_port k,
                   bt_remote_port = ps_remote_port k, bt_reason = message v\<rparr>] else [])
          @ [BlocklistAdd \<lparr>act_src_ip_v4 = ps_remote k, act_ttl = dc_blocklist_ttl ctx, act_reason = message v\<rparr>, Log l])
    | _ \<Rightarrow> actions = [Log l]"
proof -
  let ?p = "resolveEstablishedPeer fs (em_pid m)"
  let ?m = "snd (ensurePeerResolved (resolvePeer_with ?p) m)"
  obtain l where l: "actions = fst (enforcement ?m v ctx) @ [Log l]"
    using dispatch_actions [OF assms(7,9)] assms(8) by auto
  show ?thesis
  proof (cases "\<exists>k. owned_socks fs (em_pid m) ks = [k]")
    case True
    then obtain k where k: "owned_socks fs (em_pid m) ks = [k]" by blast
    then have r: "pr_resolved ?p" "pr_entry ?p = entry_of_sock k" using resolve_owned [OF assms(1-3)] by auto
    have f: "em_remote_ip ?m = setV4 (ps_remote k) (em_remote_ip m)" "em_local_ip ?m = setV4 (ps_local k) (em_local_ip m)"
      "em_local_port ?m = ps_local_port k" "em_remote_port ?m = ps_remote_port k"
      using assms(4,5) r by (simp_all add: ensurePeerResolved_def resolvePeer_with_def entry_of_sock_def Let_def)
    show ?thesis using l by (auto simp: k enforcement_def f Let_def ip_bytes16_setV4 intro!: exI [of _ l])
  next
    case False
    then have n: "\<not> pr_resolved ?p" using resolve_owned(1) [OF assms(1-3)]
      by (cases "owned_socks fs (em_pid m) ks" rule: list.exhaust) (auto simp: length_Suc_conv)
    then have "em_remote_ip ?m = em_remote_ip m"
      using assms(4,5) by (simp add: ensurePeerResolved_def resolvePeer_with_def Let_def)
    then have "fst (enforcement ?m v ctx) = []" using assms(6) by (simp add: enforcement_def)
    then show ?thesis using l False by (auto split: list.split intro!: exI [of _ l])
  qed
qed

theorem proc_attribution_fails_closed_witness:
  "\<exists>t l n. dispatchVerdict (resolvePeer_with (resolveEstablishedPeer demo_fs 9)) (\<lambda>_. Some []) []
       (EventMeta_init\<lparr>em_pid := 9, em_peer_resolver := True\<rparr>)
       \<lparr>severity = [], message_id = [], message = [], actionable = True\<rparr>
       \<lparr>dc_action_loop = True, dc_blocklist_ttl = 300, dc_output_path = []\<rparr>
     = Some ([BlockTcp t, BlocklistAdd \<lparr>act_src_ip_v4 = 0x0200007F, act_ttl = 300, act_reason = []\<rparr>, Log l], n)"
proof -
  have o: "owned_socks demo_fs 9 demo_socks = [demo_psock 10 0 1 5]"
    by (simp add: owned_socks_def demo_fs_facts(4)) (simp add: demo_socks_def demo_psock_def)
  let ?m = "EventMeta_init\<lparr>em_pid := 9, em_peer_resolver := True\<rparr>" and ?v = "\<lparr>severity = [], message_id = [], message = [], actionable = True\<rparr>"
  let ?ctx = "\<lparr>dc_action_loop = True, dc_blocklist_ttl = 300, dc_output_path = []\<rparr>"
  obtain as n where d: "dispatchVerdict (resolvePeer_with (resolveEstablishedPeer demo_fs (em_pid ?m))) (\<lambda>_. Some []) [] ?m ?v ?ctx = Some (as, n)"
    by (fastforce simp: dispatchVerdict_def redfish_format_def Let_def split: prod.splits)
  have m: "em_pid ?m = 9" "em_peer_resolver ?m" "\<not> em_peer_attempted ?m" "\<not> isSet (em_remote_ip ?m)" by (simp_all add: EventMeta_init_def)
  show ?thesis using proc_attribution_fails_closed [OF demo_fs_facts(1-3) m(2-4) _ _ d] d unfolding m(1) o
    by (auto simp: demo_psock_def)
qed

text \<open>C36: The memo is fresh and bounded.  However lookups and stores of concurrent callers interleave,
  what a call returns is what resolving the same process returned either just now or less than
  50 milliseconds ago, and the cache holds at most 257 entries.\<close>

theorem peer_cache_fresh:
  assumes "cache = fold cache_exec steps Map.empty"
  shows "card (dom cache) \<le> 257
       \<and> (\<exists>r. fst (resolvePeer now fs cache m) = resolvePeer_with r m
            \<and> (r = resolveEstablishedPeer fs (em_pid m)
               \<or> (\<exists>at fs'. Store at (em_pid m) fs' \<in> set steps \<and> now - at < 50000000
                     \<and> r = resolveEstablishedPeer fs' (em_pid m))))"
proof -
  let ?r = "fst (resolveEstablishedPeerCached now fs (em_pid m) cache)"
  have "fst (resolvePeer now fs cache m) = resolvePeer_with ?r m" by (simp add: resolvePeer_def split: prod.split)
  moreover have "?r = resolveEstablishedPeer fs (em_pid m)
     \<or> (\<exists>at fs'. Store at (em_pid m) fs' \<in> set steps \<and> now - at < 50000000 \<and> ?r = resolveEstablishedPeer fs' (em_pid m))"
    using cache_origin [of steps "em_pid m"] assms
    by (auto simp: resolveEstablishedPeerCached_def cache_lookup_def kTtl_def Let_def split: option.splits if_splits)
  ultimately show ?thesis using cache_bounded [of steps] assms by blast
qed

theorem peer_cache_fresh_witness:
  "\<exists>r. fst (resolvePeer 60000000 demo_fs (fold cache_exec [Store 20000000 9 demo_fs, Lookup 30000000 9] Map.empty)
       (EventMeta_init\<lparr>em_pid := 9\<rparr>)) = resolvePeer_with r (EventMeta_init\<lparr>em_pid := 9\<rparr>) \<and> r = resolveEstablishedPeer demo_fs 9"
  using peer_cache_fresh [OF refl, of "[Store 20000000 9 demo_fs, Lookup 30000000 9]" 60000000 demo_fs "EventMeta_init\<lparr>em_pid := 9\<rparr>"]
  by auto

end
