(* ===== verification/Program.thy ===== *)
theory Program
  imports Hooks Sweep_Timer Peer_Resolver Blocklist
begin

text \<open>
  \<open>programs/core/src/HttpGuardProgram.cpp\<close>: the owner of the BPF object, the links and the ring
  buffer.  The state is the class's fields with the process around it: the calls to libbpf so far
  and the \<open>Blocklist\<close> singleton.  Each operation takes what libbpf answers as a \<open>bpf_env\<close>.
\<close>

section \<open>State\<close>

record guard_program =
  gp_hooks :: "hook list"
  gp_object :: "nat option"
  gp_ring_buffer :: "nat option"
  gp_links :: "link_ptr list"
  gp_loaded :: bool
  gp_unknown_source_count :: u64
  gp_world :: process_world
  gp_blocklist :: blocklist

definition HttpGuardProgram_init :: "hook list \<Rightarrow> guard_program" where
  "HttpGuardProgram_init hooks =
     \<lparr>gp_hooks = hooks, gp_object = None, gp_ring_buffer = None, gp_links = [], gp_loaded = False,
      gp_unknown_source_count = 0, gp_world = \<lparr>pw_next = 0, pw_calls = []\<rparr>, gp_blocklist = Blocklist_init\<rparr>"

definition kBlocklistMapName :: string where "kBlocklistMapName = ''src_blocklist''"
definition HTTPS_GUARD_CONN_RATE_MAP_NAME :: string where "HTTPS_GUARD_CONN_RATE_MAP_NAME = ''conn_rate''"
definition HTTPS_GUARD_THREAD_TUPLE_MAP_NAME :: string where
  "HTTPS_GUARD_THREAD_TUPLE_MAP_NAME = ''https_guard_thread_tuple_map''"
definition HTTPS_GUARD_SESSION_TUPLE_MAP_NAME :: string where
  "HTTPS_GUARD_SESSION_TUPLE_MAP_NAME = ''https_guard_session_tuple_map''"

definition EINTR :: int where "EINTR = 4"

section \<open>Loading and releasing\<close>

definition openObject :: "bpf_env \<Rightarrow> guard_program \<Rightarrow> bool \<times> guard_program" where
  "openObject env p =
     (if gp_object p \<noteq> None then (True, p)
      else if \<not> be_open env then (False, p)
      else let (n, w) = acquire Object (gp_world p) in (True, p\<lparr>gp_object := Some n, gp_world := w\<rparr>))"

definition closeObject :: "guard_program \<Rightarrow> guard_program" where
  "closeObject p =
     (case gp_object p of
        None \<Rightarrow> p
      | Some n \<Rightarrow> p\<lparr>gp_world := log_call (Release (Object n)) (gp_world p), gp_object := None\<rparr>)"

definition getProgramFd :: "bpf_env \<Rightarrow> string \<Rightarrow> guard_program \<Rightarrow> int" where
  "getProgramFd env prog_name p =
     (if gp_object p = None then -1 else if be_program env prog_name then be_program_fd env prog_name else -1)"

definition getMapFd :: "bpf_env \<Rightarrow> string \<Rightarrow> guard_program \<Rightarrow> int" where
  "getMapFd env map_name p = (if gp_object p = None then -1 else be_map_fd env map_name)"

definition attachHooks :: "bpf_env \<Rightarrow> guard_program \<Rightarrow> bool \<times> guard_program" where
  "attachHooks env p =
     (let (attached_count, hooks, links, w) = attach_each (attach env) (gp_hooks p) (gp_links p, gp_world p);
          p = p\<lparr>gp_hooks := hooks, gp_links := links, gp_world := w\<rparr>
      in if attached_count = 0 then (False, p)
         else (True, p\<lparr>gp_blocklist := snd (adopt (gp_blocklist p) (getMapFd env kBlocklistMapName p))\<rparr>))"

definition registerEventHandler :: "bpf_env \<Rightarrow> guard_program \<Rightarrow> bool \<times> guard_program" where
  "registerEventHandler env p =
     (if getMapFd env ''events'' p < 0 then (False, p)
      else if \<not> be_ring env then (False, p\<lparr>gp_ring_buffer := None\<rparr>)
      else let (n, w) = acquire Ring (gp_world p) in (True, p\<lparr>gp_ring_buffer := Some n, gp_world := w\<rparr>))"

definition releaseRingBuffer :: "guard_program \<Rightarrow> guard_program" where
  "releaseRingBuffer p =
     (case gp_ring_buffer p of
        None \<Rightarrow> p
      | Some n \<Rightarrow> p\<lparr>gp_world := log_call (Release (Ring n)) (gp_world p), gp_ring_buffer := None\<rparr>)"

text \<open>\<open>bpf_link__destroy\<close> does nothing to an error pointer.\<close>

fun destroy_link :: "link_ptr \<Rightarrow> process_world \<Rightarrow> process_world" where
  "destroy_link (Link_ptr n) w = log_call (Release (Link n)) w"
| "destroy_link (Err_ptr e) w = w"

definition destroyLinks :: "guard_program \<Rightarrow> guard_program" where
  "destroyLinks p = p\<lparr>gp_world := fold destroy_link (gp_links p) (gp_world p), gp_links := []\<rparr>"

definition detachFilter :: "guard_program \<Rightarrow> guard_program" where
  "detachFilter p = (destroyLinks (releaseRingBuffer p))\<lparr>gp_loaded := False\<rparr>"

definition loadFilter :: "bpf_env \<Rightarrow> guard_program \<Rightarrow> bool \<times> guard_program" where
  "loadFilter env p =
     (let (ok, p) = openObject env p in
      if \<not> ok then (False, p)
      else if be_load env \<noteq> 0 then (False, closeObject p)
      else let (ok, p) = attachHooks env p in
        if \<not> ok then (False, closeObject (detachFilter p))
        else let (ok, p) = registerEventHandler env p in
          if \<not> ok then (False, closeObject (detachFilter p))
          else (True, p\<lparr>gp_loaded := True\<rparr>))"

text \<open>The destructor, with the members' destructors after it: the modules go last.\<close>

definition HttpGuardProgram_destroy :: "guard_program \<Rightarrow> process_world" where
  "HttpGuardProgram_destroy p =
     (let p = closeObject (detachFilter p) in fold hook_destroy (gp_hooks p) (gp_world p))"

section \<open>Records\<close>

fun hookFor :: "u32 \<Rightarrow> hook list \<Rightarrow> hook option" where
  "hookFor event_source [] = None"
| "hookFor event_source (h # hs) = (if eventSource h = event_source then Some h else hookFor event_source hs)"

fun peerResolver :: "hook list \<Rightarrow> hook option" where
  "peerResolver [] = None"
| "peerResolver (SslUprobeProgram lib # hs) = Some (SslUprobeProgram lib)"
| "peerResolver (_ # hs) = peerResolver hs"

text \<open>A record as libbpf hands it over: its bytes, and whether the copy into the queue succeeds.\<close>

type_synonym sample = "u8 list \<times> bool"

definition dispatchRecord :: "readlink \<Rightarrow> sample \<Rightarrow> guard_program \<times> detect_loop \<Rightarrow> int \<times> guard_program \<times> detect_loop" where
  "dispatchRecord rl = (\<lambda>(data, alloc_ok) (p, dl).
     case record_source data of
       None \<Rightarrow> (0, p, dl)
     | Some event_source \<Rightarrow>
         (case hookFor event_source (gp_hooks p) of
            None \<Rightarrow> (0, p\<lparr>gp_unknown_source_count := gp_unknown_source_count p + 1\<rparr>, dl)
          | Some hook \<Rightarrow> (0, p, ringBufferHandler rl alloc_ok hook data dl)))"

definition ringBufferCallback :: "readlink \<Rightarrow> sample \<Rightarrow> guard_program \<times> detect_loop \<Rightarrow> int \<times> guard_program \<times> detect_loop" where
  "ringBufferCallback rl = dispatchRecord rl"

text \<open>\<open>ring_buffer__poll\<close> hands each record to the callback until it returns a negative number.\<close>

fun deliver :: "readlink \<Rightarrow> sample list \<Rightarrow> guard_program \<times> detect_loop \<Rightarrow> guard_program \<times> detect_loop" where
  "deliver rl [] s = s"
| "deliver rl (x # xs) s = (let (rc, s) = ringBufferCallback rl x s in if rc < 0 then s else deliver rl xs s)"

definition pollEvents ::
  "readlink \<Rightarrow> int \<times> sample list \<Rightarrow> guard_program \<times> detect_loop \<Rightarrow> int \<times> guard_program \<times> detect_loop" where
  "pollEvents rl = (\<lambda>(rc, samples) (p, dl).
     if gp_ring_buffer p = None then (-1, p, dl) else (rc, deliver rl samples (p, dl)))"

section \<open>Sweeps\<close>

definition HttpGuardProgram_enableRateSweeps :: "bpf_env \<Rightarrow> bool \<Rightarrow> thresholds \<Rightarrow> guard_program \<Rightarrow> sweep_timer \<Rightarrow> sweep_timer" where
  "HttpGuardProgram_enableRateSweeps env post_ok th p st =
     enableRateSweeps post_ok (getMapFd env HTTPS_GUARD_CONN_RATE_MAP_NAME p) th st"

definition HttpGuardProgram_enableSessionTupleSweeps :: "bpf_env \<Rightarrow> bool \<Rightarrow> guard_program \<Rightarrow> sweep_timer \<Rightarrow> sweep_timer" where
  "HttpGuardProgram_enableSessionTupleSweeps env post_ok p st =
     enableSessionTupleSweeps post_ok (getMapFd env HTTPS_GUARD_THREAD_TUPLE_MAP_NAME p)
       (getMapFd env HTTPS_GUARD_SESSION_TUPLE_MAP_NAME p) st"

section \<open>Runs\<close>

datatype gp_label = Load bpf_env | Detach_filter | Poll readlink int "sample list"

fun gp_exec :: "gp_label \<Rightarrow> guard_program \<times> detect_loop \<Rightarrow> guard_program \<times> detect_loop" where
  "gp_exec (Load env) (p, dl) = (snd (loadFilter env p), dl)"
| "gp_exec Detach_filter (p, dl) = (detachFilter p, dl)"
| "gp_exec (Poll rl rc samples) s = snd (pollEvents rl (rc, samples) s)"

text \<open>Runs; with \<open>fresh\<close>, loading is only asked of a program that is not loaded, as the daemon does.  The
  detect loop also moves on by its own threads.\<close>

inductive gp_reach :: "bool \<Rightarrow> hook list \<Rightarrow> guard_program \<times> detect_loop \<Rightarrow> bool" for fresh hooks where
  init: "gp_reach fresh hooks (HttpGuardProgram_init hooks, dl)"
| step: "gp_reach fresh hooks s \<Longrightarrow> (\<And>env. fresh \<Longrightarrow> l = Load env \<Longrightarrow> \<not> gp_loaded (fst s)) \<Longrightarrow> gp_reach fresh hooks (gp_exec l s)"
| others: "gp_reach fresh hooks (p, dl) \<Longrightarrow> gp_reach fresh hooks (p, dl')"

section \<open>Everything acquired is held, released or lost\<close>

definition held :: "guard_program \<Rightarrow> bpf_resource list" where
  "held p = (case gp_object p of None \<Rightarrow> [] | Some n \<Rightarrow> [Object n]) @
     (case gp_ring_buffer p of None \<Rightarrow> [] | Some n \<Rightarrow> [Ring n]) @ held_links (gp_links p)"

text \<open>\<open>lost\<close> is what was acquired and can no longer be released: a ring buffer whose pointer a later load overwrote.\<close>

definition owned :: "bpf_resource multiset \<Rightarrow> guard_program \<Rightarrow> bool" where
  "owned lost p \<longleftrightarrow>
     mset (acquired (pw_calls (gp_world p))) = mset (released (pw_calls (gp_world p))) + mset (held p) + lost \<and>
     map handle (acquired (pw_calls (gp_world p))) = [0..<pw_next (gp_world p)]"

lemmas owned_simps = owned_def held_def acquire_def log_call_def

lemma release_calls [simp]: "acquired (map Release rs) = []" "released (map Release rs) = rs"
  by (induction rs) simp_all

lemma fold_destroy_link:
  "pw_calls (fold destroy_link ls w) = pw_calls w @ map Release (held_links ls)"
  "pw_next (fold destroy_link ls w) = pw_next w"
  by (induction ls arbitrary: w rule: held_links.induct) (simp_all add: log_call_def)

lemma owned_openObject: "owned lost p \<Longrightarrow> openObject env p = (ok, p') \<Longrightarrow> owned lost p'"
  by (auto simp: openObject_def owned_simps split: if_splits)

lemma owned_closeObject: "owned lost p \<Longrightarrow> owned lost (closeObject p)"
  by (auto simp: closeObject_def owned_simps split: option.splits)

lemma owned_releaseRingBuffer: "owned lost p \<Longrightarrow> owned lost (releaseRingBuffer p)"
  by (auto simp: releaseRingBuffer_def owned_simps split: option.splits)

lemma owned_destroyLinks: "owned lost p \<Longrightarrow> owned lost (destroyLinks p)"
  by (auto simp: destroyLinks_def owned_simps fold_destroy_link)

definition ring_of :: "guard_program \<Rightarrow> bpf_resource multiset" where
  "ring_of p = (case gp_ring_buffer p of None \<Rightarrow> {#} | Some n \<Rightarrow> {#Ring n#})"

lemma owned_registerEventHandler:
  assumes "owned lost p" "registerEventHandler env p = (ok, p')"
  shows "\<exists>l. owned (lost + l) p' \<and> (l = {#} \<or> l = ring_of p) \<and> (ok \<longrightarrow> l = ring_of p)"
proof (cases "getMapFd env ''events'' p < 0")
  case True
  then show ?thesis using assms by (intro exI [of _ "{#}"]) (simp add: registerEventHandler_def)
next
  case False
  then show ?thesis using assms
    by (intro exI [of _ "ring_of p"]) (auto simp: registerEventHandler_def owned_simps ring_of_def split: if_splits option.splits)
qed

lemma owned_detachFilter: "owned lost p \<Longrightarrow> owned lost (detachFilter p)"
  using owned_destroyLinks [OF owned_releaseRingBuffer] by (simp add: detachFilter_def owned_def held_def)

lemma owned_attachHooks:
  assumes "owned lost p" "attachHooks env p = (ok, p')" shows "owned lost p'"
proof -
  obtain n hs ls w where a: "attach_each (attach env) (gp_hooks p) (gp_links p, gp_world p) = (n, hs, ls, w)"
    by (metis prod_cases4)
  obtain new cs where "ls = gp_links p @ new" "pw_calls w = pw_calls (gp_world p) @ cs"
      "mset (acquired cs) = mset (released cs) + mset (held_links new)" "pw_next (gp_world p) \<le> pw_next w"
      "map handle (acquired cs) = [pw_next (gp_world p)..<pw_next w]"
    using hk.each_extends [OF a] by (auto simp: extends_def)
  then have "owned lost (p\<lparr>gp_hooks := hs, gp_links := ls, gp_world := w\<rparr>)"
    using assms(1) upt_add_eq_append [of 0 "pw_next (gp_world p)" "pw_next w - pw_next (gp_world p)"]
    by (auto simp: owned_def held_def)
  then show ?thesis using assms(2) a by (auto simp: attachHooks_def owned_def held_def Let_def split: if_splits)
qed

lemma detachFilter_fields [simp]:
  "gp_ring_buffer (detachFilter p) = None" "gp_links (detachFilter p) = []" "gp_loaded (detachFilter p) = False"
  "gp_object (detachFilter p) = gp_object p" "gp_hooks (detachFilter p) = gp_hooks p"
  by (auto simp: detachFilter_def destroyLinks_def releaseRingBuffer_def split: option.split)

lemma closeObject_fields [simp]:
  "gp_object (closeObject p) = None" "gp_ring_buffer (closeObject p) = gp_ring_buffer p"
  "gp_links (closeObject p) = gp_links p" "gp_loaded (closeObject p) = gp_loaded p" "gp_hooks (closeObject p) = gp_hooks p"
  by (auto simp: closeObject_def split: option.split)

lemma openObject_fields:
  "openObject env p = (ok, p') \<Longrightarrow> gp_ring_buffer p' = gp_ring_buffer p \<and> gp_links p' = gp_links p \<and>
     gp_loaded p' = gp_loaded p \<and> gp_hooks p' = gp_hooks p \<and> (ok \<longleftrightarrow> gp_object p' \<noteq> None)"
  by (auto simp: openObject_def acquire_def split: if_splits)

lemma attachHooks_fields:
  "attachHooks env p = (ok, p') \<Longrightarrow> gp_ring_buffer p' = gp_ring_buffer p \<and> gp_object p' = gp_object p \<and>
     gp_loaded p' = gp_loaded p \<and> list_all2 same_module (gp_hooks p) (gp_hooks p')"
  by (auto simp: attachHooks_def Let_def split: if_splits prod.splits dest: hk.each_same)

lemma registerEventHandler_fields:
  "registerEventHandler env p = (ok, p') \<Longrightarrow> gp_object p' = gp_object p \<and> gp_links p' = gp_links p \<and>
     gp_loaded p' = gp_loaded p \<and> gp_hooks p' = gp_hooks p \<and> (ok \<longrightarrow> gp_ring_buffer p' \<noteq> None)"
  by (auto simp: registerEventHandler_def acquire_def split: if_splits)

lemma same_module_refl [simp]: "same_module h h"
proof (cases h)
  case (XdpTlsProgram x)
  then show ?thesis by (cases x) auto
qed simp_all

lemma same_module_trans: "same_module a b \<Longrightarrow> same_module b c \<Longrightarrow> same_module a c"
  by (cases a) auto

lemma same_modules_trans: "list_all2 same_module as bs \<Longrightarrow> list_all2 same_module bs cs \<Longrightarrow> list_all2 same_module as cs"
  by (rule list_all2_trans [of same_module same_module same_module]) (blast intro: same_module_trans)

text \<open>Only ring buffers are lost, and none in a fresh run.  The pointer to the object goes before \<open>loaded_\<close> does when a
  loaded program is loaded again and the kernel refuses it.\<close>

definition gp_inv :: "bool \<Rightarrow> hook list \<Rightarrow> guard_program \<Rightarrow> bool" where
  "gp_inv fresh hooks p \<longleftrightarrow> (\<exists>lost. owned lost p \<and> (\<forall>x. x \<in># lost \<longrightarrow> (\<exists>n. x = Ring n)) \<and> (fresh \<longrightarrow> lost = {#})) \<and>
     list_all2 same_module hooks (gp_hooks p) \<and>
     (if gp_loaded p then gp_ring_buffer p \<noteq> None \<and> (fresh \<longrightarrow> gp_object p \<noteq> None)
      else gp_ring_buffer p = None \<and> gp_links p = [])"

lemma loadFilter_owned:
  assumes "owned lost p" "loadFilter env p = (ok, p')"
  shows "\<exists>l. owned (lost + l) p' \<and> (l = {#} \<or> l = ring_of p) \<and> (ok \<longrightarrow> l = ring_of p)"
proof -
  obtain ok1 p1 where o: "openObject env p = (ok1, p1)" by fastforce
  obtain ok2 p2 where a: "attachHooks env p1 = (ok2, p2)" by fastforce
  obtain ok3 p3 where r: "registerEventHandler env p2 = (ok3, p3)" by fastforce
  have ring: "ring_of p2 = ring_of p" using openObject_fields [OF o] attachHooks_fields [OF a] by (simp add: ring_of_def)
  have own1: "owned lost p1" by (rule owned_openObject [OF assms(1) o])
  have own2: "owned lost p2" by (rule owned_attachHooks [OF own1 a])
  obtain l where l: "owned (lost + l) p3" "l = {#} \<or> l = ring_of p" "ok3 \<longrightarrow> l = ring_of p"
    using owned_registerEventHandler [OF own2 r] ring by auto
  have un: "owned x q \<Longrightarrow> owned x (closeObject (detachFilter q))" for x q by (simp add: owned_closeObject owned_detachFilter)
  have early: ?thesis if "owned lost p'" "\<not> ok" using that by (intro exI [of _ "{#}"]) simp
  have late: ?thesis if "owned (lost + l) p'" "ok \<longrightarrow> ok3" using that l by blast
  have loaded: "owned x q \<Longrightarrow> owned x (q\<lparr>gp_loaded := b\<rparr>)" for x q b by (simp add: owned_def held_def)
  show ?thesis
    using assms(2) o a r early late own1 owned_closeObject [OF own1] un [OF own2] un [OF l(1)] loaded [OF l(1)]
    by (auto simp: loadFilter_def split: if_splits)
qed

lemma loadFilter_fields:
  assumes "loadFilter env p = (ok, p')"
  shows "list_all2 same_module (gp_hooks p) (gp_hooks p')" "ok \<longrightarrow> gp_loaded p' \<and> gp_ring_buffer p' \<noteq> None \<and> gp_object p' \<noteq> None"
    "\<not> ok \<longrightarrow> gp_object p' = None
      \<and> (gp_loaded p' = gp_loaded p \<and> gp_ring_buffer p' = gp_ring_buffer p \<and> gp_links p' = gp_links p
         \<or> \<not> gp_loaded p' \<and> gp_ring_buffer p' = None \<and> gp_links p' = [])"
proof -
  obtain ok1 p1 where o: "openObject env p = (ok1, p1)" by fastforce
  obtain ok2 p2 where a: "attachHooks env p1 = (ok2, p2)" by fastforce
  obtain ok3 p3 where r: "registerEventHandler env p2 = (ok3, p3)" by fastforce
  note f = openObject_fields [OF o] attachHooks_fields [OF a] registerEventHandler_fields [OF r]
  have refl: "list_all2 same_module hs hs" for hs by (simp add: list.rel_refl)
  show "list_all2 same_module (gp_hooks p) (gp_hooks p')" using assms o a r f refl by (auto simp: loadFilter_def split: if_splits)
  show "ok \<longrightarrow> gp_loaded p' \<and> gp_ring_buffer p' \<noteq> None \<and> gp_object p' \<noteq> None"
    using assms o a r f by (auto simp: loadFilter_def split: if_splits)
  show "\<not> ok \<longrightarrow> gp_object p' = None
      \<and> (gp_loaded p' = gp_loaded p \<and> gp_ring_buffer p' = gp_ring_buffer p \<and> gp_links p' = gp_links p
         \<or> \<not> gp_loaded p' \<and> gp_ring_buffer p' = None \<and> gp_links p' = [])"
    using assms o a r f by (auto simp: loadFilter_def split: if_splits)
qed

lemma loadFilter_stages:
  assumes "gp_inv fresh hooks p" "fresh \<longrightarrow> \<not> gp_loaded p" "loadFilter env p = (ok, p')"
  shows "gp_inv fresh hooks p'" "\<not> gp_loaded p \<Longrightarrow> gp_loaded p' = ok \<and> (\<not> ok \<longrightarrow> held p' = [])"
proof -
  note f = loadFilter_fields [OF assms(3)]
  obtain lost where lost: "owned lost p" "\<forall>x. x \<in># lost \<longrightarrow> (\<exists>n. x = Ring n)" "fresh \<longrightarrow> lost = {#}"
    using assms(1) by (auto simp: gp_inv_def)
  obtain l where l: "owned (lost + l) p'" "l = {#} \<or> l = ring_of p" using loadFilter_owned [OF lost(1) assms(3)] by blast
  have "fresh \<longrightarrow> ring_of p = {#}" using assms(1,2) by (auto simp: gp_inv_def ring_of_def)
  moreover have "x \<in># ring_of p \<Longrightarrow> \<exists>n. x = Ring n" for x by (auto simp: ring_of_def split: option.splits)
  ultimately have lost': "\<exists>lost. owned lost p' \<and> (\<forall>x. x \<in># lost \<longrightarrow> (\<exists>n. x = Ring n)) \<and> (fresh \<longrightarrow> lost = {#})"
    using lost l by (intro exI [of _ "lost + l"]) auto
  have hooks: "list_all2 same_module hooks (gp_hooks p')" using same_modules_trans [OF _ f(1)] assms(1) by (auto simp: gp_inv_def)
  show "gp_inv fresh hooks p'" using lost' hooks f(2,3) assms(1,2) by (cases ok) (auto simp: gp_inv_def)
  show "gp_loaded p' = ok \<and> (\<not> ok \<longrightarrow> held p' = [])" if "\<not> gp_loaded p"
    using that f(2,3) assms(1) by (cases ok) (auto simp: gp_inv_def held_def)
qed

lemma gp_inv_detachFilter: "gp_inv fresh hooks p \<Longrightarrow> gp_inv fresh hooks (detachFilter p)"
  using owned_detachFilter [of _ p] by (auto simp: gp_inv_def)

lemma dispatchRecord_frame:
  "dispatchRecord rl x (p, dl) = (rc, p', dl') \<Longrightarrow> rc = 0 \<and> (\<exists>n. p' = p\<lparr>gp_unknown_source_count := n\<rparr>)"
  by (cases x) (auto simp: dispatchRecord_def split: option.splits intro: exI [of _ "gp_unknown_source_count p"])

lemma deliver_frame:
  "deliver rl xs (p, dl) = (p', dl') \<Longrightarrow> \<exists>n. p' = p\<lparr>gp_unknown_source_count := n\<rparr>"
proof (induction xs arbitrary: p dl)
  case Nil
  then show ?case by (auto intro: exI [of _ "gp_unknown_source_count p"])
next
  case (Cons x xs)
  obtain rc p1 dl1 where d: "dispatchRecord rl x (p, dl) = (rc, p1, dl1)" by (metis prod_cases3)
  with dispatchRecord_frame [OF d] Cons show ?case by (fastforce simp: ringBufferCallback_def)
qed

lemma gp_inv_count: "gp_inv fresh hooks (p\<lparr>gp_unknown_source_count := n\<rparr>) = gp_inv fresh hooks p"
  by (simp add: gp_inv_def owned_def held_def)

lemma pollEvents_frame:
  "pollEvents rl rs (p, dl) = (rc, p', dl') \<Longrightarrow> \<exists>n. p' = p\<lparr>gp_unknown_source_count := n\<rparr>"
  by (cases rs) (auto simp: pollEvents_def split: if_splits dest: deliver_frame intro: exI [of _ "gp_unknown_source_count p"])

lemma gp_inv_step:
  assumes "gp_inv fresh hooks (fst s)" "\<And>env. fresh \<Longrightarrow> l = Load env \<Longrightarrow> \<not> gp_loaded (fst s)"
  shows "gp_inv fresh hooks (fst (gp_exec l s))"
proof -
  obtain p dl where s: "s = (p, dl)" by (cases s)
  show ?thesis
  proof (cases l)
    case (Load env)
    then show ?thesis using assms loadFilter_stages(1) [of fresh hooks p env] by (cases "loadFilter env p") (auto simp: s)
  next
    case Detach_filter
    then show ?thesis using assms by (auto simp: s gp_inv_detachFilter)
  next
    case (Poll rl rc xs)
    obtain rc' p' dl' where e: "pollEvents rl (rc, xs) (p, dl) = (rc', p', dl')" by (metis prod_cases3)
    with pollEvents_frame [OF e] Poll assms show ?thesis by (auto simp: s gp_inv_count)
  qed
qed

lemma gp_reach_inv: "gp_reach fresh hooks s \<Longrightarrow> gp_inv fresh hooks (fst s)"
proof (induction rule: gp_reach.induct)
  case (init dl)
  show ?case by (simp add: gp_inv_def HttpGuardProgram_init_def owned_def held_def list.rel_refl)
next
  case (step s l)
  then show ?case by (blast intro: gp_inv_step)
next
  case (others p dl dl')
  then show ?case by simp
qed

lemma hook_destroy_resources:
  "acquired (pw_calls (hook_destroy h w)) = acquired (pw_calls w)"
  "released (pw_calls (hook_destroy h w)) = released (pw_calls w)"
  by (cases h; simp add: XdpTlsProgram_destroy_def log_call_def)+

lemma hooks_destroy_resources:
  "acquired (pw_calls (fold hook_destroy hs w)) = acquired (pw_calls w)"
  "released (pw_calls (fold hook_destroy hs w)) = released (pw_calls w)"
  by (induction hs arbitrary: w) (simp_all add: hook_destroy_resources)

lemma owned_distinct: "owned lost p \<Longrightarrow> distinct (acquired (pw_calls (gp_world p)))"
  unfolding owned_def by (metis distinct_map distinct_upt)

section \<open>When loading succeeds\<close>

text \<open>Whether a module counts as attached: its primary program, whatever else attaches.\<close>

fun attaches :: "bpf_env \<Rightarrow> hook \<Rightarrow> bool" where
  "attaches env (SslUprobeProgram lib) \<longleftrightarrow>
     be_program env ''https_guard_ssl_write'' \<and> be_uprobe env ''https_guard_ssl_write'' ''SSL_write'' lib False = Link_ok"
| "attaches env (XdpTlsProgram x) \<longleftrightarrow>
     be_program env ''https_guard_xdp'' \<and>
     (be_xdp_link env ''https_guard_xdp'' (xh_ifindex x) = Link_ok \<or>
      0 \<le> be_program_fd env ''https_guard_xdp'' \<and>
      (be_xdp_attach env (xh_ifindex x) (XDP_FLAGS_DRV_MODE OR XDP_FLAGS_UPDATE_IF_NOEXIST) = 0 \<or>
       be_xdp_attach env (xh_ifindex x) (XDP_FLAGS_SKB_MODE OR XDP_FLAGS_UPDATE_IF_NOEXIST) = 0))"
| "attaches env (LsmCertGuardProgram exes) \<longleftrightarrow>
     be_program env ''https_guard_cert_open'' \<and> be_lsm env ''https_guard_cert_open'' \<noteq> Link_null"

lemma make_link_cases:
  "make_link r w = (None, w') \<Longrightarrow> r = Link_null" "make_link r w = (Some (Err_ptr e), w') \<Longrightarrow> r = Link_err e"
  "make_link r w = (Some (Link_ptr n), w') \<Longrightarrow> r = Link_ok"
  by (cases r; auto simp: acquire_def)+

lemma fst_attachOneUprobe:
  "fst (attachOneUprobe env prog f lib ret s) \<longleftrightarrow> be_program env prog \<and> be_uprobe env prog f lib ret = Link_ok"
  by (cases s) (auto simp: attachOneUprobe_def acquire_def split: prod.split option.split link_ptr.split dest: make_link_cases)

lemma fst_attach: "fst (attach env h s) = attaches env h"
proof (cases h)
  case (SslUprobeProgram lib)
  then show ?thesis
    using fst_attachOneUprobe [of env "''https_guard_ssl_write''" "''SSL_write''" lib False s]
    by (simp add: SslUprobeProgram_attach_def Let_def split_beta)
next
  case (XdpTlsProgram x)
  then show ?thesis
    by (cases s, cases "be_xdp_link env ''https_guard_xdp'' (xh_ifindex x)")
      (simp_all add: XdpTlsProgram_attach_def Let_def acquire_def split_beta)
next
  case (LsmCertGuardProgram exes)
  then show ?thesis
    by (cases s, cases "be_lsm env ''https_guard_cert_open''")
      (simp_all add: LsmCertGuardProgram_attach_def acquire_def split_beta)
qed

lemma attach_each_none: "fst (attach_each (attach env) hs s) = 0 \<longleftrightarrow> (\<forall>h \<in> set hs. \<not> attaches env h)"
proof (induction hs arbitrary: s)
  case (Cons h hs)
  obtain ok h1 s1 where a: "attach env h s = (ok, h1, s1)" by (cases "attach env h s") auto
  then have "ok = attaches env h" using fst_attach [of env h s] by simp
  with Cons.IH [of s1] show ?case by (auto simp: a split_beta)
qed simp

lemma fst_attachHooks: "fst (attachHooks env p) \<longleftrightarrow> (\<exists>h \<in> set (gp_hooks p). attaches env h)"
  using attach_each_none [of env "gp_hooks p" "(gp_links p, gp_world p)"]
  by (auto simp: attachHooks_def Let_def split_beta)

lemma loadFilter_ok_iff:
  "fst (loadFilter env p) \<longleftrightarrow>
     (gp_object p \<noteq> None \<or> be_open env) \<and> be_load env = 0 \<and> (\<exists>h \<in> set (gp_hooks p). attaches env h) \<and>
     0 \<le> be_map_fd env ''events'' \<and> be_ring env"
proof -
  obtain ok1 p1 where o: "openObject env p = (ok1, p1)" by fastforce
  obtain ok2 p2 where a: "attachHooks env p1 = (ok2, p2)" by fastforce
  obtain ok3 p3 where r: "registerEventHandler env p2 = (ok3, p3)" by fastforce
  have 1: "ok1 \<longleftrightarrow> gp_object p \<noteq> None \<or> be_open env" using o by (auto simp: openObject_def acquire_def split: if_splits)
  have 2: "ok2 \<longleftrightarrow> (\<exists>h \<in> set (gp_hooks p). attaches env h)"
    using fst_attachHooks [of env p1] a openObject_fields [OF o] by simp
  have 3: "ok3 \<longleftrightarrow> 0 \<le> be_map_fd env ''events'' \<and> be_ring env" if ok1
    using r that attachHooks_fields [OF a] openObject_fields [OF o]
    by (auto simp: registerEventHandler_def acquire_def getMapFd_def split: if_splits)
  show ?thesis using 1 2 3 o a r by (simp add: loadFilter_def)
qed

section \<open>The properties\<close>

lemma destroyed_resources:
  assumes "owned lost p"
  shows "distinct (released (pw_calls (HttpGuardProgram_destroy p)))
     \<and> mset (acquired (pw_calls (HttpGuardProgram_destroy p))) = mset (released (pw_calls (HttpGuardProgram_destroy p))) + lost"
proof -
  let ?q = "closeObject (detachFilter p)"
  have q: "owned lost ?q" using assms by (simp add: owned_closeObject owned_detachFilter)
  then have ms: "mset (acquired (pw_calls (gp_world ?q))) = mset (released (pw_calls (gp_world ?q))) + lost"
    by (simp add: owned_def held_def)
  have "distinct (released (pw_calls (gp_world ?q)))"
    using owned_distinct [OF q] ms by (metis distinct_append mset_append mset_eq_imp_distinct_iff ex_mset)
  then show ?thesis using ms by (simp add: HttpGuardProgram_destroy_def Let_def hooks_destroy_resources)
qed

lemma fresh_destroyed_resources:
  assumes "gp_reach True hooks (p, dl)"
  shows "distinct (released (pw_calls (HttpGuardProgram_destroy p)))
     \<and> mset (released (pw_calls (HttpGuardProgram_destroy p))) = mset (acquired (pw_calls (HttpGuardProgram_destroy p)))"
  using gp_reach_inv [OF assms] destroyed_resources [of "{#}" p] by (auto simp: gp_inv_def)

text \<open>A successful load of a loaded program drops its ring buffer.\<close>

lemma reload_loses_ring:
  assumes "owned lost p" "gp_ring_buffer p = Some n" "loadFilter env p = (True, p')"
  shows "Ring n \<in> set (acquired (pw_calls (gp_world p'))) \<and> Ring n \<notin> set (released (pw_calls (gp_world p'))) \<and> Ring n \<notin> set (held p')"
proof -
  let ?acq = "acquired (pw_calls (gp_world p'))" and ?rel = "released (pw_calls (gp_world p'))"
  have o: "owned (lost + {#Ring n#}) p'" using loadFilter_owned [OF assms(1,3)] assms(2) by (auto simp: ring_of_def)
  then have ms: "mset ?acq = mset ?rel + mset (held p') + (lost + {#Ring n#})" by (simp add: owned_def)
  have "count (mset ?acq) (Ring n) \<le> 1" using owned_distinct [OF o] by (simp add: distinct_count_atmost_1)
  then have "count (mset ?rel) (Ring n) = 0" "count (mset (held p')) (Ring n) = 0" using ms by simp_all
  moreover have "Ring n \<in># mset ?acq" unfolding ms by simp
  ultimately show ?thesis by (simp add: count_eq_zero_iff)
qed

text \<open>C12: Ownership of kernel resources, over any run of loads, detaches and polls and whatever libbpf
  answers.  Every object, ring buffer, link and descriptor ever acquired is held by the program, or was released,
  exactly once, or is lost; only ring buffers are lost, and none as long as a load is never asked of a program that is
  already loaded (\<open>fresh\<close>, which is how the daemon uses it).  A successful load of a loaded program does lose one: the ring
  buffer it had is neither held nor released afterwards.  A program that is not loaded holds no ring
  buffer and no link; a load of it succeeds exactly when the object opens and loads, some module's primary program
  attaches and the ring buffer is made, and a failed one leaves nothing held.  After the destructor
  everything acquired and not lost has been released, exactly once.\<close>

theorem program_resources:
  assumes "gp_reach fresh hooks (p, dl)"
  shows "\<exists>lost. distinct (acquired (pw_calls (gp_world p)))
     \<and> mset (acquired (pw_calls (gp_world p))) = mset (released (pw_calls (gp_world p))) + mset (held p) + lost
     \<and> (\<forall>x. x \<in># lost \<longrightarrow> (\<exists>n. x = Ring n)) \<and> (fresh \<longrightarrow> lost = {#})
     \<and> (if gp_loaded p then gp_ring_buffer p \<noteq> None \<and> (fresh \<longrightarrow> gp_object p \<noteq> None)
        else gp_ring_buffer p = None \<and> gp_links p = [])
     \<and> (\<forall>env ok p'. \<not> gp_loaded p \<and> loadFilter env p = (ok, p') \<longrightarrow>
          gp_loaded p' = ok \<and> (\<not> ok \<longrightarrow> held p' = []) \<and>
          (ok \<longleftrightarrow> (gp_object p \<noteq> None \<or> be_open env) \<and> be_load env = 0 \<and> (\<exists>h \<in> set (gp_hooks p). attaches env h) \<and>
             0 \<le> be_map_fd env ''events'' \<and> be_ring env))
     \<and> (\<forall>env p' n. gp_ring_buffer p = Some n \<and> loadFilter env p = (True, p') \<longrightarrow>
          Ring n \<in> set (acquired (pw_calls (gp_world p'))) \<and> Ring n \<notin> set (released (pw_calls (gp_world p'))) \<and> Ring n \<notin> set (held p'))
     \<and> distinct (released (pw_calls (HttpGuardProgram_destroy p)))
     \<and> mset (acquired (pw_calls (HttpGuardProgram_destroy p))) = mset (released (pw_calls (HttpGuardProgram_destroy p))) + lost"
proof -
  have inv: "gp_inv fresh hooks p" using gp_reach_inv [OF assms] by simp
  then obtain lost where lost: "owned lost p" "\<forall>x. x \<in># lost \<longrightarrow> (\<exists>n. x = Ring n)" "fresh \<longrightarrow> lost = {#}"
    by (auto simp: gp_inv_def)
  have load: "gp_loaded p' = ok \<and> (\<not> ok \<longrightarrow> held p' = []) \<and>
      (ok \<longleftrightarrow> (gp_object p \<noteq> None \<or> be_open env) \<and> be_load env = 0 \<and> (\<exists>h \<in> set (gp_hooks p). attaches env h) \<and>
         0 \<le> be_map_fd env ''events'' \<and> be_ring env)"
    if "\<not> gp_loaded p" "loadFilter env p = (ok, p')" for env ok p'
    using loadFilter_stages(2) [OF inv _ that(2,1)] loadFilter_ok_iff [of env p] that by auto
  have phase: "if gp_loaded p then gp_ring_buffer p \<noteq> None \<and> (fresh \<longrightarrow> gp_object p \<noteq> None)
      else gp_ring_buffer p = None \<and> gp_links p = []" using inv by (simp add: gp_inv_def)
  have eq: "mset (acquired (pw_calls (gp_world p))) = mset (released (pw_calls (gp_world p))) + mset (held p) + lost"
    using lost(1) by (simp add: owned_def)
  show ?thesis using owned_distinct [OF lost(1)] eq lost(2,3) phase load reload_loses_ring [OF lost(1)] destroyed_resources [OF lost(1)]
    by (intro exI [of _ lost] conjI allI impI) blast+
qed

definition demo_hooks :: "hook list" where
  "demo_hooks = [SslUprobeProgram ''/usr/lib/libssl.so.3'', XdpTlsProgram demo_xdp, LsmCertGuardProgram [''/usr/bin/bmcweb'']]"

definition demo_program :: guard_program where
  "demo_program = snd (loadFilter demo_bpf_env (HttpGuardProgram_init demo_hooks))"

lemma demo_program_reach: "gp_reach True demo_hooks (demo_program, DetectLoop_init)"
  using gp_reach.step [OF gp_reach.init [of True demo_hooks DetectLoop_init], where l = "Load demo_bpf_env"]
  by (simp add: demo_program_def HttpGuardProgram_init_def)

lemma demo_program_held: "gp_loaded demo_program \<and> length (held demo_program) = 8"
  by code_simp

lemma demo_program_reload: "fst (loadFilter demo_bpf_env demo_program)"
  by code_simp

theorem program_resources_witness:
  "gp_loaded demo_program \<and> length (held demo_program) = 8
   \<and> mset (released (pw_calls (HttpGuardProgram_destroy demo_program))) = mset (acquired (pw_calls (HttpGuardProgram_destroy demo_program)))
   \<and> (\<exists>n. gp_ring_buffer demo_program = Some n
        \<and> Ring n \<notin> set (released (pw_calls (gp_world (snd (loadFilter demo_bpf_env demo_program))))))"
proof -
  obtain p' where "loadFilter demo_bpf_env demo_program = (True, p')"
    using demo_program_reload by (cases "loadFilter demo_bpf_env demo_program") auto
  then show ?thesis using program_resources [OF demo_program_reach] demo_program_held by auto
qed

end
