(* ===== verification/Tcp_Destroyer.thy ===== *)
theory Tcp_Destroyer
  imports Dispatch
begin

text \<open>
  \<open>actions/tcp/TcpDestroyer.cpp\<close> and \<open>BlockTcpAction.cpp\<close>: the netlink request that destroys one TCP
  connection, and the life of its descriptor.  The request is the struct with its bytes as
  the little-endian target sends them (\<open>linux/inet_diag.h\<close>, \<open>linux/netlink.h\<close>).  An environment says
  how each system call and each wait of one execution ends; the reply buffer is the received
  bytes followed by whatever the uninitialised array held.
\<close>

section \<open>The request\<close>

definition AF_INET :: u8 where "AF_INET = 2"
definition AF_INET6 :: u8 where "AF_INET6 = 10"
definition IPPROTO_TCP :: u8 where "IPPROTO_TCP = 6"
definition SOCK_DESTROY :: u16 where "SOCK_DESTROY = 21"
definition NLM_F_REQUEST :: u16 where "NLM_F_REQUEST = 1"
definition NLM_F_ACK :: u16 where "NLM_F_ACK = 4"
definition NLMSG_ERROR :: u16 where "NLMSG_ERROR = 2"

record nlmsghdr =
  nlmsg_len :: u32
  nlmsg_type :: u16
  nlmsg_flags :: u16
  nlmsg_seq :: u32
  nlmsg_pid :: u32

record inet_diag_req_v2 =
  sdiag_family :: u8
  sdiag_protocol :: u8
  idiag_ext :: u8
  idiag_pad :: u8
  idiag_states :: u32
  idiag_sport :: u16
  idiag_dport :: u16
  idiag_src :: "u8 list"
  idiag_dst :: "u8 list"
  idiag_if :: u32
  idiag_cookie0 :: u32
  idiag_cookie1 :: u32

definition zero_diag_req :: inet_diag_req_v2 where
  "zero_diag_req = \<lparr>sdiag_family = 0, sdiag_protocol = 0, idiag_ext = 0, idiag_pad = 0, idiag_states = 0, idiag_sport = 0,
     idiag_dport = 0, idiag_src = replicate 16 0, idiag_dst = replicate 16 0, idiag_if = 0, idiag_cookie0 = 0, idiag_cookie1 = 0\<rparr>"

definition htons :: "u16 \<Rightarrow> u16" where "htons = bswap16"

definition populateRequest ::
  "bool \<Rightarrow> u8 list \<Rightarrow> u8 list \<Rightarrow> u16 \<Rightarrow> u16 \<Rightarrow> inet_diag_req_v2 \<Rightarrow> inet_diag_req_v2" where
  "populateRequest is_ipv6 local_addr remote_addr local_port remote_port req =
     req\<lparr>sdiag_family := (if is_ipv6 then AF_INET6 else AF_INET), sdiag_protocol := IPPROTO_TCP, idiag_states := 0xFFF,
         idiag_sport := htons local_port, idiag_dport := htons remote_port,
         idiag_src := local_addr, idiag_dst := remote_addr,
         idiag_cookie0 := ucast (NOT 0 :: u64), idiag_cookie1 := ucast (NOT 0 :: u64)\<rparr>"

definition diag_nlh :: nlmsghdr where
  "diag_nlh = \<lparr>nlmsg_len = 72, nlmsg_type = SOCK_DESTROY, nlmsg_flags = NLM_F_REQUEST OR NLM_F_ACK, nlmsg_seq = 1, nlmsg_pid = 0\<rparr>"

text \<open>The memory of \<open>struct diag_nl_msg\<close>, the buffer \<open>buildDestroyRequest\<close> hands to \<open>sendmsg\<close>.\<close>

definition nlh_bytes :: "nlmsghdr \<Rightarrow> u8 list" where
  "nlh_bytes h = le_bytes 4 (nlmsg_len h) @ le_bytes 2 (nlmsg_type h) @ le_bytes 2 (nlmsg_flags h)
     @ le_bytes 4 (nlmsg_seq h) @ le_bytes 4 (nlmsg_pid h)"

definition req_bytes :: "inet_diag_req_v2 \<Rightarrow> u8 list" where
  "req_bytes r = [sdiag_family r, sdiag_protocol r, idiag_ext r, idiag_pad r] @ le_bytes 4 (idiag_states r)
     @ le_bytes 2 (idiag_sport r) @ le_bytes 2 (idiag_dport r) @ idiag_src r @ idiag_dst r
     @ le_bytes 4 (idiag_if r) @ le_bytes 4 (idiag_cookie0 r) @ le_bytes 4 (idiag_cookie1 r)"

section \<open>One execution\<close>

record tcp_destroyer =
  td_nl_fd :: int
  td_action :: block_tcp_action

text \<open>The constructor: \<open>fd\<close> is what \<open>socket\<close> returned.\<close>

definition TcpDestroyer :: "int \<Rightarrow> block_tcp_action \<Rightarrow> tcp_destroyer" where
  "TcpDestroyer fd act = \<lparr>td_nl_fd = fd, td_action = act\<rparr>"

definition destroy_request :: "tcp_destroyer \<Rightarrow> u8 list" where
  "destroy_request d =
     nlh_bytes diag_nlh @ req_bytes (populateRequest (bt_is_ipv6 (td_action d)) (bt_local_addr (td_action d))
       (bt_remote_addr (td_action d)) (bt_local_port (td_action d)) (bt_remote_port (td_action d)) zero_diag_req)"

record tcp_env =
  te_assign :: bool
  te_wait_write :: bool
  te_sent :: int
  te_wait_read :: bool
  te_reply :: "u8 list option"
  te_junk :: "u8 list"

datatype tcp_outcome =
    No_socket | Send_failed | Recv_failed | Short_reply nat | Destroyed | Destroy_failed int | Unexpected_type u16
  | Threw

text \<open>The reply: \<open>recvd\<close> is how many bytes came.\<close>

definition parse_reply :: "nat \<Rightarrow> u8 list \<Rightarrow> tcp_outcome" where
  "parse_reply recvd buf =
     (if recvd < 16 then Short_reply recvd
      else
        let ty = le_word (take 2 (drop 4 buf)) :: u16 in
        if ty = NLMSG_ERROR then
          let nl_err = sint (le_word (take 4 (drop 16 buf)) :: u32) in
          if nl_err = 0 then Destroyed else Destroy_failed nl_err
        else Unexpected_type ty)"

text \<open>
  The outcome, what was sent, and how often the descriptor was closed by the local
  \<open>stream_descriptor\<close>: it closes what it still owns when it goes out of scope, which an
  exception of a wait makes it do.
\<close>

definition async_execute :: "tcp_env \<Rightarrow> tcp_destroyer \<Rightarrow> tcp_outcome \<times> u8 list list \<times> nat" where
  "async_execute env d =
     (if td_nl_fd d < 0 then (No_socket, [], 0)
      else if \<not> te_assign env then (Threw, [], 0)
      else if \<not> te_wait_write env then (Threw, [], 1)
      else if te_sent env < 0 then (Send_failed, [], 0)
      else if \<not> te_wait_read env then (Threw, [destroy_request d], 1)
      else case te_reply env of
             None \<Rightarrow> (Recv_failed, [destroy_request d], 0)
           | Some bs \<Rightarrow> (parse_reply (length bs) (bs @ te_junk env), [destroy_request d], 0))"

definition TcpDestroyer_destroy :: "tcp_destroyer \<Rightarrow> nat" where
  "TcpDestroyer_destroy d = (if 0 \<le> td_nl_fd d then 1 else 0)"

text \<open>\<open>BlockTcpAction::execute_async\<close>: the result is discarded; only an exception leaves it.  With it,
  what was sent and how often the descriptor was closed in all.\<close>

definition BlockTcpAction_execute :: "int \<Rightarrow> tcp_env \<Rightarrow> block_tcp_action \<Rightarrow> bool \<times> u8 list list \<times> nat" where
  "BlockTcpAction_execute fd env act =
     (let destroyer = TcpDestroyer fd act;
          (result, sent, closed) = async_execute env destroyer
      in (result = Threw, sent, closed + TcpDestroyer_destroy destroyer))"

section \<open>The bytes on the wire\<close>

lemma le_bytes_2: "le_bytes 2 w = [byte_at 0 w, byte_at 1 w]"
  by (simp add: le_bytes_def numeral_2_eq_2)

lemma htons_bytes: "le_bytes 2 (htons p) = [byte_at 1 p, byte_at 0 p]"
  by (simp add: le_bytes_2 htons_def bswap16_def be16_of_swap)

lemma length_nlh_bytes [simp]: "length (nlh_bytes h) = 16"
  by (simp add: nlh_bytes_def)

lemma all_ones_bytes: "le_bytes 4 (ucast (NOT 0 :: u64) :: u32) = [255, 255, 255, 255]"
  by code_simp

lemma nlh_fixed: "nlh_bytes diag_nlh = [72, 0, 0, 0, 21, 0, 5, 0, 1, 0, 0, 0, 0, 0, 0, 0]"
  by code_simp

text \<open>The layout, as offsets into the 72 bytes.\<close>

lemma destroy_request_layout:
  assumes "length (bt_local_addr a) = 16" "length (bt_remote_addr a) = 16"
  shows "destroy_request (TcpDestroyer fd a) =
     [72, 0, 0, 0, 21, 0, 5, 0, 1, 0, 0, 0, 0, 0, 0, 0] @
     [if bt_is_ipv6 a then 10 else 2, 6, 0, 0] @ le_bytes 4 (0xFFF :: u32) @
     [byte_at 1 (bt_local_port a), byte_at 0 (bt_local_port a)] @
     [byte_at 1 (bt_remote_port a), byte_at 0 (bt_remote_port a)] @
     bt_local_addr a @ bt_remote_addr a @ le_bytes 4 (0 :: u32) @ replicate 8 255"
proof -
  have r: "replicate 8 (255 :: u8) = [255, 255, 255, 255, 255, 255, 255, 255]" by (simp add: numeral_eq_Suc)
  show ?thesis
    unfolding destroy_request_def req_bytes_def nlh_fixed r
    by (simp add: TcpDestroyer_def populateRequest_def zero_diag_req_def htons_bytes [simplified]
        all_ones_bytes [simplified] AF_INET_def AF_INET6_def IPPROTO_TCP_def)
qed

lemma async_execute_destroyed:
  "fst (async_execute env d) = Destroyed \<longleftrightarrow>
     0 \<le> td_nl_fd d \<and> te_assign env \<and> te_wait_write env \<and> 0 \<le> te_sent env \<and> te_wait_read env \<and>
     (\<exists>bs. te_reply env = Some bs \<and> 16 \<le> length bs \<and> (le_word (take 2 (drop 4 bs)) :: u16) = NLMSG_ERROR \<and>
        (le_word (take 4 (drop 16 (bs @ te_junk env))) :: u32) = 0)"
proof -
  have z: "sint w = 0 \<longleftrightarrow> w = 0" for w :: u32 by (metis signed_eq_0_iff)
  show ?thesis by (auto simp: async_execute_def parse_reply_def z Let_def split: option.split)
qed

section \<open>Properties\<close>

text \<open>C22: The teardown names the attributed connection on the wire.  Whatever teardown dispatch
  produces for an event, the 72 bytes sent to the kernel are a \<open>SOCK_DESTROY\<close> request, with
  acknowledgement, of the event's family, whose source is the local end and whose destination is
  the peer: the addresses verbatim, the ports in network byte order, every cookie byte set to
  match any socket.\<close>

theorem destroy_request_exact:
  assumes "BlockTcp t \<in> set (dispatched res dump now m v ctx)"
    and "m' = snd (ensurePeerResolved res m)"
    and "length (ip_bytes16 (em_local_ip m')) = 16" "length (ip_bytes16 (em_remote_ip m')) = 16"
    and "w = destroy_request (TcpDestroyer fd t)"
  shows "length w = 72 \<and> take 8 w = [72, 0, 0, 0, 21, 0, 5, 0]
       \<and> w ! 16 = (if ip_family (em_remote_ip m') = kV6 then 10 else 2) \<and> w ! 17 = 6
       \<and> take 2 (drop 24 w) = [byte_at 1 (em_local_port m'), byte_at 0 (em_local_port m')]
       \<and> take 2 (drop 26 w) = [byte_at 1 (em_remote_port m'), byte_at 0 (em_remote_port m')]
       \<and> take 16 (drop 28 w) = ip_bytes16 (em_local_ip m') \<and> take 16 (drop 44 w) = ip_bytes16 (em_remote_ip m')
       \<and> drop 64 w = replicate 8 255"
proof -
  have "BlockTcp t \<in> set (fst (enforcement m' v ctx))" using in_dispatched [OF assms(1)] assms(2) by simp
  then have t: "bt_is_ipv6 t = (ip_family (em_remote_ip m') = kV6)" "bt_local_addr t = ip_bytes16 (em_local_ip m')"
      "bt_remote_addr t = ip_bytes16 (em_remote_ip m')" "bt_local_port t = em_local_port m'" "bt_remote_port t = em_remote_port m'"
    by (auto simp: enforcement_def Let_def split: if_splits)
  show ?thesis using assms(3-5) unfolding destroy_request_layout [of t fd, unfolded t, OF assms(3,4)] by simp
qed

theorem destroy_request_exact_witness:
  "\<exists>t. drop 64 (destroy_request (TcpDestroyer 3 t)) = replicate 8 255
     \<and> take 16 (drop 44 (destroy_request (TcpDestroyer 3 t))) = le_bytes 4 (9 :: u32) @ replicate 12 0"
proof -
  let ?m = "EventMeta_init\<lparr>em_local_ip := setV4 8 IpAddress_init, em_remote_ip := setV4 9 IpAddress_init,
      em_local_port := 443, em_remote_port := 5000\<rparr>"
  let ?v = "\<lparr>severity = [], message_id = [], message = [], actionable = True\<rparr>"
  let ?ctx = "\<lparr>dc_action_loop = True, dc_blocklist_ttl = 300, dc_output_path = []\<rparr>"
  let ?dump = "\<lambda>j. if json_utf8 j then Some [] else None" and ?m' = "snd (ensurePeerResolved (\<lambda>m. (False, m)) ?m)"
  have m': "em_local_ip ?m' = setV4 8 IpAddress_init" "em_remote_ip ?m' = setV4 9 IpAddress_init"
      "em_local_port ?m' = 443" "em_remote_port ?m' = 5000"
    by (simp_all add: ensurePeerResolved_def EventMeta_init_def)
  have b: "ip_bytes16 (setV4 x IpAddress_init) = le_bytes 4 x @ replicate 12 0" for x by (simp add: setV4_def)
  have "\<exists>t. BlockTcp t \<in> set (fst (enforcement ?m' ?v ?ctx))" by (simp add: enforcement_def m' Let_def)
  then obtain t where t: "BlockTcp t \<in> set (dispatched (\<lambda>m. (False, m)) ?dump [] ?m ?v ?ctx)"
    using dispatched_reportable [of ?ctx ?dump "[]" ?v "\<lambda>m. (False, m)" ?m] by (fastforce simp: strict_dump_def reportable_def)
  show ?thesis using destroy_request_exact [OF t refl _ _ refl, of 3] by (auto simp: m' b)
qed

text \<open>C34: What a teardown reports, on every path.  It counts as destroyed iff the socket opened, the
  waits and calls succeeded, and the kernel answered with at least a header of type \<open>NLMSG_ERROR\<close>
  whose error field is zero.  At most one request is sent, and it is the connection's.  The action
  itself fails only by an exception, which a wait can raise: a refused or unanswered teardown is
  not a failure of the action.  The descriptor is closed exactly once on every path but the one
  where a wait raises, where it is closed twice.\<close>

theorem tcp_destroy_outcome:
  assumes "async_execute env (TcpDestroyer fd act) = (result, sent, closed)"
    and "BlockTcpAction_execute fd env act = (threw, sent', closes)"
  shows "(result = Destroyed \<longleftrightarrow> 0 \<le> fd \<and> te_assign env \<and> te_wait_write env \<and> 0 \<le> te_sent env \<and> te_wait_read env \<and>
            (\<exists>bs. te_reply env = Some bs \<and> 16 \<le> length bs \<and> (le_word (take 2 (drop 4 bs)) :: u16) = NLMSG_ERROR \<and>
               (le_word (take 4 (drop 16 (bs @ te_junk env))) :: u32) = 0))
       \<and> (sent = [] \<or> sent = [destroy_request (TcpDestroyer fd act)]) \<and> sent' = sent
       \<and> (threw \<longleftrightarrow> 0 \<le> fd \<and> (\<not> te_assign env \<or> \<not> te_wait_write env \<or> 0 \<le> te_sent env \<and> \<not> te_wait_read env))
       \<and> closes = (if fd < 0 then 0
                   else if te_assign env \<and> (\<not> te_wait_write env \<or> 0 \<le> te_sent env \<and> \<not> te_wait_read env) then 2 else 1)"
proof -
  have "result = Destroyed \<longleftrightarrow> 0 \<le> fd \<and> te_assign env \<and> te_wait_write env \<and> 0 \<le> te_sent env \<and> te_wait_read env \<and>
      (\<exists>bs. te_reply env = Some bs \<and> 16 \<le> length bs \<and> (le_word (take 2 (drop 4 bs)) :: u16) = NLMSG_ERROR \<and>
        (le_word (take 4 (drop 16 (bs @ te_junk env))) :: u32) = 0)"
    using async_execute_destroyed [of env "TcpDestroyer fd act"] assms(1) by (simp add: TcpDestroyer_def)
  moreover have "parse_reply n buf \<noteq> Threw" for n buf by (simp add: parse_reply_def Let_def)
  ultimately show ?thesis using assms
    by (auto simp: BlockTcpAction_execute_def async_execute_def TcpDestroyer_destroy_def Let_def TcpDestroyer_def
        split: option.splits if_splits)
qed

definition demo_teardown :: block_tcp_action where
  "demo_teardown = \<lparr>bt_is_ipv6 = False, bt_local_addr = replicate 16 0, bt_remote_addr = replicate 16 1,
     bt_local_port = 443, bt_remote_port = 5000, bt_reason = []\<rparr>"

definition demo_tcp_env :: "u8 list \<Rightarrow> tcp_env" where
  "demo_tcp_env reply = \<lparr>te_assign = True, te_wait_write = True, te_sent = 72, te_wait_read = True, te_reply = Some reply, te_junk = []\<rparr>"

theorem tcp_destroy_outcome_witness:
  "fst (async_execute (demo_tcp_env ([36, 0, 0, 0, 2, 0] @ replicate 30 0)) (TcpDestroyer 3 demo_teardown)) = Destroyed
   \<and> fst (BlockTcpAction_execute 3 (demo_tcp_env ([36, 0, 0, 0, 2, 0] @ replicate 30 1)) demo_teardown) = False"
proof -
  let ?ok = "demo_tcp_env ([36, 0, 0, 0, 2, 0] @ replicate 30 0)" and ?bad = "demo_tcp_env ([36, 0, 0, 0, 2, 0] @ replicate 30 1)"
  obtain r s c where a: "async_execute ?ok (TcpDestroyer 3 demo_teardown) = (r, s, c)" by (cases "async_execute ?ok (TcpDestroyer 3 demo_teardown)")
  obtain t s' c' where b: "BlockTcpAction_execute 3 ?ok demo_teardown = (t, s', c')" by (cases "BlockTcpAction_execute 3 ?ok demo_teardown")
  obtain r2 s2 c2 where a2: "async_execute ?bad (TcpDestroyer 3 demo_teardown) = (r2, s2, c2)" by (cases "async_execute ?bad (TcpDestroyer 3 demo_teardown)")
  obtain t2 s3 c3 where b2: "BlockTcpAction_execute 3 ?bad demo_teardown = (t2, s3, c3)" by (cases "BlockTcpAction_execute 3 ?bad demo_teardown")
  have "(le_word [2, 0] :: u16) = 2" "(le_word (replicate 4 0) :: u32) = 0" by code_simp+
  then have "r = Destroyed" using tcp_destroy_outcome [OF a b] by (simp add: demo_tcp_env_def NLMSG_ERROR_def numeral_eq_Suc)
  moreover have "\<not> t2" using tcp_destroy_outcome [OF a2 b2] by (simp add: demo_tcp_env_def)
  ultimately show ?thesis using a b2 by simp
qed

end
