(* ===== verification/Log_Action.thy ===== *)
theory Log_Action
  imports Dispatch
begin

text \<open>
  \<open>actions/log/LogAction.cpp\<close> and \<open>async_mutex.hpp\<close>: appending event lines to log files under a
  coroutine mutex per file.  A task is one running \<open>LogAction\<close>.  The state holds the manager's two
  tables (which files are locked, with the handlers waiting in arrival order, and which streams are
  open), the contents of the files, and where each task is.  A step is what one task does between
  two suspensions; the scheduler may pick any enabled one.  \<open>async_write\<close> writes in chunks of
  its own choice.  \<open>ls_begun\<close> and \<open>ls_done\<close> only record the order of arrival and of completion per file.
\<close>

datatype log_phase =
    Waiting
  | Holding
  | Writing string string  \<comment> \<open>written so far, and what remains of the payload\<close>
  | Finished string
  | Stranded  \<comment> \<open>an exception left it after \<open>lock\<close> and before the handle: the lock stays set\<close>

record log_state =
  ls_file_states :: "string \<rightharpoonup> nat list"  \<comment> \<open>present is \<open>locked\<close>; the waiters\<close>
  ls_stream_cache :: "string set"
  ls_file :: "string \<Rightarrow> string"
  ls_task :: "nat \<rightharpoonup> log_action \<times> log_phase"
  ls_begun :: "string \<Rightarrow> nat list"
  ls_done :: "string \<Rightarrow> nat list"

definition log_init :: log_state where
  "log_init = \<lparr>ls_file_states = Map.empty, ls_stream_cache = {}, ls_file = (\<lambda>_. []), ls_task = Map.empty,
     ls_begun = (\<lambda>_. []), ls_done = (\<lambda>_. [])\<rparr>"

definition set_phase :: "nat \<Rightarrow> log_phase \<Rightarrow> log_state \<Rightarrow> log_state" where
  "set_phase t ph s =
     (case ls_task s t of None \<Rightarrow> s | Some (a, _) \<Rightarrow> s\<lparr>ls_task := (ls_task s)(t \<mapsto> (a, ph))\<rparr>)"

section \<open>The manager\<close>

definition lock :: "string \<Rightarrow> nat \<Rightarrow> log_state \<Rightarrow> log_state" where
  "lock filename t s =
     (case ls_file_states s filename of
        None \<Rightarrow> set_phase t Holding (s\<lparr>ls_file_states := (ls_file_states s)(filename \<mapsto> [])\<rparr>)
      | Some waiters \<Rightarrow> set_phase t Waiting (s\<lparr>ls_file_states := (ls_file_states s)(filename \<mapsto> waiters @ [t])\<rparr>))"

definition unlock :: "string \<Rightarrow> log_state \<Rightarrow> log_state" where
  "unlock filename s =
     (case ls_file_states s filename of
        None \<Rightarrow> s
      | Some (resume_next # waiters) \<Rightarrow>
          set_phase resume_next Holding (s\<lparr>ls_file_states := (ls_file_states s)(filename \<mapsto> waiters)\<rparr>)
      | Some [] \<Rightarrow> s\<lparr>ls_file_states := (ls_file_states s)(filename := None)\<rparr>)"

definition log_payload :: "log_action \<Rightarrow> string" where
  "log_payload a = la_message a @ [CHR 0x0A]"

text \<open>A task ends: its locked stream goes out of scope.\<close>

definition log_finish :: "nat \<Rightarrow> log_action \<Rightarrow> string \<Rightarrow> log_state \<Rightarrow> log_state" where
  "log_finish t a wrote s =
     unlock (la_path a) ((set_phase t (Finished wrote) s)\<lparr>ls_done := (ls_done s)(la_path a := ls_done s (la_path a) @ [t])\<rparr>)"

text \<open>The rest of \<open>acquire_stream\<close> once the lock is held, and how it goes: \<open>open\<close> fails; the constructor of
  \<open>stream_descriptor\<close> (registering the descriptor with the reactor) or \<open>emplace\<close> into the cache throws; naming the file
  in the new handle throws.  No handle exists yet in the last two, so nothing hands the lock back.  An allocation that
  fails in \<open>lock\<close> leaves the tables alone, or, after \<open>locked\<close> was set, ends as these two do.\<close>

datatype stream_outcome = Opened | Open_failed | Stream_threw | Handle_threw

definition acquire_stream :: "stream_outcome \<Rightarrow> nat \<Rightarrow> log_action \<Rightarrow> log_state \<Rightarrow> log_state" where
  "acquire_stream outcome t a s =
     (if la_path a \<in> ls_stream_cache s
      then set_phase t (if outcome = Handle_threw then Stranded else Writing [] (log_payload a)) s
      else case outcome of
        Open_failed \<Rightarrow> log_finish t a [] s
      | Stream_threw \<Rightarrow> set_phase t Stranded s
      | Handle_threw \<Rightarrow> set_phase t Stranded (s\<lparr>ls_stream_cache := insert (la_path a) (ls_stream_cache s)\<rparr>)
      | Opened \<Rightarrow> set_phase t (Writing [] (log_payload a)) (s\<lparr>ls_stream_cache := insert (la_path a) (ls_stream_cache s)\<rparr>))"

text \<open>\<open>std::filesystem::path::parent_path\<close>: up to the last separator, without trailing ones.\<close>

definition parent_path :: "string \<Rightarrow> string" where
  "parent_path p =
     (let q = rev (dropWhile (\<lambda>c. c \<noteq> CHR ''/'') (rev p));
          r = rev (dropWhile (\<lambda>c. c = CHR ''/'') (rev q))
      in if r = [] \<and> q \<noteq> [] then ''/'' else r)"

text \<open>\<open>create_directories dir\<close> is whether the library call reports no error.\<close>

definition ensure_log_directory :: "(string \<Rightarrow> bool) \<Rightarrow> string \<Rightarrow> bool" where
  "ensure_log_directory create_directories path =
     (if path = [] then False
      else let dir = parent_path path in if dir = [] then True else create_directories dir)"

section \<open>Steps\<close>

text \<open>A task that leaves by an exception once it has its handle (building the payload, setting up the write) is
  \<open>End_write\<close> with an error: the handle's destructor runs either way.\<close>

datatype log_label =
    Begin_log nat log_action
  | Open_log nat stream_outcome
  | Write_chunk nat nat
  | End_write nat bool

fun log_exec :: "log_label \<Rightarrow> log_state \<Rightarrow> log_state option" where
  "log_exec (Begin_log t a) s =
     (case ls_task s t of
        Some _ \<Rightarrow> None
      | None \<Rightarrow> Some (lock (la_path a) t (s\<lparr>ls_task := (ls_task s)(t \<mapsto> (a, Waiting)),
                   ls_begun := (ls_begun s)(la_path a := ls_begun s (la_path a) @ [t])\<rparr>)))"
| "log_exec (Open_log t outcome) s =
     (case ls_task s t of Some (a, Holding) \<Rightarrow> Some (acquire_stream outcome t a s) | _ \<Rightarrow> None)"
| "log_exec (Write_chunk t n) s =
     (case ls_task s t of
        Some (a, Writing w r) \<Rightarrow>
          if n = 0 \<or> length r < n then None
          else Some ((set_phase t (Writing (w @ take n r) (drop n r)) s)
                 \<lparr>ls_file := (ls_file s)(la_path a := ls_file s (la_path a) @ take n r)\<rparr>)
      | _ \<Rightarrow> None)"
| "log_exec (End_write t error) s =
     (case ls_task s t of
        Some (a, Writing w r) \<Rightarrow> if r = [] \<or> error then Some (log_finish t a w s) else None
      | _ \<Rightarrow> None)"

text \<open>A step in which nothing failed.\<close>

fun log_fine :: "log_label \<Rightarrow> bool" where
  "log_fine (Begin_log t a) = True" | "log_fine (Open_log t outcome) = (outcome = Opened)" | "log_fine (Write_chunk t n) = True"
| "log_fine (End_write t error) = (\<not> error)"

text \<open>Reachable states; with \<open>fine\<close>, without failures.\<close>

inductive log_reach :: "bool \<Rightarrow> log_state \<Rightarrow> bool" for fine where
  init: "log_reach fine log_init"
| step: "log_reach fine s \<Longrightarrow> log_exec l s = Some s' \<Longrightarrow> (fine \<Longrightarrow> log_fine l) \<Longrightarrow> log_reach fine s'"

section \<open>The invariant\<close>

definition wrote :: "log_state \<Rightarrow> nat \<Rightarrow> string" where
  "wrote s t = (case ls_task s t of Some (a, Writing w r) \<Rightarrow> w | Some (a, Finished w) \<Rightarrow> w | _ \<Rightarrow> [])"

fun holds_lock :: "log_phase \<Rightarrow> bool" where
  "holds_lock Waiting \<longleftrightarrow> False" | "holds_lock Holding \<longleftrightarrow> True" | "holds_lock (Writing w r) \<longleftrightarrow> True"
| "holds_lock (Finished w) \<longleftrightarrow> False" | "holds_lock Stranded \<longleftrightarrow> True"

fun phase_ok :: "log_action \<Rightarrow> log_phase \<Rightarrow> bool" where
  "phase_ok a (Writing w r) \<longleftrightarrow> w @ r = log_payload a"
| "phase_ok a (Finished w) \<longleftrightarrow> prefix w (log_payload a)"
| "phase_ok a _ \<longleftrightarrow> True"

definition in_phase :: "log_state \<Rightarrow> nat \<Rightarrow> (log_phase \<Rightarrow> bool) \<Rightarrow> bool" where
  "in_phase s t P \<longleftrightarrow> (\<exists>a ph. ls_task s t = Some (a, ph) \<and> P ph)"

text \<open>Completed tasks, then the holder, then the waiters, in order of arrival.\<close>

definition queue_ok :: "log_state \<Rightarrow> string \<Rightarrow> bool" where
  "queue_ok s p \<longleftrightarrow>
     (\<forall>t \<in> set (ls_done s p). in_phase s t (\<lambda>ph. \<exists>w. ph = Finished w))
     \<and> (case ls_file_states s p of
          None \<Rightarrow> ls_begun s p = ls_done s p
        | Some ws \<Rightarrow> (\<exists>h. ls_begun s p = ls_done s p @ h # ws \<and> in_phase s h holds_lock \<and> (\<forall>t \<in> set ws. in_phase s t (\<lambda>ph. ph = Waiting))))"

definition tasks_ok :: "log_state \<Rightarrow> string \<Rightarrow> bool" where
  "tasks_ok s p \<longleftrightarrow>
     distinct (ls_begun s p) \<and> (\<forall>t. t \<in> set (ls_begun s p) \<longleftrightarrow> (\<exists>a ph. ls_task s t = Some (a, ph) \<and> la_path a = p))"

definition path_ok :: "log_state \<Rightarrow> string \<Rightarrow> bool" where
  "path_ok s p \<longleftrightarrow> tasks_ok s p \<and> queue_ok s p \<and> ls_file s p = concat (map (wrote s) (ls_begun s p))"

definition log_inv :: "log_state \<Rightarrow> bool" where
  "log_inv s \<longleftrightarrow> (\<forall>p. path_ok s p) \<and> (\<forall>t a ph. ls_task s t = Some (a, ph) \<longrightarrow> phase_ok a ph)"

lemma parent_path_bare: "parent_path p = [] \<longleftrightarrow> CHR ''/'' \<notin> set p"
proof -
  let ?q = "dropWhile (\<lambda>c. c \<noteq> CHR ''/'') (rev p)"
  have gen: "((if r = [] \<and> q \<noteq> [] then ''/'' else r) = []) = (q = [])" if "q = [] \<longrightarrow> r = []" for q r :: string
    using that by (cases q; cases r) simp_all
  have "parent_path p = [] \<longleftrightarrow> rev ?q = []" unfolding parent_path_def Let_def by (rule gen) (metis rev.simps(1) dropWhile.simps(1))
  also have "\<dots> \<longleftrightarrow> (\<forall>c \<in> set p. c \<noteq> CHR ''/'')" by (simp add: dropWhile_eq_Nil_conv)
  finally show ?thesis by blast
qed

lemma parent_path_file:
  assumes "CHR ''/'' \<notin> set f" "d \<noteq> []" "last d \<noteq> CHR ''/''"
  shows "parent_path (d @ CHR ''/'' # f) = d"
proof -
  have q: "dropWhile (\<lambda>c. c \<noteq> CHR ''/'') (rev (d @ CHR ''/'' # f)) = CHR ''/'' # rev d"
    using dropWhile_append2 [of "rev f" "\<lambda>c. c \<noteq> CHR ''/''" "CHR ''/'' # rev d"] assms(1) by auto
  have r: "dropWhile (\<lambda>c. c = CHR ''/'') (rev (rev (CHR ''/'' # rev d))) = rev d"
    using assms(2,3) by (cases d rule: rev_cases) auto
  show ?thesis unfolding parent_path_def Let_def q r using assms(2) by simp
qed

text \<open>A log file in a directory is accepted exactly when its directory can be made; a bare file name needs none.\<close>

lemma ensure_log_directory_iff:
  "ensure_log_directory mk p \<longleftrightarrow> p \<noteq> [] \<and> (CHR ''/'' \<in> set p \<longrightarrow> mk (parent_path p))"
  by (auto simp: ensure_log_directory_def Let_def parent_path_bare)

lemma writing_prefix: "phase_ok a (Writing w r) \<Longrightarrow> prefix w (log_payload a)"
  by (metis phase_ok.simps(1) prefixI)

lemma set_phase_known: "ls_task s t = Some (a, ph0) \<Longrightarrow> set_phase t ph s = s\<lparr>ls_task := (ls_task s)(t \<mapsto> (a, ph))\<rparr>"
  by (simp add: set_phase_def)

text \<open>A path none of whose tasks changed keeps the invariant.\<close>

lemma queue_okE:
  assumes "queue_ok s p"
  obtains (Free) "ls_file_states s p = None" "ls_begun s p = ls_done s p"
    | (Held) h ws where "ls_file_states s p = Some ws" "ls_begun s p = ls_done s p @ h # ws" "in_phase s h holds_lock"
      "\<And>t. t \<in> set ws \<Longrightarrow> in_phase s t (\<lambda>ph. ph = Waiting)"
  using assms by (cases "ls_file_states s p") (auto simp: queue_ok_def)

lemma queue_okI:
  "(\<And>t. t \<in> set (ls_done s p) \<Longrightarrow> in_phase s t (\<lambda>ph. \<exists>w. ph = Finished w)) \<Longrightarrow> ls_file_states s p = None \<Longrightarrow>
     ls_begun s p = ls_done s p \<Longrightarrow> queue_ok s p"
  "(\<And>t. t \<in> set (ls_done s p) \<Longrightarrow> in_phase s t (\<lambda>ph. \<exists>w. ph = Finished w)) \<Longrightarrow> ls_file_states s p = Some ws \<Longrightarrow>
     ls_begun s p = ls_done s p @ h # ws \<Longrightarrow> in_phase s h holds_lock \<Longrightarrow> (\<And>t. t \<in> set ws \<Longrightarrow> in_phase s t (\<lambda>ph. ph = Waiting))
     \<Longrightarrow> queue_ok s p"
  by (auto simp: queue_ok_def)

lemma queue_ok_done: "queue_ok s p \<Longrightarrow> t \<in> set (ls_done s p) \<Longrightarrow> in_phase s t (\<lambda>ph. \<exists>w. ph = Finished w)"
  by (simp add: queue_ok_def)

lemma queue_ok_done_begun: "queue_ok s p \<Longrightarrow> set (ls_done s p) \<subseteq> set (ls_begun s p)"
  by (erule queue_okE) auto

lemma path_ok_frame:
  assumes "path_ok s p" "ls_begun s' p = ls_begun s p" "ls_done s' p = ls_done s p" "ls_file_states s' p = ls_file_states s p"
    and "ls_file s' p = ls_file s p" "\<And>t. t \<in> set (ls_begun s p) \<Longrightarrow> ls_task s' t = ls_task s t"
    and "\<And>t a ph. t \<notin> set (ls_begun s p) \<Longrightarrow> ls_task s' t = Some (a, ph) \<Longrightarrow> la_path a \<noteq> p"
  shows "path_ok s' p"
proof -
  have q: "queue_ok s p" and t: "tasks_ok s p" using assms(1) by (simp_all add: path_ok_def)
  have w: "concat (map (wrote s') (ls_begun s p)) = concat (map (wrote s) (ls_begun s p))"
    by (rule arg_cong [of _ _ concat]) (use assms(6) in \<open>simp add: wrote_def\<close>)
  have i: "t \<in> set (ls_begun s p) \<Longrightarrow> in_phase s t P \<Longrightarrow> in_phase s' t P" for t P using assms(6) by (simp add: in_phase_def)
  have "tasks_ok s' p" using t assms(2,6,7) unfolding tasks_ok_def by metis
  moreover have "queue_ok s' p" using q
  proof (cases rule: queue_okE)
    case Free
    show ?thesis by (rule queue_okI(1)) (use q i Free queue_ok_done queue_ok_done_begun [OF q] assms(2-4) in auto)
  next
    case (Held h ws)
    show ?thesis
      by (rule queue_okI(2) [of _ _ ws h]) (use q i Held queue_ok_done queue_ok_done_begun [OF q] assms(2-4) in auto)
  qed
  ultimately show ?thesis using assms(1,2,5) w by (simp add: path_ok_def)
qed

text \<open>A task that holds the lock of its path is the one after the completed ones.\<close>

lemma holder_unique:
  assumes "path_ok s (la_path a)" "ls_task s t = Some (a, ph)" "holds_lock ph"
  obtains ws where "ls_file_states s (la_path a) = Some ws" "ls_begun s (la_path a) = ls_done s (la_path a) @ t # ws"
    "\<And>t. t \<in> set ws \<Longrightarrow> in_phase s t (\<lambda>ph. ph = Waiting)"
proof -
  have q: "queue_ok s (la_path a)" using assms(1) by (simp add: path_ok_def)
  have mem: "t \<in> set (ls_begun s (la_path a))" using assms(1,2) by (auto simp: path_ok_def tasks_ok_def)
  have nd: "t \<notin> set (ls_done s (la_path a))" using queue_ok_done [OF q, of t] assms(2,3) by (auto simp: in_phase_def)
  from q show ?thesis
  proof (cases rule: queue_okE)
    case Free
    then show ?thesis using mem nd by simp
  next
    case (Held h ws)
    have "t \<notin> set ws" using Held(4) [of t] assms(2,3) by (auto simp: in_phase_def)
    then have "t = h" using mem nd Held(2) by auto
    then show ?thesis using Held that by blast
  qed
qed

text \<open>The other paths: a step on one task leaves the tasks of every other path as they were.\<close>

lemma tasks_ok_path: "tasks_ok s p \<Longrightarrow> ls_task s t = Some (a, ph) \<Longrightarrow> t \<in> set (ls_begun s p) \<longleftrightarrow> la_path a = p"
  by (auto simp: tasks_ok_def)

lemma wrote_simps:
  "ls_task s t = Some (a, Waiting) \<Longrightarrow> wrote s t = []" "ls_task s t = Some (a, Holding) \<Longrightarrow> wrote s t = []"
  "ls_task s t = Some (a, Writing w r) \<Longrightarrow> wrote s t = w" "ls_task s t = Some (a, Finished w) \<Longrightarrow> wrote s t = w"
  "ls_task s t = Some (a, Stranded) \<Longrightarrow> wrote s t = []"
  by (simp_all add: wrote_def)

lemma concat_wrote_cong:
  "(\<And>t. t \<in> set ts \<Longrightarrow> wrote s' t = wrote s t) \<Longrightarrow> concat (map (wrote s') ts) = concat (map (wrote s) ts)"
  by (induction ts) auto

lemma waiters_wrote_nothing:
  "(\<And>t. t \<in> set ws \<Longrightarrow> in_phase s t (\<lambda>ph. ph = Waiting)) \<Longrightarrow> concat (map (wrote s) ws) = []"
proof (induction ws)
  case (Cons t ws)
  obtain a where "ls_task s t = Some (a, Waiting)" using Cons.prems [of t] by (auto simp: in_phase_def)
  then show ?case using Cons by (simp add: wrote_simps)
qed simp

text \<open>A task of a path moves between phases in which it holds the lock, appending \<open>extra\<close> to the file.\<close>

lemma path_ok_advance:
  assumes "path_ok s (la_path a)" "ls_task s t = Some (a, ph)" "holds_lock ph" "holds_lock ph'"
    and "ls_task s' = (ls_task s)(t \<mapsto> (a, ph'))" "ls_begun s' = ls_begun s" "ls_done s' = ls_done s"
    and "ls_file_states s' = ls_file_states s" "ls_file s' (la_path a) = ls_file s (la_path a) @ extra"
    and "wrote s' t = wrote s t @ extra"
  shows "path_ok s' (la_path a)"
proof -
  let ?p = "la_path a"
  obtain ws where h: "ls_file_states s ?p = Some ws" "ls_begun s ?p = ls_done s ?p @ t # ws"
      "\<And>t. t \<in> set ws \<Longrightarrow> in_phase s t (\<lambda>ph. ph = Waiting)"
    using holder_unique [OF assms(1-3)] by metis
  have q: "queue_ok s ?p" and ts: "tasks_ok s ?p" using assms(1) by (simp_all add: path_ok_def)
  have dis: "t \<notin> set (ls_done s ?p)" "t \<notin> set ws" using ts h(2) by (auto simp: tasks_ok_def)
  have same: "u \<noteq> t \<Longrightarrow> ls_task s' u = ls_task s u" for u using assms(5) by simp
  have w': "in_phase s' u (\<lambda>ph. ph = Waiting)" if "u \<in> set ws" for u
  proof -
    have "u \<noteq> t" using that dis by auto
    then show ?thesis using h(3) [OF that] same [of u] by (simp add: in_phase_def)
  qed
  have "tasks_ok s' ?p" using ts assms(2,5,6) by (auto simp: tasks_ok_def)
  moreover have "queue_ok s' ?p"
  proof (rule queue_okI(2) [of _ _ ws t])
    show "in_phase s' u (\<lambda>ph. \<exists>w. ph = Finished w)" if "u \<in> set (ls_done s' ?p)" for u
    proof -
      have "u \<in> set (ls_done s ?p)" "u \<noteq> t" using that assms(7) dis by auto
      then show ?thesis using queue_ok_done [OF q, of u] same [of u] by (simp add: in_phase_def)
    qed
    show "in_phase s' u (\<lambda>ph. ph = Waiting)" if "u \<in> set ws" for u by (rule w' [OF that])
  qed (use h assms(4-8) in \<open>simp_all add: in_phase_def\<close>)
  moreover have "concat (map (wrote s') (ls_done s ?p)) = concat (map (wrote s) (ls_done s ?p))"
  proof (rule concat_wrote_cong)
    fix u assume "u \<in> set (ls_done s ?p)"
    then have "u \<noteq> t" using dis by auto
    then show "wrote s' u = wrote s u" using same [of u] by (simp add: wrote_def)
  qed
  moreover have "concat (map (wrote s') ws) = []" "concat (map (wrote s) ws) = []"
    using waiters_wrote_nothing [of ws s', OF w'] waiters_wrote_nothing [of ws s, OF h(3)] by blast+
  ultimately show ?thesis using assms(1,6,9,10) h(2) by (simp add: path_ok_def del: concat_eq_Nil_conv)
qed

text \<open>The holder ends and the lock passes to the first waiter, or is released.\<close>

lemma path_ok_finish:
  assumes "path_ok s (la_path a)" "ls_task s t = Some (a, ph)" "holds_lock ph" "wrote s t = w"
  shows "path_ok (log_finish t a w s) (la_path a)"
proof -
  let ?p = "la_path a" and ?s' = "log_finish t a w s"
  obtain ws where h: "ls_file_states s ?p = Some ws" "ls_begun s ?p = ls_done s ?p @ t # ws"
      "\<And>t. t \<in> set ws \<Longrightarrow> in_phase s t (\<lambda>ph. ph = Waiting)"
    using holder_unique [OF assms(1-3)] by metis
  have q: "queue_ok s ?p" and ts: "tasks_ok s ?p" and f: "ls_file s ?p = concat (map (wrote s) (ls_begun s ?p))"
    using assms(1) by (simp_all add: path_ok_def)
  have dis: "t \<notin> set (ls_done s ?p)" "t \<notin> set ws" "distinct ws" "set ws \<inter> set (ls_done s ?p) = {}"
    using ts h(2) by (auto simp: tasks_ok_def)
  show ?thesis
  proof (cases ws)
    case Nil
    have s': "?s' = s\<lparr>ls_task := (ls_task s)(t \<mapsto> (a, Finished w)), ls_done := (ls_done s)(?p := ls_done s ?p @ [t]),
        ls_file_states := (ls_file_states s)(?p := None)\<rparr>"
      using assms(2) h(1) Nil by (simp add: log_finish_def unlock_def set_phase_known)
    have "tasks_ok ?s' ?p" using ts assms(2) by (auto simp: s' tasks_ok_def)
    moreover have "queue_ok ?s' ?p"
      by (rule queue_okI(1)) (use queue_ok_done [OF q] h(2) Nil in \<open>auto simp: s' in_phase_def\<close>)
    moreover have "concat (map (wrote ?s') (ls_begun s ?p)) = concat (map (wrote s) (ls_begun s ?p))"
      by (rule concat_wrote_cong) (use assms(4) in \<open>simp add: s' wrote_def\<close>)
    ultimately show ?thesis using f by (simp add: path_ok_def s')
  next
    case (Cons r rs)
    obtain b where b: "ls_task s r = Some (b, Waiting)" using h(3) [of r] Cons by (auto simp: in_phase_def)
    have rt: "r \<noteq> t" using dis Cons by auto
    have s': "?s' = s\<lparr>ls_task := (ls_task s)(t \<mapsto> (a, Finished w), r \<mapsto> (b, Holding)),
        ls_done := (ls_done s)(?p := ls_done s ?p @ [t]), ls_file_states := (ls_file_states s)(?p \<mapsto> rs)\<rparr>"
      using assms(2) h(1) Cons b rt by (simp add: log_finish_def unlock_def set_phase_def)
    have "tasks_ok ?s' ?p" using ts assms(2) b rt by (auto simp: s' tasks_ok_def)
    moreover have "queue_ok ?s' ?p"
    proof (rule queue_okI(2) [of _ _ rs r])
      show "in_phase ?s' u (\<lambda>ph. \<exists>w. ph = Finished w)" if "u \<in> set (ls_done ?s' ?p)" for u
        using that queue_ok_done [OF q, of u] rt dis Cons by (auto simp: s' in_phase_def)
      show "in_phase ?s' u (\<lambda>ph. ph = Waiting)" if "u \<in> set rs" for u
        using that h(3) [of u] dis Cons by (auto simp: s' in_phase_def)
    qed (use h(2) Cons in \<open>simp_all add: s' in_phase_def\<close>)
    moreover have "concat (map (wrote ?s') (ls_begun s ?p)) = concat (map (wrote s) (ls_begun s ?p))"
      by (rule concat_wrote_cong) (use assms(4) b in \<open>simp add: s' wrote_def\<close>)
    ultimately show ?thesis using f by (simp add: path_ok_def s')
  qed
qed

text \<open>A new task joins the queue of its path.\<close>

lemma path_ok_begin:
  assumes "path_ok s (la_path a)" "ls_task s t = None" "log_exec (Begin_log t a) s = Some s'"
  shows "path_ok s' (la_path a)"
proof -
  let ?p = "la_path a"
  have q: "queue_ok s ?p" and ts: "tasks_ok s ?p" and f: "ls_file s ?p = concat (map (wrote s) (ls_begun s ?p))"
    using assms(1) by (simp_all add: path_ok_def)
  have new: "t \<notin> set (ls_begun s ?p)" using ts assms(2) by (auto simp: tasks_ok_def)
  have new2: "t \<notin> set (ls_done s ?p)" using new queue_ok_done_begun [OF q] by auto
  from q show ?thesis
  proof (cases rule: queue_okE)
    case Free
    have s': "s' = s\<lparr>ls_task := (ls_task s)(t \<mapsto> (a, Holding)), ls_begun := (ls_begun s)(?p := ls_begun s ?p @ [t]),
        ls_file_states := (ls_file_states s)(?p \<mapsto> [])\<rparr>"
      using assms(2,3) Free by (auto simp: lock_def set_phase_def)
    have "tasks_ok s' ?p" using ts new by (auto simp: s' tasks_ok_def)
    moreover have "queue_ok s' ?p"
      by (rule queue_okI(2) [of _ _ "[]" t]) (use queue_ok_done [OF q] Free new2 in \<open>auto simp: s' in_phase_def\<close>)
    moreover have "concat (map (wrote s') (ls_begun s ?p)) = concat (map (wrote s) (ls_begun s ?p))"
      by (rule concat_wrote_cong) (use new in \<open>auto simp: s' wrote_def\<close>)
    moreover have "wrote s' t = []" by (simp add: s' wrote_def)
    ultimately show ?thesis using f by (simp add: path_ok_def s')
  next
    case (Held h ws)
    have s': "s' = s\<lparr>ls_task := (ls_task s)(t \<mapsto> (a, Waiting)), ls_begun := (ls_begun s)(?p := ls_begun s ?p @ [t]),
        ls_file_states := (ls_file_states s)(?p \<mapsto> ws @ [t])\<rparr>"
      using assms(2,3) Held by (auto simp: lock_def set_phase_def)
    have th: "t \<noteq> h" using new Held(2) by auto
    have "tasks_ok s' ?p" using ts new by (auto simp: s' tasks_ok_def)
    moreover have "queue_ok s' ?p"
    proof (rule queue_okI(2) [of _ _ "ws @ [t]" h])
      show "in_phase s' u (\<lambda>ph. ph = Waiting)" if "u \<in> set (ws @ [t])" for u
        using that Held(4) [of u] by (auto simp: s' in_phase_def)
    qed (use queue_ok_done [OF q] Held th new2 in \<open>auto simp: s' in_phase_def\<close>)
    moreover have "concat (map (wrote s') (ls_begun s ?p)) = concat (map (wrote s) (ls_begun s ?p))"
      by (rule concat_wrote_cong) (use new in \<open>auto simp: s' wrote_def\<close>)
    moreover have "wrote s' t = []" by (simp add: s' wrote_def)
    ultimately show ?thesis using f by (simp add: path_ok_def s')
  qed
qed

lemma finish_others:
  assumes "path_ok s (la_path a)" "path_ok s p" "ls_task s t = Some (a, ph)" "holds_lock ph" "p \<noteq> la_path a"
  shows "path_ok (log_finish t a w s) p"
proof (rule path_ok_frame [OF assms(2)])
  obtain ws where ws: "ls_file_states s (la_path a) = Some ws" "ls_begun s (la_path a) = ls_done s (la_path a) @ t # ws"
    using holder_unique [OF assms(1,3,4)] by metis
  have ts: "tasks_ok s (la_path a)" "tasks_ok s p" using assms(1,2) by (simp_all add: path_ok_def)
  have task: "ls_task (log_finish t a w s) u = (if u = t then Some (a, Finished w)
      else if ws \<noteq> [] \<and> u = hd ws then map_option (\<lambda>(b, _). (b, Holding)) (ls_task s u) else ls_task s u)" for u
    using assms(3) ws(1) ws(2) ts(1)
    by (cases ws) (auto simp: log_finish_def unlock_def set_phase_def tasks_ok_def split: option.split)
  have hd: "ws \<noteq> [] \<Longrightarrow> hd ws \<in> set (ls_begun s (la_path a))" using ws(2) by simp
  show "ls_begun (log_finish t a w s) p = ls_begun s p" "ls_done (log_finish t a w s) p = ls_done s p"
    "ls_file_states (log_finish t a w s) p = ls_file_states s p" "ls_file (log_finish t a w s) p = ls_file s p"
    using assms(3,5) ws(1) by (cases ws; simp add: log_finish_def unlock_def set_phase_def split: option.split)+
  show "ls_task (log_finish t a w s) u = ls_task s u" if u: "u \<in> set (ls_begun s p)" for u
  proof -
    have "u \<noteq> t" using u ts assms(3,5) by (auto simp: tasks_ok_def)
    moreover have "ws \<noteq> [] \<Longrightarrow> u \<noteq> hd ws" using u hd ts assms(5) unfolding tasks_ok_def by (metis option.inject prod.inject)
    ultimately show ?thesis using task [of u] by auto
  qed
  show "la_path b \<noteq> p" if "u \<notin> set (ls_begun s p)" "ls_task (log_finish t a w s) u = Some (b, ph')" for u b ph'
    using that ts assms(3,5) task [of u] by (auto simp: tasks_ok_def split: if_splits)
qed

lemma task_update_others:
  assumes "path_ok s p" "p \<noteq> la_path a" "ls_task s t = None \<or> (\<exists>ph0. ls_task s t = Some (a, ph0))"
    and "ls_task s' = (ls_task s)(t \<mapsto> (a, ph))" "ls_begun s' p = ls_begun s p" "ls_done s' p = ls_done s p"
    and "ls_file_states s' p = ls_file_states s p" "ls_file s' p = ls_file s p"
  shows "path_ok s' p"
proof (rule path_ok_frame [OF assms(1) assms(5-8)])
  have ts: "tasks_ok s p" using assms(1) by (simp add: path_ok_def)
  show "ls_task s' u = ls_task s u" if "u \<in> set (ls_begun s p)" for u
    using that ts assms(2-4) by (auto simp: tasks_ok_def)
  show "la_path b \<noteq> p" if "u \<notin> set (ls_begun s p)" "ls_task s' u = Some (b, ph')" for u b ph'
    using that ts assms(2-4) by (auto simp: tasks_ok_def split: if_splits)
qed

lemma log_exec_begin:
  assumes "log_exec (Begin_log t a) s = Some s'"
  shows "ls_task s t = None"
    and "\<exists>ph. ls_task s' = (ls_task s)(t \<mapsto> (a, ph)) \<and> phase_ok a ph \<and> ls_file s' = ls_file s \<and> ls_done s' = ls_done s
      \<and> (\<forall>p. p \<noteq> la_path a \<longrightarrow> ls_begun s' p = ls_begun s p \<and> ls_file_states s' p = ls_file_states s p)"
  using assms by (auto simp: lock_def set_phase_def split: option.splits)

lemma log_inv_begin:
  assumes "log_inv s" "log_exec (Begin_log t a) s = Some s'"
  shows "log_inv s'"
proof -
  obtain ph where ph: "ls_task s' = (ls_task s)(t \<mapsto> (a, ph))" "phase_ok a ph" "ls_file s' = ls_file s" "ls_done s' = ls_done s"
      "\<And>p. p \<noteq> la_path a \<Longrightarrow> ls_begun s' p = ls_begun s p \<and> ls_file_states s' p = ls_file_states s p"
    using log_exec_begin(2) [OF assms(2)] by blast
  have "path_ok s' p" for p
  proof (cases "p = la_path a")
    case True
    then show ?thesis using path_ok_begin [OF _ log_exec_begin(1) [OF assms(2)] assms(2)] assms(1) by (simp add: log_inv_def)
  next
    case False
    show ?thesis
      by (rule task_update_others [OF _ False _ ph(1)]) (use assms(1) log_exec_begin(1) [OF assms(2)] ph(3-5) False in \<open>auto simp: log_inv_def\<close>)
  qed
  moreover have "phase_ok b ph'" if "ls_task s' u = Some (b, ph')" for u b ph'
    using that ph(1,2) assms(1) by (auto simp: log_inv_def split: if_splits)
  ultimately show ?thesis by (simp add: log_inv_def)
qed

lemma log_inv_finish:
  assumes "log_inv s" "ls_task s t = Some (a, ph)" "holds_lock ph" "wrote s t = w" "prefix w (log_payload a)"
  shows "log_inv (log_finish t a w s)"
proof -
  have ok: "path_ok s p" for p using assms(1) by (simp add: log_inv_def)
  have "path_ok (log_finish t a w s) p" for p
    using path_ok_finish [OF ok assms(2-4)] finish_others [OF ok ok assms(2,3), of p w] by (cases "p = la_path a") auto
  moreover have "phase_ok b ph'" if "ls_task (log_finish t a w s) u = Some (b, ph')" for u b ph'
    using that assms(1,5) assms(2)
    by (auto simp: log_inv_def log_finish_def unlock_def set_phase_def split: option.splits list.splits if_splits)
  ultimately show ?thesis by (simp add: log_inv_def)
qed

lemma log_inv_advance:
  assumes "log_inv s" "ls_task s t = Some (a, ph)" "holds_lock ph" "holds_lock ph'" "phase_ok a ph'"
    and "ls_task s' = (ls_task s)(t \<mapsto> (a, ph'))" "ls_begun s' = ls_begun s" "ls_done s' = ls_done s"
    and "ls_file_states s' = ls_file_states s" "ls_file s' = (ls_file s)(la_path a := ls_file s (la_path a) @ extra)"
    and "wrote s' t = wrote s t @ extra"
  shows "log_inv s'"
proof -
  have ok: "path_ok s p" for p using assms(1) by (simp add: log_inv_def)
  have "path_ok s' p" for p
  proof (cases "p = la_path a")
    case True
    then show ?thesis using path_ok_advance [OF ok assms(2-4,6-9) _ assms(11)] assms(10) by simp
  next
    case False
    show ?thesis by (rule task_update_others [OF ok False _ assms(6)]) (use assms(2,7-10) False in auto)
  qed
  moreover have "phase_ok b ph2" if "ls_task s' u = Some (b, ph2)" for u b ph2
    using that assms(1,5,6) by (auto simp: log_inv_def split: if_splits)
  ultimately show ?thesis by (simp add: log_inv_def)
qed

lemma acquire_stream_advances:
  assumes "la_path a \<in> ls_stream_cache s \<or> outcome \<noteq> Open_failed" "ls_task s t = Some (a, Holding)"
  shows "\<exists>ph c. acquire_stream outcome t a s = s\<lparr>ls_task := (ls_task s)(t \<mapsto> (a, ph)), ls_stream_cache := c\<rparr>
    \<and> (ph = Writing [] (log_payload a) \<or> ph = Stranded)"
proof (cases "la_path a \<in> ls_stream_cache s")
  case True
  then show ?thesis using assms(2)
    by (intro exI [of _ "if outcome = Handle_threw then Stranded else Writing [] (log_payload a)"] exI [of _ "ls_stream_cache s"])
      (simp add: acquire_stream_def set_phase_known)
next
  case False
  then show ?thesis using assms
    by (intro exI [of _ "if outcome = Opened then Writing [] (log_payload a) else Stranded"]
        exI [of _ "if outcome = Stream_threw then ls_stream_cache s else insert (la_path a) (ls_stream_cache s)"])
      (cases outcome; simp add: acquire_stream_def set_phase_def)
qed

lemma log_inv_step:
  assumes "log_inv s" "log_exec l s = Some s'"
  shows "log_inv s'"
proof (cases l)
  case (Begin_log t a)
  then show ?thesis using log_inv_begin assms by blast
next
  case (Open_log t outcome)
  then obtain a where a: "ls_task s t = Some (a, Holding)" "s' = acquire_stream outcome t a s"
    using assms(2) by (auto split: option.splits log_phase.splits)
  show ?thesis
  proof (cases "la_path a \<in> ls_stream_cache s \<or> outcome \<noteq> Open_failed")
    case True
    obtain ph' c where s': "s' = s\<lparr>ls_task := (ls_task s)(t \<mapsto> (a, ph')), ls_stream_cache := c\<rparr>"
        and ph': "ph' = Writing [] (log_payload a) \<or> ph' = Stranded"
      using acquire_stream_advances [of a s outcome t] a True by blast
    show ?thesis
      by (rule log_inv_advance [where ph' = ph' and extra = "[]", OF assms(1) a(1)])
        (use a(1) s' ph' in \<open>auto simp: wrote_def\<close>)
  next
    case False
    then show ?thesis using log_inv_finish [OF assms(1) a(1), of "[]"] a by (simp add: acquire_stream_def wrote_simps)
  qed
next
  case (Write_chunk t n)
  then obtain a w r where a: "ls_task s t = Some (a, Writing w r)" "n \<noteq> 0" "n \<le> length r"
      "s' = (set_phase t (Writing (w @ take n r) (drop n r)) s)\<lparr>ls_file := (ls_file s)(la_path a := ls_file s (la_path a) @ take n r)\<rparr>"
    using assms(2) by (auto split: option.splits log_phase.splits if_splits)
  have "phase_ok a (Writing w r)" using assms(1) a(1) unfolding log_inv_def by blast
  then show ?thesis
    by (intro log_inv_advance [where ph' = "Writing (w @ take n r) (drop n r)" and extra = "take n r", OF assms(1) a(1)])
      (use a in \<open>auto simp: set_phase_known wrote_def\<close>)
next
  case (End_write t error)
  then obtain a w r where a: "ls_task s t = Some (a, Writing w r)" "s' = log_finish t a w s"
    using assms(2) by (auto split: option.splits log_phase.splits if_splits)
  have "phase_ok a (Writing w r)" using assms(1) a(1) unfolding log_inv_def by blast
  then have "prefix w (log_payload a)" by (rule writing_prefix)
  then show ?thesis using log_inv_finish [OF assms(1) a(1), of w] a by (simp add: wrote_simps)
qed

lemma log_reach_inv: "log_reach fine s \<Longrightarrow> log_inv s"
proof (induction rule: log_reach.induct)
  case init
  then show ?case by (simp add: log_inv_def log_init_def path_ok_def tasks_ok_def queue_ok_def)
next
  case (step s l s')
  then show ?case by (blast intro: log_inv_step)
qed

text \<open>Without failures a completed task has written its whole line.\<close>

definition all_written :: "log_state \<Rightarrow> bool" where
  "all_written s \<longleftrightarrow> (\<forall>t a w. ls_task s t = Some (a, Finished w) \<longrightarrow> w = log_payload a)"

lemma finish_task:
  "ls_task (log_finish t a w s) u = Some (b, Finished w') \<Longrightarrow> ls_task s t = Some (a, ph) \<Longrightarrow>
     ls_task s u = Some (b, Finished w') \<or> b = a \<and> w' = w"
  by (auto simp: log_finish_def unlock_def set_phase_def split: option.splits list.splits if_splits)

lemma all_written_step:
  assumes "log_inv s" "all_written s" "log_exec l s = Some s'" "log_fine l"
  shows "all_written s'"
proof (cases l)
  case (Begin_log t a)
  then show ?thesis using assms(2,3) by (auto simp: all_written_def lock_def set_phase_def split: option.splits if_splits)
next
  case (Open_log t outcome)
  then show ?thesis using assms(2-4)
    by (auto simp: all_written_def acquire_stream_def set_phase_def split: option.splits log_phase.splits if_splits)
next
  case (Write_chunk t n)
  then show ?thesis using assms(2,3)
    by (auto simp: all_written_def set_phase_def split: option.splits log_phase.splits if_splits)
next
  case (End_write t error)
  then obtain a w where a: "ls_task s t = Some (a, Writing w [])" "s' = log_finish t a w s"
    using assms(3,4) by (auto split: option.splits log_phase.splits if_splits)
  have "phase_ok a (Writing w [])" using assms(1) a(1) unfolding log_inv_def by blast
  then show ?thesis using assms(2) a finish_task [of t a w s] by (fastforce simp: all_written_def)
qed

lemma log_reach_written: "log_reach True s \<Longrightarrow> all_written s"
proof (induction rule: log_reach.induct)
  case init
  then show ?case by (simp add: all_written_def log_init_def)
next
  case (step s l s')
  then show ?case using all_written_step log_reach_inv by blast
qed

text \<open>Without failures no task is stranded.\<close>

lemma log_finish_tasks:
  "ls_task (log_finish t a w s) u = Some (b, ph) \<Longrightarrow> ls_task s u = Some (b, ph) \<or> ph = Holding \<or> ph = Finished w"
  by (auto simp: log_finish_def unlock_def set_phase_def split: option.splits list.splits if_splits)

lemma stranded_step:
  assumes "log_exec l s = Some s'" "ls_task s' t = Some (a, Stranded)"
  shows "ls_task s t = Some (a, Stranded) \<or> \<not> log_fine l"
proof (cases l)
  case (End_write u error)
  then show ?thesis using assms log_finish_tasks
    by (fastforce split: option.splits log_phase.splits if_splits)
qed (use assms in \<open>auto simp: lock_def acquire_stream_def set_phase_def split: option.splits log_phase.splits if_splits\<close>)

lemma log_reach_stranded: "log_reach True s \<Longrightarrow> ls_task s t \<noteq> Some (a, Stranded)"
proof (induction rule: log_reach.induct)
  case init
  then show ?case by (simp add: log_init_def)
next
  case (step s l s')
  then show ?case using stranded_step by blast
qed

text \<open>Once the holder of a file's lock is stranded, the file is never written again and no task of it completes.\<close>

lemma log_finish_others:
  assumes "path_ok s (la_path b)" "ls_task s u = Some (b, ph)" "holds_lock ph" "ls_task s t = Some (a, Stranded)" "u \<noteq> t"
  shows "ls_task (log_finish u b w s) t = ls_task s t"
proof -
  obtain ws where ws: "ls_file_states s (la_path b) = Some ws" "\<And>r. r \<in> set ws \<Longrightarrow> in_phase s r (\<lambda>ph. ph = Waiting)"
    using holder_unique [OF assms(1-3)] by metis
  have "r \<noteq> t" if "r \<in> set ws" for r using ws(2) [OF that] assms(4) by (auto simp: in_phase_def)
  then show ?thesis using ws(1) assms(2,5)
    by (cases ws) (auto simp: log_finish_def unlock_def set_phase_def split: option.splits)
qed

lemma log_finish_path:
  "p \<noteq> la_path b \<Longrightarrow> ls_done (log_finish u b w s) p = ls_done s p \<and> ls_file (log_finish u b w s) p = ls_file s p"
  by (simp add: log_finish_def unlock_def set_phase_def split: option.splits list.splits)

lemma stranded_stays:
  assumes "log_inv s" "ls_task s t = Some (a, Stranded)" "log_exec l s = Some s'"
  shows "ls_task s' t = Some (a, Stranded) \<and> ls_done s' (la_path a) = ls_done s (la_path a) \<and> ls_file s' (la_path a) = ls_file s (la_path a)"
proof -
  have ok: "path_ok s p" for p using assms(1) by (simp add: log_inv_def)
  have other: "u \<noteq> t \<and> la_path b \<noteq> la_path a" if "ls_task s u = Some (b, ph)" "holds_lock ph" "ph \<noteq> Stranded" for u b ph
    using holder_unique [OF ok that(1,2)] holder_unique [OF ok assms(2)] that assms(2)
    by (metis append_same_eq holds_lock.simps(5) list.inject option.inject prod.inject same_append_eq)
  show ?thesis
  proof (cases l)
    case (Begin_log u b)
    then show ?thesis using assms(2,3) by (auto simp: lock_def set_phase_def split: option.splits)
  next
    case (Open_log u outcome)
    then obtain b where b: "ls_task s u = Some (b, Holding)" "s' = acquire_stream outcome u b s"
      using assms(3) by (auto split: option.splits log_phase.splits)
    then show ?thesis using other [OF b(1)] assms(2) log_finish_others [OF ok b(1) _ assms(2)] log_finish_path [of "la_path a" b]
      by (auto simp: acquire_stream_def set_phase_def split: stream_outcome.splits)
  next
    case (Write_chunk u n)
    then obtain b w r where b: "ls_task s u = Some (b, Writing w r)"
      using assms(3) by (auto split: option.splits log_phase.splits)
    then show ?thesis using other [OF b] assms(2,3) Write_chunk by (auto simp: set_phase_def split: if_splits)
  next
    case (End_write u error)
    then obtain b w r where b: "ls_task s u = Some (b, Writing w r)" "s' = log_finish u b w s"
      using assms(3) by (auto split: option.splits log_phase.splits if_splits)
    then show ?thesis using other [OF b(1)] assms(2) log_finish_others [OF ok b(1) _ assms(2)] log_finish_path [of "la_path a" b] by auto
  qed
qed

section \<open>Properties\<close>

text \<open>C21: Log lines are whole and in order.  In every reachable state and for every file: at most one
  task has its lock; tasks complete in the order in which they arrived, then comes the one that has the lock, then the
  waiters, all still waiting, so no waiter is overtaken; the file is the concatenation, in that order, of what its
  tasks wrote, each a prefix of its own line, so lines of concurrent events never interleave; and when nothing
  failed, every completed task's line is there in full and no task is stranded.  A task is stranded when an exception
  leaves it between taking the lock and having a handle for it: then no further step completes a task of that file
  or writes to it, and the task keeps the lock for ever, so its waiters hang.\<close>

theorem log_lines_in_order:
  assumes "log_reach fine s"
  shows "(\<forall>t u a b ph ph'. ls_task s t = Some (a, ph) \<longrightarrow> ls_task s u = Some (b, ph') \<longrightarrow> la_path a = la_path b \<longrightarrow>
            holds_lock ph \<longrightarrow> holds_lock ph' \<longrightarrow> t = u)
       \<and> (case ls_file_states s p of
            None \<Rightarrow> ls_begun s p = ls_done s p
          | Some ws \<Rightarrow> \<exists>h. ls_begun s p = ls_done s p @ h # ws \<and> in_phase s h holds_lock
              \<and> (\<forall>t \<in> set ws. in_phase s t (\<lambda>ph. ph = Waiting)))
       \<and> ls_file s p = concat (map (wrote s) (ls_begun s p))
       \<and> (\<forall>t \<in> set (ls_begun s p). \<exists>a ph. ls_task s t = Some (a, ph) \<and> prefix (wrote s t) (log_payload a))
       \<and> (fine \<longrightarrow> (\<forall>t \<in> set (ls_done s p). \<exists>a ph. ls_task s t = Some (a, ph) \<and> wrote s t = log_payload a))
       \<and> (fine \<longrightarrow> (\<forall>t a. ls_task s t \<noteq> Some (a, Stranded)))
       \<and> (\<forall>t a l s'. ls_task s t = Some (a, Stranded) \<longrightarrow> la_path a = p \<longrightarrow> log_exec l s = Some s' \<longrightarrow>
            ls_task s' t = Some (a, Stranded) \<and> ls_done s' p = ls_done s p \<and> ls_file s' p = ls_file s p)"
proof (intro conjI)
  have inv: "log_inv s" by (rule log_reach_inv [OF assms])
  then have ok: "path_ok s p" for p by (simp add: log_inv_def)
  show "\<forall>t u a b ph ph'. ls_task s t = Some (a, ph) \<longrightarrow> ls_task s u = Some (b, ph') \<longrightarrow> la_path a = la_path b \<longrightarrow>
      holds_lock ph \<longrightarrow> holds_lock ph' \<longrightarrow> t = u"
    using holder_unique [OF ok] by (metis append_same_eq list.inject same_append_eq)
  show "case ls_file_states s p of None \<Rightarrow> ls_begun s p = ls_done s p
      | Some ws \<Rightarrow> \<exists>h. ls_begun s p = ls_done s p @ h # ws \<and> in_phase s h holds_lock
          \<and> (\<forall>t \<in> set ws. in_phase s t (\<lambda>ph. ph = Waiting))"
    using ok [of p] by (auto simp: path_ok_def queue_ok_def split: option.splits)
  show "ls_file s p = concat (map (wrote s) (ls_begun s p))" using ok [of p] by (simp add: path_ok_def)
  show "\<forall>t \<in> set (ls_begun s p). \<exists>a ph. ls_task s t = Some (a, ph) \<and> prefix (wrote s t) (log_payload a)"
  proof
    fix t assume "t \<in> set (ls_begun s p)"
    then obtain a ph where a: "ls_task s t = Some (a, ph)" using ok [of p] by (auto simp: path_ok_def tasks_ok_def)
    then have "phase_ok a ph" using inv by (auto simp: log_inv_def)
    then show "\<exists>a ph. ls_task s t = Some (a, ph) \<and> prefix (wrote s t) (log_payload a)"
      using a writing_prefix [of a] by (cases ph) (auto simp: wrote_simps simp del: phase_ok.simps(1))
  qed
  show "fine \<longrightarrow> (\<forall>t a. ls_task s t \<noteq> Some (a, Stranded))" using log_reach_stranded assms by (cases fine) auto
  show "\<forall>t a l s'. ls_task s t = Some (a, Stranded) \<longrightarrow> la_path a = p \<longrightarrow> log_exec l s = Some s' \<longrightarrow>
      ls_task s' t = Some (a, Stranded) \<and> ls_done s' p = ls_done s p \<and> ls_file s' p = ls_file s p"
    using stranded_stays [OF inv] by blast
  show "fine \<longrightarrow> (\<forall>t \<in> set (ls_done s p). \<exists>a ph. ls_task s t = Some (a, ph) \<and> wrote s t = log_payload a)"
  proof (intro impI ballI)
    fix t assume f: fine and "t \<in> set (ls_done s p)"
    then obtain a w where "ls_task s t = Some (a, Finished w)"
      using queue_ok_done [of s p t] ok [of p] by (auto simp: path_ok_def in_phase_def)
    then show "\<exists>a ph. ls_task s t = Some (a, ph) \<and> wrote s t = log_payload a"
      using log_reach_written f assms by (auto simp: all_written_def wrote_simps)
  qed
qed

text \<open>Two events for one file, the second arriving while the first is being written.\<close>

fun log_steps :: "log_label list \<Rightarrow> log_state \<Rightarrow> log_state option" where
  "log_steps [] s = Some s"
| "log_steps (l # ls) s = (case log_exec l s of None \<Rightarrow> None | Some s' \<Rightarrow> log_steps ls s')"

lemma log_steps_reach: "log_reach True s \<Longrightarrow> list_all log_fine ls \<Longrightarrow> log_steps ls s = Some s' \<Longrightarrow> log_reach True s'"
  by (induction ls arbitrary: s) (auto split: option.splits intro: log_reach.step)

definition demo_log :: "log_label list" where
  "demo_log = [Begin_log 1 \<lparr>la_message = ''ab'', la_path = ''f''\<rparr>, Open_log 1 Opened, Write_chunk 1 1,
     Begin_log 2 \<lparr>la_message = ''c'', la_path = ''f''\<rparr>, Write_chunk 1 2, End_write 1 False, Open_log 2 Opened, Write_chunk 2 2,
     End_write 2 False]"

theorem log_lines_in_order_witness:
  "\<exists>s. log_steps demo_log log_init = Some s \<and> ls_begun s ''f'' = [1, 2] \<and> ls_file s ''f'' = concat (map (wrote s) (ls_begun s ''f''))"
proof -
  have "\<exists>s. log_steps demo_log log_init = Some s \<and> ls_begun s ''f'' = [1, 2]"
    by (simp add: demo_log_def log_init_def lock_def unlock_def set_phase_def acquire_stream_def log_finish_def log_payload_def)
  then obtain s where s: "log_steps demo_log log_init = Some s" "ls_begun s ''f'' = [1, 2]" by blast
  have "log_reach True s" by (rule log_steps_reach [OF log_reach.init _ s(1)]) (simp add: demo_log_def)
  then show ?thesis using log_lines_in_order [of True s "''f''"] s by blast
qed

end
