(* ===== verification/Action_Loop.thy ===== *)
theory Action_Loop
  imports Tcp_Destroyer Log_Action
begin

text \<open>
  \<open>actions/core/ActionLoop.cpp\<close>: the single-threaded executor of the countermeasures.  The state
  is the stop flag and the coroutines spawned and not yet run, in order; a world holds what the
  actions act on: the blocklist map, the requests sent to the kernel, and the log entries
  begun (how the tasks share the files is the subject of \<open>Log_Action\<close>).  A null pointer is \<open>None\<close>.  The executions of
  \<open>BlockTcpAction\<close> and \<open>BlocklistAddAction\<close> are those of their theories; an exception is \<open>True\<close>.
\<close>

record action_world =
  aw_blocklist :: "u32 \<rightharpoonup> u64"
  aw_sent :: "u8 list list"
  aw_logged :: "log_action list"

text \<open>How an operation of a group ends: it returns, an exception leaves it, or it is never resumed.\<close>

datatype op_end = Returned | Raised | Never_resumed

text \<open>How a \<open>LogAction\<close> fares: whether it ever gets its file's lock (not when the lock was left behind by a task an
  exception left, see \<open>Log_Action\<close>), how \<open>acquire_stream\<close> ends, then how much of the line
  \<open>async_write\<close> got out before it completed or reported an error (\<open>None\<close>: an exception before it began).\<close>

record log_env =
  le_lock :: bool
  le_stream :: stream_outcome
  le_write :: "nat option"

text \<open>How it ends, and the bytes it appended to the file.\<close>

definition LogAction_execute :: "log_env \<Rightarrow> log_action \<Rightarrow> op_end \<times> string" where
  "LogAction_execute env a =
     (if \<not> le_lock env then (Never_resumed, [])
      else case le_stream env of
        Stream_threw \<Rightarrow> (Raised, [])
      | Handle_threw \<Rightarrow> (Raised, [])
      | Open_failed \<Rightarrow> (Returned, [])
      | Opened \<Rightarrow> (case le_write env of None \<Rightarrow> (Raised, []) | Some n \<Rightarrow> (Returned, take n (log_payload a))))"

record action_env =
  ae_update :: "(u32, u64) bpf_update"
  ae_blocklist :: blocklist
  ae_now_ns :: int
  ae_nl_fd :: int
  ae_tcp :: tcp_env
  ae_log :: "log_action \<Rightarrow> log_env"

text \<open>The virtual call of \<open>IAction::execute_async\<close>: the override of the action's class.\<close>

fun execute_async :: "action_env \<Rightarrow> action \<Rightarrow> action_world \<Rightarrow> op_end \<times> action_world" where
  "execute_async env (BlockTcp a) w =
     (let (threw, sent, _) = BlockTcpAction_execute (ae_nl_fd env) (ae_tcp env) a in
      (if threw then Raised else Returned, w\<lparr>aw_sent := aw_sent w @ sent\<rparr>))"
| "execute_async env (BlocklistAdd a) w =
     (Returned, w\<lparr>aw_blocklist := snd (BlocklistAddAction_execute (ae_update env) (ae_blocklist env) (ae_now_ns env) a (aw_blocklist w))\<rparr>)"
| "execute_async env (Log a) w =
     (let (ended, _) = LogAction_execute (ae_log env a) a in (ended, w\<lparr>aw_logged := aw_logged w @ [a]\<rparr>))"

text \<open>The operations of a group: one per action that is not null, each with how it ends.  They run
  concurrently, so one that is never resumed does not keep the others from running.\<close>

fun run_ops :: "action_env \<Rightarrow> action option list \<Rightarrow> action_world \<Rightarrow> op_end list \<times> action_world" where
  "run_ops env [] w = ([], w)"
| "run_ops env (None # as) w = run_ops env as w"
| "run_ops env (Some a # as) w =
     (let (ended, w) = execute_async env a w; (rest, w) = run_ops env as w in (ended # rest, w))"

text \<open>What is reported, once all operations have ended (\<open>wait_for_all\<close>): the failed positions and how many
  operations there were.  With one that is never resumed the report is never made.\<close>

datatype action_report = Quiet | Failures "nat list" nat | No_report

definition report_of :: "op_end list \<Rightarrow> action_report" where
  "report_of ends =
     (let failed = filter (\<lambda>i. ends ! i = Raised) [0..<length ends] in
      if Never_resumed \<in> set ends then No_report
      else if failed = [] then Quiet else Failures failed (length ends))"

datatype spawned = One action | Many "action option list"

record action_loop =
  al_stop :: bool
  al_pending :: "spawned list"

definition ActionLoop_init :: "bool \<Rightarrow> action_loop" where
  "ActionLoop_init thread_ok = \<lparr>al_stop = (\<not> thread_ok), al_pending = []\<rparr>"

definition pushAction :: "bool \<Rightarrow> action option \<Rightarrow> action_loop \<Rightarrow> action_loop" where
  "pushAction spawn_ok act s =
     (case act of
        None \<Rightarrow> s
      | Some a \<Rightarrow> if al_stop s then s else if spawn_ok then s\<lparr>al_pending := al_pending s @ [One a]\<rparr> else s)"

definition pushActions :: "bool \<Rightarrow> action option list \<Rightarrow> action_loop \<Rightarrow> action_loop" where
  "pushActions spawn_ok acts s =
     (if acts = [] \<or> al_stop s then s
      else if spawn_ok then s\<lparr>al_pending := al_pending s @ [Many acts]\<rparr> else s)"

text \<open>The body of a spawned coroutine.\<close>

fun run_spawned :: "bool \<Rightarrow> action_env \<Rightarrow> spawned \<Rightarrow> action_world \<Rightarrow> action_report \<times> action_world" where
  "run_spawned stop env (One a) w =
     (if stop then (Quiet, w)
      else let (ended, w) = execute_async env a w in (report_of [ended], w))"
| "run_spawned stop env (Many acts) w =
     (if stop then (Quiet, w)
      else let (ends, w) = run_ops env acts w in
        if ends = [] then (Quiet, w) else (report_of ends, w))"

section \<open>Steps\<close>

datatype al_label =
    Push_one bool "action option"
  | Push_many bool "action option list"
  | Run_next action_env
  | Stop_loop

text \<open>With the world, the coroutines accepted and the ones executed so far.\<close>

fun al_exec ::
  "al_label \<Rightarrow> action_loop \<times> action_world \<times> spawned list \<times> spawned list
   \<Rightarrow> (action_loop \<times> action_world \<times> spawned list \<times> spawned list) option" where
  "al_exec (Push_one ok a) (s, w, acc, dn) =
     (let s' = pushAction ok a s in Some (s', w, acc @ drop (length (al_pending s)) (al_pending s'), dn))"
| "al_exec (Push_many ok acts) (s, w, acc, dn) =
     (let s' = pushActions ok acts s in Some (s', w, acc @ drop (length (al_pending s)) (al_pending s'), dn))"
| "al_exec (Run_next env) (s, w, acc, dn) =
     (case al_pending s of
        [] \<Rightarrow> None
      | g # gs \<Rightarrow> Some (s\<lparr>al_pending := gs\<rparr>, snd (run_spawned (al_stop s) env g w), acc,
                     if al_stop s then dn else dn @ [g]))"
| "al_exec Stop_loop (s, w, acc, dn) = Some (s\<lparr>al_stop := True\<rparr>, w, acc, dn)"

inductive al_reach :: "action_loop \<times> action_world \<times> spawned list \<times> spawned list \<Rightarrow> bool" where
  init: "al_reach (ActionLoop_init ok, w, [], [])"
| step: "al_reach c \<Longrightarrow> al_exec l c = Some c' \<Longrightarrow> al_reach c'"

section \<open>Groups\<close>

lemma run_ops_append: "run_ops env (as @ bs) w =
   (let (e1, w1) = run_ops env as w; (e2, w2) = run_ops env bs w1 in (e1 @ e2, w2))"
  by (induction env as w rule: run_ops.induct) (auto split: prod.splits)

lemma run_ops_length: "length (fst (run_ops env as w)) = length (filter (\<lambda>a. a \<noteq> None) as)"
  by (induction env as w rule: run_ops.induct) (auto split: prod.splits)

text \<open>How an action ends does not depend on the others: a teardown may raise, a log entry may raise or wait for ever.\<close>

fun action_end :: "action_env \<Rightarrow> action \<Rightarrow> op_end" where
  "action_end env (BlockTcp t) = (if fst (BlockTcpAction_execute (ae_nl_fd env) (ae_tcp env) t) then Raised else Returned)"
| "action_end env (BlocklistAdd b) = Returned"
| "action_end env (Log l) = fst (LogAction_execute (ae_log env l) l)"

lemma execute_async_threw: "fst (execute_async env a w) = action_end env a"
  by (cases a) (auto split: prod.splits)

lemma run_ops_threw: "fst (run_ops env (map Some as) w) = map (action_end env) as"
proof (induction as arbitrary: w)
  case (Cons a as)
  show ?case using Cons.IH [of "snd (execute_async env a w)"] execute_async_threw [of env a w] by (auto split: prod.splits)
qed simp

lemma report_of_failures:
  "case report_of (map f xs) of
     No_report \<Rightarrow> \<exists>x \<in> set xs. f x = Never_resumed
   | Quiet \<Rightarrow> \<forall>x \<in> set xs. f x = Returned
   | Failures failed k \<Rightarrow> k = length xs \<and> failed \<noteq> [] \<and> distinct failed
       \<and> set failed = {i. i < k \<and> f (xs ! i) = Raised} \<and> (\<forall>x \<in> set xs. f x \<noteq> Never_resumed)"
proof (cases "\<exists>x \<in> set xs. f x = Never_resumed")
  case True
  then have "Never_resumed \<in> set (map f xs)" by force
  then show ?thesis using True by (simp add: report_of_def)
next
  case False
  then have never: "Never_resumed \<notin> set (map f xs)" "\<forall>x \<in> set xs. f x \<noteq> Never_resumed" by auto
  show ?thesis
  proof (cases "filter (\<lambda>i. map f xs ! i = Raised) [0..<length (map f xs)] = []")
    case True
    then have "f x = Returned" if "x \<in> set xs" for x
      using that False by (cases "f x") (auto simp: filter_empty_conv in_set_conv_nth)
    then show ?thesis using True never by (simp add: report_of_def)
  next
    case False
    then show ?thesis using never by (fastforce simp: report_of_def Let_def)
  qed
qed

lemma run_ops_world:
  assumes "run_ops env (map Some as) w = (th, w')"
  shows "aw_logged w' = aw_logged w @ concat (map (\<lambda>a. case a of Log l \<Rightarrow> [l] | _ \<Rightarrow> []) as)"
    and "aw_blocklist w' = fold (\<lambda>a m. case a of BlocklistAdd b \<Rightarrow>
           snd (BlocklistAddAction_execute (ae_update env) (ae_blocklist env) (ae_now_ns env) b m) | _ \<Rightarrow> m) as (aw_blocklist w)"
proof -
  have "aw_logged w' = aw_logged w @ concat (map (\<lambda>a. case a of Log l \<Rightarrow> [l] | _ \<Rightarrow> []) as)
     \<and> aw_blocklist w' = fold (\<lambda>a m. case a of BlocklistAdd b \<Rightarrow>
           snd (BlocklistAddAction_execute (ae_update env) (ae_blocklist env) (ae_now_ns env) b m) | _ \<Rightarrow> m) as (aw_blocklist w)"
    using assms
  proof (induction as arbitrary: w th)
    case (Cons a as)
    obtain t1 w1 where a: "execute_async env a w = (t1, w1)" by fastforce
    obtain t2 where r: "run_ops env (map Some as) w1 = (t2, w')" using Cons.prems a by (auto split: prod.splits)
    show ?case using a Cons.IH [OF r] by (cases a) (auto split: prod.splits)
  qed simp
  then show "aw_logged w' = aw_logged w @ concat (map (\<lambda>a. case a of Log l \<Rightarrow> [l] | _ \<Rightarrow> []) as)"
    "aw_blocklist w' = fold (\<lambda>a m. case a of BlocklistAdd b \<Rightarrow>
           snd (BlocklistAddAction_execute (ae_update env) (ae_blocklist env) (ae_now_ns env) b m) | _ \<Rightarrow> m) as (aw_blocklist w)"
    by blast+
qed

text \<open>What was accepted: what ran, then what was skipped after the stop, then what is pending.\<close>

definition al_inv :: "action_loop \<times> action_world \<times> spawned list \<times> spawned list \<Rightarrow> bool" where
  "al_inv c \<longleftrightarrow> (case c of (s, w, acc, dn) \<Rightarrow> \<exists>sk. acc = dn @ sk @ al_pending s \<and> (\<not> al_stop s \<longrightarrow> sk = []))"

lemma al_reach_inv: "al_reach c \<Longrightarrow> al_inv c"
proof (induction rule: al_reach.induct)
  case (init ok w)
  then show ?case by (simp add: al_inv_def ActionLoop_init_def)
next
  case (step c l c')
  obtain s w acc dn where c: "c = (s, w, acc, dn)" by (cases c)
  obtain sk where sk: "acc = dn @ sk @ al_pending s" "\<not> al_stop s \<Longrightarrow> sk = []" using step.IH by (auto simp: al_inv_def c)
  show ?case
  proof (cases l)
    case (Run_next env)
    then obtain g gs where g: "al_pending s = g # gs" using step.hyps(2) by (auto simp: c split: list.splits)
    show ?thesis
    proof (cases "al_stop s")
      case True
      then show ?thesis using step.hyps(2) Run_next g sk by (auto simp: c al_inv_def intro!: exI [of _ "sk @ [g]"])
    next
      case False
      then show ?thesis using step.hyps(2) Run_next g sk by (auto simp: c al_inv_def)
    qed
  qed (use step.hyps(2) sk in \<open>auto simp: c al_inv_def pushAction_def pushActions_def Let_def split: option.splits if_splits\<close>)
qed

lemma enforcement_blocklist_map:
  "fold (\<lambda>a m. case a of BlocklistAdd b \<Rightarrow> f b m | _ \<Rightarrow> m) (fst (enforcement m v ctx)) mp =
     (if isSet (em_remote_ip m) \<and> ip_family (em_remote_ip m) = kV4
      then f \<lparr>act_src_ip_v4 = v4 (em_remote_ip m), act_ttl = dc_blocklist_ttl ctx, act_reason = message v\<rparr> mp else mp)"
  by (simp add: enforcement_def Let_def)

section \<open>Properties\<close>

text \<open>C24: One verdict's response, executed.  When the group of actions a verdict was dispatched to
  runs, the event is handed to the log exactly once; the blocklist map becomes what the blocklist
  action for the attributed IPv4 peer makes of it, if the verdict is enforceable, and is untouched
  otherwise; both whatever becomes of the teardown and of the writing of the log.  One operation per action is awaited.
  If the log entry is never resumed, because its file's lock was left behind, the group is never reported on; otherwise
  the operations reported as failed are exactly the teardown, if an exception left it, and the log entry, if an exception left
  it (the stream could not be made, or the write could not be set up), at most one of each, and nothing is
  reported exactly when both returned.\<close>

theorem response_group_effect:
  assumes "dc_action_loop ctx" "dispatchVerdict res dump now m v ctx = Some (actions, n)"
    and "run_spawned False env (Many (map Some actions)) w = (report, w')" "m' = snd (ensurePeerResolved res m)"
  shows "(\<exists>l. aw_logged w' = aw_logged w @ [l] \<and> last actions = Log l)
       \<and> aw_blocklist w' =
           (if actionable v \<and> isSet (em_remote_ip m') \<and> ip_family (em_remote_ip m') = kV4
            then snd (BlocklistAddAction_execute (ae_update env) (ae_blocklist env) (ae_now_ns env)
                   \<lparr>act_src_ip_v4 = v4 (em_remote_ip m'), act_ttl = dc_blocklist_ttl ctx, act_reason = message v\<rparr> (aw_blocklist w))
            else aw_blocklist w)
       \<and> (case report of
            No_report \<Rightarrow> action_end env (last actions) = Never_resumed
          | Quiet \<Rightarrow> \<forall>a \<in> set actions. action_end env a = Returned
          | Failures failed k \<Rightarrow> k = length actions \<and> failed \<noteq> [] \<and> distinct failed
              \<and> (\<forall>a \<in> set actions. action_end env a \<noteq> Never_resumed)
              \<and> set failed = {i. i < k \<and> action_end env (actions ! i) = Raised}
              \<and> (\<forall>i \<in> set failed. i = 0 \<and> (\<exists>t. actions ! i = BlockTcp t) \<or> i = k - 1 \<and> (\<exists>l. actions ! i = Log l)))"
proof -
  let ?e = "if actionable v then fst (enforcement m' v ctx) else []"
  obtain th where r: "run_ops env (map Some actions) w = (th, w')" and rep: "report = report_of th \<or> th = [] \<and> report = Quiet"
    using assms(3) by (auto split: prod.splits if_splits)
  obtain l where l: "actions = ?e @ [Log l]" using dispatch_actions [OF assms(1,2)] assms(4) by auto
  have th: "th = map (action_end env) actions" using run_ops_threw [of env actions w] r by simp
  then have rep: "report = report_of th" using rep l by auto
  have nolog: "concat (map (\<lambda>a. case a of Log l \<Rightarrow> [l] | _ \<Rightarrow> []) ?e) = []"
    using in_enforcement(4) [of _ m' v ctx] by (auto split: action.splits)
  have log: "aw_logged w' = aw_logged w @ [l]" using run_ops_world(1) [OF r] l nolog by simp
  have bl: "aw_blocklist w' = fold (\<lambda>a m. case a of BlocklistAdd b \<Rightarrow>
      snd (BlocklistAddAction_execute (ae_update env) (ae_blocklist env) (ae_now_ns env) b m) | _ \<Rightarrow> m) ?e (aw_blocklist w)"
    using run_ops_world(2) [OF r] l by simp
  have pos: "i = 0 \<and> (\<exists>t. actions ! i = BlockTcp t) \<or> i = length actions - 1 \<and> (\<exists>l. actions ! i = Log l)"
    if "i < length actions" "action_end env (actions ! i) = Raised" for i
    using that l by (auto simp: enforcement_def Let_def nth_append nth_Cons' less_Suc_eq split: if_splits)
  have never: "action_end env (last actions) = Never_resumed" if "a \<in> set actions" "action_end env a = Never_resumed" for a
    using that l by (auto simp: enforcement_def Let_def split: if_splits)
  have "case report of No_report \<Rightarrow> action_end env (last actions) = Never_resumed
          | Quiet \<Rightarrow> \<forall>a \<in> set actions. action_end env a = Returned
          | Failures failed k \<Rightarrow> k = length actions \<and> failed \<noteq> [] \<and> distinct failed
              \<and> (\<forall>a \<in> set actions. action_end env a \<noteq> Never_resumed)
              \<and> set failed = {i. i < k \<and> action_end env (actions ! i) = Raised}
              \<and> (\<forall>i \<in> set failed. i = 0 \<and> (\<exists>t. actions ! i = BlockTcp t) \<or> i = k - 1 \<and> (\<exists>l. actions ! i = Log l))"
    using report_of_failures [of actions "action_end env", folded th rep] pos never by (cases report) (simp_all, blast)
  then show ?thesis using log bl l by (auto simp: enforcement_blocklist_map)
qed

theorem response_group_effect_witness:
  "\<exists>l. aw_logged (snd (run_spawned False
      \<lparr>ae_update = src_blocklist_update, ae_blocklist = \<lparr>bl_fd = 4\<rparr>, ae_now_ns = 0, ae_nl_fd = -1, ae_tcp = demo_tcp_env [],
       ae_log = (\<lambda>_. \<lparr>le_lock = True, le_stream = Stream_threw, le_write = None\<rparr>)\<rparr>
      (Many (map Some (dispatched (\<lambda>m. (False, m)) (\<lambda>_. Some []) []
         (EventMeta_init\<lparr>em_remote_ip := setV4 9 IpAddress_init\<rparr>)
         \<lparr>severity = [], message_id = [], message = [], actionable = True\<rparr>
         \<lparr>dc_action_loop = True, dc_blocklist_ttl = 300, dc_output_path = []\<rparr>)))
      \<lparr>aw_blocklist = Map.empty, aw_sent = [], aw_logged = []\<rparr>)) = [l]"
proof -
  let ?ctx = "\<lparr>dc_action_loop = True, dc_blocklist_ttl = 300, dc_output_path = []\<rparr>"
  let ?m = "EventMeta_init\<lparr>em_remote_ip := setV4 9 IpAddress_init\<rparr>"
  let ?v = "\<lparr>severity = [], message_id = [], message = [], actionable = True\<rparr>"
  let ?env = "\<lparr>ae_update = src_blocklist_update, ae_blocklist = \<lparr>bl_fd = 4\<rparr>, ae_now_ns = 0, ae_nl_fd = -1, ae_tcp = demo_tcp_env [],
    ae_log = (\<lambda>_. \<lparr>le_lock = True, le_stream = Stream_threw, le_write = None\<rparr>)\<rparr>"
  let ?w = "\<lparr>aw_blocklist = Map.empty, aw_sent = [], aw_logged = []\<rparr>"
  obtain as n where d: "dispatchVerdict (\<lambda>m. (False, m)) (\<lambda>_. Some []) [] ?m ?v ?ctx = Some (as, n)"
    by (fastforce simp: dispatchVerdict_def redfish_format_def Let_def split: prod.splits)
  obtain rep w' where r: "run_spawned False ?env (Many (map Some as)) ?w = (rep, w')" by fastforce
  show ?thesis using response_group_effect [OF _ d r refl] r by (auto simp: dispatched_def d)
qed

text \<open>Responses run in order, at most once, and not after the stop.  In every reachable state of
  the loop the coroutines it accepted are the ones it ran, followed by those it skipped because it
  was stopping, followed by the pending ones; before the stop none is skipped.\<close>

theorem responses_in_order:
  assumes "al_reach (s, w, accepted, executed)"
  shows "\<exists>skipped. accepted = executed @ skipped @ al_pending s \<and> (\<not> al_stop s \<longrightarrow> skipped = [])"
  using al_reach_inv [OF assms] by (simp add: al_inv_def)

theorem responses_in_order_witness:
  "\<exists>s. al_reach (s, \<lparr>aw_blocklist = Map.empty, aw_sent = [], aw_logged = []\<rparr>, [Many [None]], []) \<and> al_pending s = [Many [None]]"
proof -
  let ?w = "\<lparr>aw_blocklist = Map.empty, aw_sent = [], aw_logged = []\<rparr>"
  let ?s = "pushActions True [None] (ActionLoop_init True)"
  have r: "al_reach (?s, ?w, [Many [None]], [])"
    by (rule al_reach.step [OF al_reach.init [of True ?w], where l = "Push_many True [None]"])
      (simp add: pushActions_def ActionLoop_init_def Let_def)
  have "\<not> al_stop ?s" by (simp add: pushActions_def ActionLoop_init_def)
  then show ?thesis using responses_in_order [OF r] r by auto
qed

end
