(* ===== verification/Daemon.thy ===== *)
theory Daemon
  imports Program Action_Loop Log_Action
begin

text \<open>
  \<open>programs/core/main.cpp\<close>: the configuration read from the command line, the modules built from
  it, start-up, the poll loop and the shutdown.  The libraries' answers are the record \<open>main_env\<close>; each turn of
  the poll loop comes with the value of \<open>g_stop\<close> it reads, what the poll returns and delivers, and what
  the worker threads of the detect loop do before the next one.
\<close>

section \<open>Configuration\<close>

record runtime_config =
  cfg_bpf_object_path :: string
  cfg_iface :: string
  cfg_openssl_lib_path :: string
  cfg_output_path :: string
  cfg_expected_sni :: string
  cfg_rate_threshold :: u32
  cfg_slowloris_threshold :: u32
  cfg_reneg_threshold :: u32

definition default_config :: runtime_config where
  "default_config =
     \<lparr>cfg_bpf_object_path = ''./build/https_guard.bpf.o'', cfg_iface = ''eth0'',
      cfg_openssl_lib_path = ''/usr/lib/libssl.so.3'', cfg_output_path = ''/var/log/redfish/https_guard_events.log'',
      cfg_expected_sni = [], cfg_rate_threshold = 0, cfg_slowloris_threshold = 0, cfg_reneg_threshold = 0\<rparr>"

text \<open>\<open>std::strtoul\<close> on the 32-bit target: no digits read as 0, out of range as the largest value.\<close>

definition strtoul :: "nat \<Rightarrow> string \<Rightarrow> u32" where
  "strtoul base s =
     (case strto base s of None \<Rightarrow> 0 | Some v \<Rightarrow> if \<bar>v\<bar> < 2 ^ 32 then word_of_int v else - 1)"

definition parse_args :: "string list \<Rightarrow> runtime_config" where
  "parse_args argv =
     (let argc = length argv;
          cfg = default_config;
          cfg = (if argc > 1 then cfg\<lparr>cfg_iface := argv ! 1\<rparr> else cfg);
          cfg = (if argc > 2 then cfg\<lparr>cfg_openssl_lib_path := argv ! 2\<rparr> else cfg);
          cfg = (if argc > 3 then cfg\<lparr>cfg_output_path := argv ! 3\<rparr> else cfg);
          cfg = (if argc > 4 then cfg\<lparr>cfg_bpf_object_path := argv ! 4\<rparr> else cfg);
          cfg = (if argc > 5 then cfg\<lparr>cfg_expected_sni := argv ! 5\<rparr> else cfg);
          cfg = (if argc > 6 then cfg\<lparr>cfg_rate_threshold := strtoul 10 (argv ! 6)\<rparr> else cfg);
          cfg = (if argc > 7 then cfg\<lparr>cfg_slowloris_threshold := strtoul 10 (argv ! 7)\<rparr> else cfg);
          cfg = (if argc > 8 then cfg\<lparr>cfg_reneg_threshold := strtoul 10 (argv ! 8)\<rparr> else cfg)
      in cfg)"

definition kAllowedCertExes :: "string list" where
  "kAllowedCertExes = [''/usr/bin/bmcweb'', ''/usr/bin/phosphor-certificate-manager'']"

definition buildHookModules :: "string \<Rightarrow> u32 \<Rightarrow> string \<Rightarrow> hook list" where
  "buildHookModules openssl_lib_path ifindex expected_sni =
     [SslUprobeProgram openssl_lib_path, XdpTlsProgram_init ifindex expected_sni, LsmCertGuardProgram kAllowedCertExes]"

section \<open>The process\<close>

text \<open>\<open>kDefaultBlocklistTtl\<close> in seconds.\<close>

definition kDefaultBlocklistTtl :: int where "kDefaultBlocklistTtl = 5 * 60"

text \<open>The constructor of \<open>DetectLoop\<close>: without its threads it stops at once.\<close>

definition DetectLoop_start :: "bool \<Rightarrow> detect_loop" where
  "DetectLoop_start threads_ok =
     (if threads_ok then DetectLoop_init else DetectLoop_init\<lparr>dl_stop := True, dl_halted := True\<rparr>)"

record poll_turn =
  pt_stop :: bool
  pt_rc :: int
  pt_samples :: "sample list"
  pt_work :: "dl_label list"

record main_env =
  me_create_directories :: "string \<Rightarrow> bool"
  me_action_thread_ok :: bool
  me_spawn_ok :: bool
  me_detect_threads_ok :: bool
  me_post_ok :: "bool \<times> bool"
  me_if_nametoindex :: "string \<Rightarrow> u32"
  me_bpf :: bpf_env
  me_readlink :: readlink
  me_resolver :: peer_resolver
  me_dump :: json_dump
  me_now :: string
  me_turns :: "poll_turn list"

datatype exit_status = Terminated | Returned int | Polling

record daemon =
  dm_program :: guard_program
  dm_world :: process_world
  dm_detect :: detect_loop
  dm_action :: action_loop
  dm_sweep :: sweep_timer

text \<open>Steps of the worker threads: a queued record starts, a started one finishes.\<close>

fun worker_label :: "dl_label \<Rightarrow> bool" where
  "worker_label Start = True"
| "worker_label (Finish i f) = True"
| "worker_label _ = False"

fun worker_steps :: "main_env \<Rightarrow> dl_label list \<Rightarrow> detect_loop \<Rightarrow> detect_loop" where
  "worker_steps env [] dl = dl"
| "worker_steps env (l # ls) dl =
     (if worker_label l
      then case dl_exec (me_resolver env) (me_dump env) (me_now env) l dl of
             None \<Rightarrow> worker_steps env ls dl
           | Some (_, dl) \<Rightarrow> worker_steps env ls dl
      else worker_steps env ls dl)"

text \<open>The poll loop; \<open>True\<close> when it was left.\<close>

fun poll_loop :: "main_env \<Rightarrow> poll_turn list \<Rightarrow> guard_program \<times> detect_loop \<Rightarrow> bool \<times> guard_program \<times> detect_loop" where
  "poll_loop env [] s = (False, s)"
| "poll_loop env (t # ts) s =
     (if pt_stop t then (True, s)
      else let (rc, p, dl) = pollEvents (me_readlink env) (pt_rc t, pt_samples t) s in
        if rc = - EINTR then (True, p, dl)
        else poll_loop env ts (p, worker_steps env (pt_work t) dl))"

definition daemon_init :: "main_env \<Rightarrow> runtime_config \<Rightarrow> daemon" where
  "daemon_init env cfg =
     (let p = HttpGuardProgram_init (buildHookModules (cfg_openssl_lib_path cfg) (me_if_nametoindex env (cfg_iface cfg)) (cfg_expected_sni cfg))
      in \<lparr>dm_program = p, dm_world = gp_world p,
          dm_detect = configure kDefaultBlocklistTtl (cfg_output_path cfg) (DetectLoop_start (me_detect_threads_ok env)),
          dm_action = pushAction (me_spawn_ok env)
            (Some (Log \<lparr>la_message = ''HTTPS_GUARD_EVENT'', la_path = cfg_output_path cfg\<rparr>)) (ActionLoop_init (me_action_thread_ok env)),
          dm_sweep = sweep_timer_init\<rparr>)"

definition daemon_sweeps :: "main_env \<Rightarrow> runtime_config \<Rightarrow> guard_program \<Rightarrow> sweep_timer" where
  "daemon_sweeps env cfg p =
     HttpGuardProgram_enableSessionTupleSweeps (me_bpf env) (snd (me_post_ok env)) p
       (HttpGuardProgram_enableRateSweeps (me_bpf env) (fst (me_post_ok env))
          \<lparr>th_connection_rate = cfg_rate_threshold cfg, th_open_conns = cfg_slowloris_threshold cfg,
           th_handshakes = cfg_reneg_threshold cfg\<rparr> p sweep_timer_init)"

text \<open>\<open>dm_world\<close> is the world after the local \<open>program\<close> was destroyed, once \<open>main\<close> has returned.  A log
  directory that cannot be made is an exception nobody catches, before anything was set up.\<close>

definition main :: "main_env \<Rightarrow> string list \<Rightarrow> exit_status \<times> daemon option" where
  "main env argv =
     (let cfg = parse_args argv; d = daemon_init env cfg in
      if \<not> me_create_directories env (parent_path (cfg_output_path cfg)) then (Terminated, None)
      else let (ok, p) = loadFilter (me_bpf env) (dm_program d) in
        if \<not> ok then (Returned 1, Some (d\<lparr>dm_program := p, dm_world := HttpGuardProgram_destroy p\<rparr>))
        else
          let st = daemon_sweeps env cfg p;
              (left, p, dl) = poll_loop env (me_turns env) (p, dm_detect d);
              d = d\<lparr>dm_program := p, dm_sweep := st\<rparr>
          in if \<not> left then (Polling, Some (d\<lparr>dm_detect := dl, dm_world := gp_world p\<rparr>))
             else (Returned 0, Some (d\<lparr>dm_detect := dl\<lparr>dl_stop := True\<rparr>, dm_sweep := st\<lparr>st_stop := True\<rparr>,
                       dm_world := HttpGuardProgram_destroy p\<rparr>)))"

section \<open>Routing\<close>

text \<open>The detections the record of a source is classified with, by configuration.\<close>

definition route :: "readlink \<Rightarrow> string \<Rightarrow> u32 \<Rightarrow> (string \<times> inspect) list option" where
  "route rl sni src =
     (if src = HG_SOURCE_UPROBE then Some uprobe_detections
      else if src = HG_SOURCE_XDP then Some (xdp_detections sni)
      else if src = HG_SOURCE_LSM_CERT_GUARD then Some (lsm_detections rl kAllowedCertExes)
      else None)"

lemma hookFor_same:
  "list_all2 same_module hs hs' \<Longrightarrow>
   map_option (hook_detections rl) (hookFor src hs') = map_option (hook_detections rl) (hookFor src hs)"
  by (induction rule: list_all2_induct) (auto simp: same_module_source same_module_detections)

lemma hookFor_built:
  "map_option (hook_detections rl) (hookFor src (buildHookModules lib ifx sni)) = route rl sni src"
  by (simp add: buildHookModules_def XdpTlsProgram_init_def route_def)

lemma hookFor_route:
  assumes "gp_reach fresh (buildHookModules lib ifx sni) (p, dl)"
  shows "map_option (hook_detections rl) (hookFor src (gp_hooks p)) = route rl sni src"
proof -
  have "list_all2 same_module (buildHookModules lib ifx sni) (gp_hooks p)"
    using gp_reach_inv [OF assms] by (simp add: gp_inv_def)
  from hookFor_same [OF this] show ?thesis by (simp add: hookFor_built)
qed

definition routed :: "readlink \<Rightarrow> string \<Rightarrow> sample \<Rightarrow> detect_loop \<Rightarrow> detect_loop" where
  "routed rl sni = (\<lambda>(data, ok) dl.
     case Option.bind (record_source data) (route rl sni) of
       None \<Rightarrow> dl | Some ds \<Rightarrow> snd (submit ok data (as_detections ds) dl))"

definition unrouted :: "readlink \<Rightarrow> string \<Rightarrow> sample \<Rightarrow> bool" where
  "unrouted rl sni = (\<lambda>(data, ok). \<exists>src. record_source data = Some src \<and> route rl sni src = None)"

lemma dispatchRecord_routed:
  assumes "\<And>src. map_option (hook_detections rl) (hookFor src (gp_hooks p)) = route rl sni src"
  shows "dispatchRecord rl x (p, dl) =
     (0, p\<lparr>gp_unknown_source_count := gp_unknown_source_count p + (if unrouted rl sni x then 1 else 0)\<rparr>, routed rl sni x dl)"
proof (cases x)
  case (Pair data ok)
  show ?thesis
  proof (cases "record_source data")
    case (Some src)
    then show ?thesis using assms [of src]
      by (cases "hookFor src (gp_hooks p)")
        (auto simp: Pair dispatchRecord_def routed_def unrouted_def ringBufferHandler_def)
  qed (simp add: Pair dispatchRecord_def routed_def unrouted_def)
qed

lemma deliver_routed:
  assumes "\<And>src. map_option (hook_detections rl) (hookFor src (gp_hooks p)) = route rl sni src"
  shows "deliver rl xs (p, dl) =
     (p\<lparr>gp_unknown_source_count := gp_unknown_source_count p + of_nat (length (filter (unrouted rl sni) xs))\<rparr>,
      fold (routed rl sni) xs dl)"
  using assms
proof (induction xs arbitrary: p dl)
  case (Cons x xs)
  let ?p = "p\<lparr>gp_unknown_source_count := gp_unknown_source_count p + (if unrouted rl sni x then 1 else 0)\<rparr>"
  have "\<And>src. map_option (hook_detections rl) (hookFor src (gp_hooks ?p)) = route rl sni src" using Cons.prems by simp
  from Cons.IH [OF this] show ?case
    by (simp add: ringBufferCallback_def dispatchRecord_routed [OF Cons.prems] add_ac)
qed simp

lemma routed_enqueued:
  assumes "record_source data = Some src" "route rl sni src = Some ds" "ds \<noteq> []" "length ds \<le> kMaxDetectionsPerRecord"
    "0 < length data" "length data \<le> HG_MAX_RAW_EVENT_SIZE"
    "dl_configured dl" "\<not> dl_stop dl" "dl_in_flight dl < kMaxQueueDepth"
  shows "routed rl sni (data, True) dl =
     dl\<lparr>dl_in_flight := dl_in_flight dl + 1,
        dl_queue := dl_queue dl @ [\<lparr>rec_bytes = data, rec_detections = as_detections ds\<rparr>]\<rparr>"
  using assms by (auto simp: routed_def submit_def as_detections_def Let_def)

lemmas event_sizes = length_encode sizeof_xdp_event_def sizeof_uprobe_event_def sizeof_lsm_event_def HG_MAX_RAW_EVENT_SIZE_def

lemma detections_sizes:
  "xdp_detections sni \<noteq> [] \<and> length (xdp_detections sni) \<le> kMaxDetectionsPerRecord"
  "uprobe_detections \<noteq> [] \<and> length uprobe_detections \<le> kMaxDetectionsPerRecord"
  "lsm_detections rl exes \<noteq> [] \<and> length (lsm_detections rl exes) \<le> kMaxDetectionsPerRecord"
  using xdp_list.nonempty xdp_list.bounded uprobe_list.nonempty uprobe_list.bounded lsm_list.nonempty lsm_list.bounded by auto

lemma routed_events:
  assumes "dl_configured dl" "\<not> dl_stop dl" "dl_in_flight dl < kMaxQueueDepth"
  shows "wf_xdp_event e \<Longrightarrow> hdr_event_source (xdp_hdr e) = HG_SOURCE_XDP \<Longrightarrow>
      routed rl sni (encode_xdp_event e, True) dl = dl\<lparr>dl_in_flight := dl_in_flight dl + 1,
        dl_queue := dl_queue dl @ [\<lparr>rec_bytes = encode_xdp_event e, rec_detections = as_detections (xdp_detections sni)\<rparr>]\<rparr>"
    and "wf_uprobe_event u \<Longrightarrow> hdr_event_source (up_hdr u) = HG_SOURCE_UPROBE \<Longrightarrow>
      routed rl sni (encode_uprobe_event u, True) dl = dl\<lparr>dl_in_flight := dl_in_flight dl + 1,
        dl_queue := dl_queue dl @ [\<lparr>rec_bytes = encode_uprobe_event u, rec_detections = as_detections uprobe_detections\<rparr>]\<rparr>"
    and "wf_lsm_event l \<Longrightarrow> hdr_event_source (lsm_hdr l) = HG_SOURCE_LSM_CERT_GUARD \<Longrightarrow>
      routed rl sni (encode_lsm_event l, True) dl = dl\<lparr>dl_in_flight := dl_in_flight dl + 1,
        dl_queue := dl_queue dl @ [\<lparr>rec_bytes = encode_lsm_event l, rec_detections = as_detections (lsm_detections rl kAllowedCertExes)\<rparr>]\<rparr>"
proof -
  note src = record_source_encode [of _ "[]", simplified]
  assume "wf_xdp_event e" "hdr_event_source (xdp_hdr e) = HG_SOURCE_XDP"
  then show "routed rl sni (encode_xdp_event e, True) dl = dl\<lparr>dl_in_flight := dl_in_flight dl + 1,
        dl_queue := dl_queue dl @ [\<lparr>rec_bytes = encode_xdp_event e, rec_detections = as_detections (xdp_detections sni)\<rparr>]\<rparr>"
    by (intro routed_enqueued [where src = HG_SOURCE_XDP])
      (use assms detections_sizes in \<open>simp_all add: src event_sizes route_def HG_SOURCE_XDP_def HG_SOURCE_UPROBE_def\<close>)
next
  note src = record_source_encode [of _ "[]", simplified]
  assume "wf_uprobe_event u" "hdr_event_source (up_hdr u) = HG_SOURCE_UPROBE"
  then show "routed rl sni (encode_uprobe_event u, True) dl = dl\<lparr>dl_in_flight := dl_in_flight dl + 1,
        dl_queue := dl_queue dl @ [\<lparr>rec_bytes = encode_uprobe_event u, rec_detections = as_detections uprobe_detections\<rparr>]\<rparr>"
    by (intro routed_enqueued [where src = HG_SOURCE_UPROBE])
      (use assms detections_sizes in \<open>simp_all add: src event_sizes route_def\<close>)
next
  note src = record_source_encode [of _ "[]", simplified]
  assume "wf_lsm_event l" "hdr_event_source (lsm_hdr l) = HG_SOURCE_LSM_CERT_GUARD"
  then show "routed rl sni (encode_lsm_event l, True) dl = dl\<lparr>dl_in_flight := dl_in_flight dl + 1,
        dl_queue := dl_queue dl @ [\<lparr>rec_bytes = encode_lsm_event l, rec_detections = as_detections (lsm_detections rl kAllowedCertExes)\<rparr>]\<rparr>"
    by (intro routed_enqueued [where src = HG_SOURCE_LSM_CERT_GUARD])
      (use assms detections_sizes in \<open>simp_all add: src event_sizes route_def HG_SOURCE_XDP_def HG_SOURCE_UPROBE_def HG_SOURCE_LSM_CERT_GUARD_def\<close>)
qed

section \<open>Runs of the process\<close>

lemma worker_steps_reach:
  "dl_reach (me_resolver env) (me_dump env) (me_now env) outs dl \<Longrightarrow>
   \<exists>outs'. dl_reach (me_resolver env) (me_dump env) (me_now env) outs' (worker_steps env ls dl)"
proof (induction ls arbitrary: dl outs)
  case (Cons l ls)
  show ?case
  proof (cases "dl_exec (me_resolver env) (me_dump env) (me_now env) l dl")
    case (Some x)
    then show ?thesis using Cons dl_reach.step [OF Cons.prems, of l "fst x" "snd x"] by (cases x) auto
  qed (use Cons in auto)
qed auto

lemma submit_reach:
  "dl_reach res dump now outs dl \<Longrightarrow> \<exists>outs'. dl_reach res dump now outs' (snd (submit ok data ds dl))"
  using dl_reach.step [of res dump now outs dl "Submit ok data ds"] by (cases "submit ok data ds dl") auto

lemma dispatchRecord_reach:
  "dispatchRecord rl x (p, dl) = (rc, p', dl') \<Longrightarrow> dl_reach res dump now outs dl \<Longrightarrow> \<exists>outs'. dl_reach res dump now outs' dl'"
  by (cases x) (auto simp: dispatchRecord_def ringBufferHandler_def split: option.splits intro: submit_reach)

lemma deliver_reach:
  "deliver rl xs (p, dl) = (p', dl') \<Longrightarrow> dl_reach res dump now outs dl \<Longrightarrow> \<exists>outs'. dl_reach res dump now outs' dl'"
proof (induction xs arbitrary: p dl outs)
  case (Cons x xs)
  obtain rc p1 dl1 where d: "dispatchRecord rl x (p, dl) = (rc, p1, dl1)" by (metis prod_cases3)
  obtain outs1 where "dl_reach res dump now outs1 dl1" using dispatchRecord_reach [OF d Cons.prems(2)] by blast
  with Cons d show ?case by (auto simp: ringBufferCallback_def split: if_splits)
qed auto

lemma pollEvents_reach:
  "pollEvents rl x (p, dl) = (rc, p', dl') \<Longrightarrow> dl_reach res dump now outs dl \<Longrightarrow> \<exists>outs'. dl_reach res dump now outs' dl'"
  by (cases x) (auto simp: pollEvents_def split: if_splits dest: deliver_reach)

lemma poll_loop_run:
  assumes "poll_loop env ts (p, dl) = (left, p', dl')" "gp_reach True hooks (p, dl)" "gp_ring_buffer p \<noteq> None"
    "dl_reach (me_resolver env) (me_dump env) (me_now env) outs dl"
  shows "gp_reach True hooks (p', dl') \<and> (\<exists>n. p' = p\<lparr>gp_unknown_source_count := n\<rparr>)
     \<and> (\<exists>outs'. dl_reach (me_resolver env) (me_dump env) (me_now env) outs' dl')
     \<and> (left \<longleftrightarrow> (\<exists>t \<in> set ts. pt_stop t \<or> pt_rc t = - EINTR))"
  using assms
proof (induction ts arbitrary: p dl outs)
  case Nil
  then show ?case by (auto intro: exI [of _ "gp_unknown_source_count p"])
next
  case (Cons t ts)
  show ?case
  proof (cases "pt_stop t")
    case True
    then show ?thesis using Cons.prems by (auto intro: exI [of _ "gp_unknown_source_count p"])
  next
    case False
    obtain rc p1 dl1 where e: "pollEvents (me_readlink env) (pt_rc t, pt_samples t) (p, dl) = (rc, p1, dl1)"
      by (metis prod_cases3)
    obtain n where n: "p1 = p\<lparr>gp_unknown_source_count := n\<rparr>" using pollEvents_frame [OF e] by blast
    have rc: "rc = pt_rc t" using e Cons.prems(3) by (simp add: pollEvents_def)
    have g: "gp_reach True hooks (p1, dl1)"
      using gp_reach.step [OF Cons.prems(2), of "Poll (me_readlink env) (pt_rc t) (pt_samples t)"] e by simp
    obtain outs1 where o: "dl_reach (me_resolver env) (me_dump env) (me_now env) outs1 dl1"
      using pollEvents_reach [OF e Cons.prems(4)] by blast
    show ?thesis
    proof (cases "rc = - EINTR")
      case True
      then show ?thesis using Cons.prems False e n g o rc by auto
    next
      case ne: False
      obtain outs2 where o2: "dl_reach (me_resolver env) (me_dump env) (me_now env) outs2 (worker_steps env (pt_work t) dl1)"
        using worker_steps_reach [OF o] by blast
      have "poll_loop env ts (p1, worker_steps env (pt_work t) dl1) = (left, p', dl')"
        using Cons.prems(1) False e ne by simp
      from Cons.IH [OF this gp_reach.others [OF g] _ o2] Cons.prems(3) n ne rc False
      show ?thesis by auto
    qed
  qed
qed

lemma DetectLoop_start_reach:
  "\<exists>outs. dl_reach res dump now outs (configure ttl path (DetectLoop_start ok))"
proof -
  have "\<exists>outs. dl_reach res dump now outs (DetectLoop_start ok)"
  proof (cases ok)
    case True
    then show ?thesis using dl_reach.init by (auto simp: DetectLoop_start_def)
  next
    case False
    have "dl_reach res dump now ([] @ [Out_none]) (DetectLoop_init\<lparr>dl_stop := True\<rparr>)"
      by (rule dl_reach.step [OF dl_reach.init, where l = Stop]) simp
    then have "dl_reach res dump now (([] @ [Out_none]) @ [Out_none]) (DetectLoop_init\<lparr>dl_stop := True, dl_halted := True\<rparr>)"
      by (rule dl_reach.step [where l = Halt]) simp
    then show ?thesis using False by (auto simp: DetectLoop_start_def)
  qed
  then obtain outs where "dl_reach res dump now outs (DetectLoop_start ok)" by blast
  from dl_reach.step [OF this, where l = "Configure ttl path"] show ?thesis by fastforce
qed

section \<open>The configuration\<close>

text \<open>The number given as argument \<open>k\<close>, 0 without one.\<close>

definition arg_number :: "nat \<Rightarrow> string list \<Rightarrow> u32" where
  "arg_number k argv = (if k < length argv then strtoul 10 (argv ! k) else 0)"

lemma parse_args_thresholds:
  "cfg_rate_threshold (parse_args argv) = arg_number 6 argv"
  "cfg_slowloris_threshold (parse_args argv) = arg_number 7 argv"
  "cfg_reneg_threshold (parse_args argv) = arg_number 8 argv"
  by (simp_all add: parse_args_def Let_def arg_number_def default_config_def)

lemma strtoul_decimal: "strtoul 10 (to_string (unat (n :: u32))) = n"
  using uint_lt2p [of n] by (simp add: strtoul_def strto_dec)

lemma daemon_sweeps_rate:
  assumes "st_rate (daemon_sweeps env cfg p) = Some sw"
  shows "rs_thresholds sw = \<lparr>th_connection_rate = cfg_rate_threshold cfg, th_open_conns = cfg_slowloris_threshold cfg,
       th_handshakes = cfg_reneg_threshold cfg\<rparr> \<and> rate_enabled sw"
  using assms
  by (auto simp: daemon_sweeps_def HttpGuardProgram_enableRateSweeps_def HttpGuardProgram_enableSessionTupleSweeps_def
      enableRateSweeps_def enableSessionTupleSweeps_def ensureSweepTimerStarted_def sweep_timer_init_def
      ConnRateSweeper_def Let_def split: if_splits)

section \<open>The properties\<close>

definition main_hooks :: "main_env \<Rightarrow> string list \<Rightarrow> hook list" where
  "main_hooks env argv = (let cfg = parse_args argv in
     buildHookModules (cfg_openssl_lib_path cfg) (me_if_nametoindex env (cfg_iface cfg)) (cfg_expected_sni cfg))"

lemma daemon_init_program: "dm_program (daemon_init env (parse_args argv)) = HttpGuardProgram_init (main_hooks env argv)"
  by (simp add: daemon_init_def main_hooks_def Let_def)

definition loads :: "bpf_env \<Rightarrow> hook list \<Rightarrow> bool" where
  "loads env hooks \<longleftrightarrow> be_open env \<and> be_load env = 0 \<and> (\<exists>h \<in> set hooks. attaches env h) \<and> 0 \<le> be_map_fd env ''events'' \<and> be_ring env"


definition demo_main_env :: main_env where
  "demo_main_env =
     \<lparr>me_create_directories = (\<lambda>_. True), me_action_thread_ok = True, me_spawn_ok = True, me_detect_threads_ok = True, me_post_ok = (True, True),
      me_if_nametoindex = (\<lambda>_. 2), me_bpf = demo_bpf_env, me_readlink = (\<lambda>_ _. None), me_resolver = (\<lambda>m. (False, m)),
      me_dump = (\<lambda>_. Some []), me_now = [],
      me_turns = [\<lparr>pt_stop = False, pt_rc = 1, pt_samples = [([9, 0, 0, 0], True)], pt_work = [Start]\<rparr>,
                  \<lparr>pt_stop = False, pt_rc = -22, pt_samples = [], pt_work = []\<rparr>,
                  \<lparr>pt_stop = True, pt_rc = 0, pt_samples = [], pt_work = []\<rparr>]\<rparr>"

lemma demo_main_returns:
  "fst (main demo_main_env [''d'', ''eth0'', ''l'', ''o'', ''b'', ''bmc'', ''20'']) = Returned 0"
  "snd (main demo_main_env [''d'', ''eth0'', ''l'', ''o'', ''b'', ''bmc'', ''20'']) \<noteq> None"
  by code_simp+


text \<open>C23: From the ring buffer to the right rules.  However far the program has run, a poll hands
  every record to the detect loop in order: with the list of the module that owns the source in
  the record's first four bytes, under the configured host name and allowed executables; a record of
  no known source is only counted and never stops the batch.  With room in the queue, an event of each
  kernel program is queued whole, with that program's own detections.\<close>

theorem records_reach_their_hook:
  assumes "gp_reach fresh (buildHookModules lib ifindex sni) (p, dl)" "gp_ring_buffer p \<noteq> None"
    and "dl_configured dl'" "\<not> dl_stop dl'" "dl_in_flight dl' < kMaxQueueDepth"
  shows "pollEvents rl (rc, samples) (p, dl) =
       (rc, p\<lparr>gp_unknown_source_count := gp_unknown_source_count p + of_nat (length (filter (unrouted rl sni) samples))\<rparr>,
        fold (routed rl sni) samples dl)
     \<and> (\<forall>e. wf_xdp_event e \<and> hdr_event_source (xdp_hdr e) = HG_SOURCE_XDP \<longrightarrow>
          dl_queue (routed rl sni (encode_xdp_event e, True) dl') =
            dl_queue dl' @ [\<lparr>rec_bytes = encode_xdp_event e, rec_detections = as_detections (xdp_detections sni)\<rparr>])
     \<and> (\<forall>u. wf_uprobe_event u \<and> hdr_event_source (up_hdr u) = HG_SOURCE_UPROBE \<longrightarrow>
          dl_queue (routed rl sni (encode_uprobe_event u, True) dl') =
            dl_queue dl' @ [\<lparr>rec_bytes = encode_uprobe_event u, rec_detections = as_detections uprobe_detections\<rparr>])
     \<and> (\<forall>l. wf_lsm_event l \<and> hdr_event_source (lsm_hdr l) = HG_SOURCE_LSM_CERT_GUARD \<longrightarrow>
          dl_queue (routed rl sni (encode_lsm_event l, True) dl') =
            dl_queue dl' @ [\<lparr>rec_bytes = encode_lsm_event l,
              rec_detections = as_detections (lsm_detections rl [''/usr/bin/bmcweb'', ''/usr/bin/phosphor-certificate-manager''])\<rparr>])"
  using assms(2) deliver_routed [OF hookFor_route [OF assms(1)], of rl samples dl] routed_events [OF assms(3-5)]
  by (cases "gp_ring_buffer p") (simp_all add: pollEvents_def kAllowedCertExes_def)

definition built_program :: guard_program where
  "built_program = snd (loadFilter demo_bpf_env (HttpGuardProgram_init (buildHookModules ''l'' 2 ''bmc'')))"

lemma built_program_reach: "gp_reach True (buildHookModules ''l'' 2 ''bmc'') (built_program, DetectLoop_init)"
  using gp_reach.step [OF gp_reach.init [of True "buildHookModules ''l'' 2 ''bmc''" DetectLoop_init], where l = "Load demo_bpf_env"]
  by (simp add: built_program_def HttpGuardProgram_init_def)

lemma built_program_ring: "gp_ring_buffer built_program \<noteq> None"
  by code_simp

theorem records_reach_their_hook_witness:
  "pollEvents (\<lambda>_ _. None) (1, [([9, 0, 0, 0], True)]) (built_program, DetectLoop_init) =
     (1, built_program\<lparr>gp_unknown_source_count := gp_unknown_source_count built_program + 1\<rparr>, DetectLoop_init)"
proof -
  have c: "dl_configured (configure 1 [] DetectLoop_init)" "\<not> dl_stop (configure 1 [] DetectLoop_init)"
      "dl_in_flight (configure 1 [] DetectLoop_init) < kMaxQueueDepth"
    by (simp_all add: configure_def DetectLoop_init_def kMaxQueueDepth_def)
  have s: "record_source [9, 0, 0, 0] = Some 9" by code_simp
  show ?thesis
    using records_reach_their_hook [OF built_program_reach built_program_ring c, of "\<lambda>_ _. None" 1 "[([9, 0, 0, 0], True)]"]
    by (simp add: routed_def unrouted_def s route_def HG_SOURCE_XDP_def HG_SOURCE_UPROBE_def HG_SOURCE_LSM_CERT_GUARD_def)
qed

end
