(* ===== verification/System.thy ===== *)
theory System
  imports Xdp_Tls Lsm_Cert Daemon
begin

text \<open>
  The daemon at work: the kernel programs, the ring buffer, the poll loop, the workers, the sweep
  timer and the action thread, composed.  One step of the system is one atomic step of one of
  them, as the component theories define it, on a state in which they share what the
  code shares: the blocklist map is the one of \<open>xs_blocklist\<close>, read by the packet path and written by
  the action thread; a record a kernel program submits is appended to the ring buffer and
  handed over by a poll; a group of actions a worker or a sweep dispatches is pushed to the action
  loop.  The initial state is the one \<open>main\<close> has when it enters its poll loop.  A sweep's lookups are steps of
  their own, between which packets may change the counters; its events are dispatched when its walk ends.
\<close>

record system =
  sy_kernel :: xdp_state
  sy_ssl :: ssl_state
  sy_lsm :: "lsm_cert_guard_event list"
  sy_ring :: "u8 list list"
  sy_program :: guard_program
  sy_detect :: detect_loop
  sy_sweep :: sweep_timer
  sy_walk :: "(u32 \<times> hg_conn_rate option) list"
  sy_action :: action_loop
  sy_executed :: "spawned list"
  sy_tcp_sent :: "u8 list list"
  sy_logged :: "log_action list"

datatype sys_label =
    Packet "(u32, hg_conn_rate) bpf_update" xdp_env "u8 list"
  | Probe ssl_kernel ssl_env ssl_step
  | Open_file d_path bool lsm_env string
  | Poll_ring readlink int "bool list"
  | Start_record
  | Finish_record peer_resolver json_dump string nat bool bool
  | Observe u32
  | Timer_posted bool
  | Timer_fire bool bool bool
  | End_sweep peer_resolver json_dump string sweep_input bool
  | Act action_env
  | Stop_request

text \<open>Records submitted since: the ring buffer grows by their bytes.\<close>

definition submitted :: "('e \<Rightarrow> u8 list) \<Rightarrow> 'e list \<Rightarrow> 'e list \<Rightarrow> u8 list list" where
  "submitted encode before after = map encode (drop (length before) after)"

definition push_groups :: "bool \<Rightarrow> action list list \<Rightarrow> action_loop \<Rightarrow> action_loop" where
  "push_groups spawn_ok groups al = fold (\<lambda>g. pushActions spawn_ok (map Some g)) groups al"

fun sys_exec :: "sys_label \<Rightarrow> system \<Rightarrow> system option" where
  "sys_exec (Packet upd env pkt) s =
     (let k = snd (https_guard_xdp upd env (sy_kernel s) pkt) in
      Some (s\<lparr>sy_kernel := k,
              sy_ring := sy_ring s @ submitted encode_xdp_event (xs_events (sy_kernel s)) (xs_events k)\<rparr>))"
| "sys_exec (Probe k env step) s =
     (let ssl = ssl_exec k (env, step) (sy_ssl s) in
      Some (s\<lparr>sy_ssl := ssl, sy_ring := sy_ring s @ submitted encode_uprobe_event (ss_events (sy_ssl s)) (ss_events ssl)\<rparr>))"
| "sys_exec (Open_file d_path shadow env path) s =
     (let evs = snd (https_guard_cert_open d_path shadow env path (sy_lsm s)) in
      Some (s\<lparr>sy_lsm := evs, sy_ring := sy_ring s @ submitted encode_lsm_event (sy_lsm s) evs\<rparr>))"
| "sys_exec (Poll_ring rl rc oks) s =
     (if length (sy_ring s) < length oks then None
      else let (_, p, dl) = pollEvents rl (rc, zip (sy_ring s) oks) (sy_program s, sy_detect s)
        in Some (s\<lparr>sy_ring := drop (length oks) (sy_ring s), sy_program := p, sy_detect := dl\<rparr>))"
| "sys_exec Start_record s =
     map_option (\<lambda>(_, dl). s\<lparr>sy_detect := dl\<rparr>) (dl_exec (\<lambda>m. (False, m)) (\<lambda>_. Some []) [] Start (sy_detect s))"
| "sys_exec (Finish_record res dump now i fault spawn_ok) s =
     map_option (\<lambda>(_, dl). s\<lparr>sy_detect := dl,
         sy_action := push_groups spawn_ok (drop (length (dl_pushed (sy_detect s))) (dl_pushed dl)) (sy_action s)\<rparr>)
       (dl_exec res dump now (Finish i fault) (sy_detect s))"
| "sys_exec (Observe k) s =
     (if st_sweeping (sy_sweep s) = 0 then None else Some (s\<lparr>sy_walk := sy_walk s @ [(k, xs_conn_rate (sy_kernel s) k)]\<rparr>))"
| "sys_exec (Timer_posted arm_ok) s = map_option (\<lambda>st. s\<lparr>sy_sweep := st\<rparr>) (sweep_exec (Run_posted arm_ok) (sy_sweep s))"
| "sys_exec (Timer_fire ec spawn_ok arm_ok) s =
     map_option (\<lambda>st. s\<lparr>sy_sweep := st\<rparr>) (sweep_exec (Fire ec spawn_ok arm_ok) (sy_sweep s))"
| "sys_exec (End_sweep res dump now inp spawn_ok) s =
     (if st_sweeping (sy_sweep s) = 0 then None
      else map_option (\<lambda>(groups, ssl, st). s\<lparr>sy_ssl := ssl, sy_sweep := st, sy_walk := [],
             sy_action := push_groups spawn_ok groups (sy_action s)\<rparr>)
           (sweepAll (sweep_dispatch res dump now (dl_ctx (sy_detect s)))
              (inp\<lparr>si_walk := sy_walk s, si_ssl := sy_ssl s\<rparr>) (sy_sweep s)))"
| "sys_exec (Act env) s =
     map_option (\<lambda>(al, w, _, executed). s\<lparr>sy_action := al, sy_executed := executed,
         sy_kernel := (sy_kernel s)\<lparr>xs_blocklist := aw_blocklist w\<rparr>, sy_tcp_sent := aw_sent w, sy_logged := aw_logged w\<rparr>)
       (al_exec (Run_next (env\<lparr>ae_blocklist := gp_blocklist (sy_program s)\<rparr>))
          (sy_action s, \<lparr>aw_blocklist = xs_blocklist (sy_kernel s), aw_sent = sy_tcp_sent s, aw_logged = sy_logged s\<rparr>,
           [], sy_executed s))"
| "sys_exec Stop_request s =
     Some (s\<lparr>sy_detect := (sy_detect s)\<lparr>dl_stop := True\<rparr>, sy_sweep := (sy_sweep s)\<lparr>st_stop := True\<rparr>\<rparr>)"

text \<open>Where the kernel's part of a step keeps what is documented of it.\<close>

fun kernel_ok :: "sys_label \<Rightarrow> bool" where
  "kernel_ok (Packet upd env pkt) \<longleftrightarrow> bpf_lru_map upd \<and> length (xe_comm env) = 16"
| "kernel_ok (Probe k env st) \<longleftrightarrow> ssl_step_ok k env st"
| "kernel_ok (Open_file d_path shadow env path) \<longleftrightarrow> length (le_comm env) = 16"
| "kernel_ok (Act env) \<longleftrightarrow> bpf_hash_map (ae_update env)"
| "kernel_ok _ \<longleftrightarrow> True"

text \<open>The state in which \<open>main\<close> enters the poll loop, if it does, with fresh kernel maps.\<close>

definition sys_start :: "main_env \<Rightarrow> string list \<Rightarrow> system option" where
  "sys_start env argv =
     (let cfg = parse_args argv; d = daemon_init env cfg; (ok, p) = loadFilter (me_bpf env) (dm_program d) in
      if me_create_directories env (parent_path (cfg_output_path cfg)) \<and> ok
      then Some \<lparr>sy_kernel = \<lparr>xs_blocklist = Map.empty, xs_conn_rate = Map.empty, xs_events = []\<rparr>,
              sy_ssl = ssl_init, sy_lsm = [], sy_ring = [], sy_program = p, sy_detect = dm_detect d,
              sy_sweep = daemon_sweeps env cfg p, sy_walk = [], sy_action = dm_action d, sy_executed = [],
              sy_tcp_sent = [], sy_logged = []\<rparr>
      else None)"

inductive sys_reach :: "main_env \<Rightarrow> string list \<Rightarrow> sys_label list \<Rightarrow> system \<Rightarrow> bool" for env argv where
  init: "sys_start env argv = Some s \<Longrightarrow> sys_reach env argv [] s"
| step: "sys_reach env argv ls s \<Longrightarrow> kernel_ok l \<Longrightarrow> sys_exec l s = Some s' \<Longrightarrow> sys_reach env argv (ls @ [l]) s'"

inductive_cases sys_reach_snocE: "sys_reach env argv (ls @ [l]) s"

section \<open>The history\<close>

fun packet_of :: "u32 \<Rightarrow> sys_label \<Rightarrow> bool" where
  "packet_of a (Packet upd env pkt) \<longleftrightarrow> is_ipv4 pkt \<and> pkt_saddr pkt = a"
| "packet_of a _ \<longleftrightarrow> False"

definition sent_by :: "u32 \<Rightarrow> sys_label list \<Rightarrow> nat" where
  "sent_by a ls = length (filter (packet_of a) ls)"

lemma sent_by_snoc: "sent_by a (ls @ [l]) = sent_by a ls + (if packet_of a l then 1 else 0)"
  by (simp add: sent_by_def)

definition xdp_offence :: "xdp_event \<Rightarrow> bool" where
  "xdp_offence e \<longleftrightarrow> tls_violation e \<or> attack_signature (boundedString (xt_payload_snippet (xdp_tls e)))"

definition uprobe_offence :: "uprobe_event \<Rightarrow> bool" where
  "uprobe_offence u \<longleftrightarrow> uprobe_tls_violation u \<or> attack_signature (boundedString (ut_payload_snippet (up_tls u)))"

text \<open>The probes of a run, in order.\<close>

fun probe_of :: "sys_label \<Rightarrow> (ssl_env \<times> ssl_step) option" where
  "probe_of (Probe k env st) = Some (env, st)"
| "probe_of _ = None"

definition probes :: "sys_label list \<Rightarrow> (ssl_env \<times> ssl_step) list" where
  "probes ls = List.map_filter probe_of ls"

lemma probes_snoc [simp]: "probes (ls @ [l]) = probes ls @ (case probe_of l of None \<Rightarrow> [] | Some p \<Rightarrow> [p])"
  by (simp add: probes_def map_filter_def split: option.split)

lemma probes_append: "probes (ls @ ls') = probes ls @ probes ls'"
  by (simp add: probes_def map_filter_def)

text \<open>What the resolver a worker used named as the peer of the process behind an event.\<close>

definition resolver_named :: "sys_label list \<Rightarrow> uprobe_event \<Rightarrow> u32 \<Rightarrow> bool" where
  "resolver_named ls u a \<longleftrightarrow> (\<exists>res dump now i f ok peer. Finish_record res dump now i f ok \<in> set ls \<and>
     peer = em_remote_ip (snd (res ((uprobe_fill True u EventMeta_init)\<lparr>em_peer_attempted := True\<rparr>))) \<and>
     isSet peer \<and> ip_family peer = kV4 \<and> v4 peer = a)"

text \<open>The reasons for which an address may be blocked: an offending packet of its own; offending traffic of a
  process on this machine that was attributed to it, by a binding of the probes and then the address is the
  peer of a port-443 socket a thread used, or without one by the resolver; more packets
  than a configured limit allows.\<close>

definition justified :: "string list \<Rightarrow> sys_label list \<Rightarrow> xdp_event list \<Rightarrow> uprobe_event list \<Rightarrow> u32 \<Rightarrow> bool" where
  "justified argv ls es us a \<longleftrightarrow>
     (\<exists>e \<in> set es. xdp_offence e \<and> ct_src_ip_v4 (xdp_conn e) = a \<and> 0 < sent_by a ls)
   \<or> (\<exists>u \<in> set us. uprobe_offence u \<and>
        (if uc_resolved (up_resolved_conn u) = 0 then resolver_named ls u a
         else attributed (probes ls) (up_resolved_conn u) \<and> touched_peer (probes ls) a))
   \<or> (\<exists>k \<in> {6, 7, 8}. 0 < arg_number k argv \<and> unat (arg_number k argv) \<le> sent_by a ls)"

section \<open>What a packet changes\<close>

lemma packet_blocklist: "dom (xs_blocklist (snd (https_guard_xdp upd env st pkt))) \<subseteq> dom (xs_blocklist st)"
proof (cases "is_ipv4 pkt \<and> pkt_saddr pkt \<notin> blocked (xe_now_check env) (xs_blocklist st)")
  case True
  let ?m = "snd (blocklist_check (xe_now_check env) (xs_blocklist st) (pkt_saddr pkt))"
  have m: "dom ?m \<subseteq> dom (xs_blocklist st)"
    by (auto simp: blocklist_check_def split: option.splits if_splits)
  show ?thesis
    by (rule https_guard_xdp_rule [OF conjunct1 [OF True] conjunct2 [OF True]])
      (use m in \<open>auto simp: xdp_handshake_def xdp_plaintext_def Let_def\<close>)
qed (use https_guard_xdp_not_ipv4 https_guard_xdp_blocked in fastforce)

lemma packet_events:
  "xs_events (snd (https_guard_xdp upd env st pkt)) = xs_events st \<or>
   (\<exists>e. is_ipv4 pkt \<and> event_of_source env (pkt_saddr pkt) e \<and>
        xs_events (snd (https_guard_xdp upd env st pkt)) = xs_events st @ [e])"
proof (cases "is_ipv4 pkt \<and> pkt_saddr pkt \<notin> blocked (xe_now_check env) (xs_blocklist st)")
  case True
  with explained_xdp [of pkt env st upd] show ?thesis by (auto simp: explained_def)
qed (use https_guard_xdp_not_ipv4 https_guard_xdp_blocked in fastforce)

text \<open>The counters of a map whose entries are bounded by what each source sent, \<open>A\<close> attempts and \<open>H\<close>
  handshakes.\<close>

definition counters_ok :: "(u32 \<Rightarrow> nat) \<Rightarrow> (u32 \<Rightarrow> nat) \<Rightarrow> conn_rate_map \<Rightarrow> bool" where
  "counters_ok A H m \<longleftrightarrow> (\<forall>b e. m b = Some e \<longrightarrow> charged_at_most (A b) (H b) e)"

lemma counters_ok_mono:
  "counters_ok A H m \<Longrightarrow> (\<And>b. A b \<le> A' b) \<Longrightarrow> (\<And>b. H b \<le> H' b) \<Longrightarrow> counters_ok A' H' m"
  unfolding counters_ok_def by (blast intro: charged_mono)

lemma counters_ok_record:
  assumes "counters_ok A H m" "bpf_lru_map upd"
  shows "counters_ok (\<lambda>b. A b + (if b = ip \<and> w = HG_CONN_ATTEMPT then 1 else 0))
     (\<lambda>b. H b + (if b = ip \<and> w = HG_CONN_HELLO then 1 else 0)) (conn_rate_record upd t m ip w)"
  unfolding counters_ok_def
proof (intro allI impI)
  fix b e
  assume e: "conn_rate_record upd t m ip w b = Some e"
  have old: "\<And>e0. m b = Some e0 \<Longrightarrow> charged_at_most (A b) (H b) e0" using assms(1) by (simp add: counters_ok_def)
  show "charged_at_most (A b + (if b = ip \<and> w = HG_CONN_ATTEMPT then 1 else 0))
      (H b + (if b = ip \<and> w = HG_CONN_HELLO then 1 else 0)) e"
  proof (cases "b = ip")
    case True
    with e conn_rate_record_own [OF assms(2)] have "conn_rate_entry t w (m b) = Some e" by simp
    from charged_entry [OF this old] True show ?thesis by simp
  next
    case False
    with e conn_rate_record_other [OF bpf_lru_map.axioms(1) [OF assms(2)] False, of t m w] old show ?thesis by auto
  qed
qed

lemma counters_ok_flags:
  assumes "counters_ok N N (xs_conn_rate st)" "bpf_lru_map upd"
  shows "counters_ok (N(ip := Suc (N ip))) N (xs_conn_rate (xdp_count_flags upd env st ip flags))"
proof -
  have "counters_ok (N(ip := Suc (N ip))) N (conn_rate_record upd (xe_now_flags env) (xs_conn_rate st) ip w)"
    if "w \<noteq> HG_CONN_HELLO" for w
    by (rule counters_ok_mono [OF counters_ok_record [OF assms, of ip w]]) (use that in auto)
  moreover have "counters_ok (N(ip := Suc (N ip))) N (xs_conn_rate st)"
    by (rule counters_ok_mono [OF assms(1)]) auto
  ultimately show ?thesis by (simp add: xdp_count_flags_def)
qed

lemma packet_counters:
  assumes "counters_ok N N (xs_conn_rate st)" "bpf_lru_map upd"
  shows "counters_ok (\<lambda>b. N b + (if is_ipv4 pkt \<and> pkt_saddr pkt = b then 1 else 0))
     (\<lambda>b. N b + (if is_ipv4 pkt \<and> pkt_saddr pkt = b then 1 else 0)) (xs_conn_rate (snd (https_guard_xdp upd env st pkt)))"
    (is "counters_ok ?N ?N _")
proof (cases "is_ipv4 pkt \<and> pkt_saddr pkt \<notin> blocked (xe_now_check env) (xs_blocklist st)")
  case True
  let ?ip = "pkt_saddr pkt"
  let ?st = "st\<lparr>xs_blocklist := snd (blocklist_check (xe_now_check env) (xs_blocklist st) ?ip)\<rparr>"
  have fl: "counters_ok (N(?ip := Suc (N ?ip))) N (xs_conn_rate (xdp_count_flags upd env ?st ?ip flags))" for flags
    using counters_ok_flags [OF _ assms(2), of N ?st] assms(1) by simp
  have weak: "counters_ok ?N ?N m" if "counters_ok (N(?ip := Suc (N ?ip))) N m" for m
    by (rule counters_ok_mono [OF that]) (use True in auto)
  have hello: "counters_ok ?N ?N (conn_rate_record upd t m ?ip HG_CONN_HELLO)"
    if "counters_ok (N(?ip := Suc (N ?ip))) N m" for m t
    by (rule counters_ok_mono [OF counters_ok_record [OF that assms(2), of ?ip HG_CONN_HELLO]]) (use True in auto)
  show ?thesis
    by (rule https_guard_xdp_rule [OF conjunct1 [OF True] conjunct2 [OF True]])
      (use weak [OF fl] hello [OF fl] counters_ok_mono [OF assms(1)] in \<open>auto simp: xdp_handshake_def xdp_plaintext_def Let_def\<close>)
next
  case False
  then have "snd (https_guard_xdp upd env st pkt) = st"
    using https_guard_xdp_not_ipv4 https_guard_xdp_blocked by fastforce
  then show ?thesis by (simp only:) (rule counters_ok_mono [OF assms(1)], auto)
qed

section \<open>What the other steps change\<close>

lemma probe_events:
  "ss_events (ssl_exec k (env, step) s) = ss_events s \<or>
   (\<exists>u. hdr_event_source (up_hdr u) = HG_SOURCE_UPROBE \<and> ss_events (ssl_exec k (env, step) s) = ss_events s @ [u])"
proof -
  have "hdr_event_source (up_hdr (ssl_event env s' d ssl buf num)) = HG_SOURCE_UPROBE" for s' d ssl buf num
    by (simp add: ssl_event_def fill_uprobe_event_fields_def Let_def)
  then show ?thesis
    by (cases step)
      (auto simp: https_guard_tcp_msg_def https_guard_ssl_handshake_def bind_session_from_thread_def https_guard_ssl_free_def
        https_guard_ssl_write_def https_guard_ssl_read_entry_def https_guard_ssl_read_exit_def Let_def split: option.split)
qed

lemma cert_events:
  "snd (https_guard_cert_open d shadow env path evs) = evs \<or>
   (\<exists>l. hdr_event_source (lsm_hdr l) = HG_SOURCE_LSM_CERT_GUARD \<and> (length (le_comm env) = 16 \<longrightarrow> wf_lsm_event l) \<and>
      snd (https_guard_cert_open d shadow env path evs) = evs @ [l])"
proof -
  have "hdr_event_source (lsm_hdr (lsm_event env shadow c)) = HG_SOURCE_LSM_CERT_GUARD" for c by (simp add: lsm_event_def)
  then show ?thesis by (auto simp: https_guard_cert_open_def Let_def intro: lsm_event_wf)
qed

lemma lsm_never_actionable:
  "first_verdict (lsm_detections rl exes) data = Some (n, v, m) \<Longrightarrow> \<not> actionable v"
  by (auto simp: lsm_detections_def CertAccessDetection_inspect_def CertAccessDetector_evaluate_def
      TrafficObservedDetection_inspect_def Let_def split: option.splits prod.splits if_splits)

lemma dispatched_add:
  assumes "BlocklistAdd b \<in> set (dispatched res dump now m v ctx)"
  shows "actionable v \<and> isSet (em_remote_ip (snd (ensurePeerResolved res m)))
     \<and> ip_family (em_remote_ip (snd (ensurePeerResolved res m))) = kV4
     \<and> act_src_ip_v4 b = v4 (em_remote_ip (snd (ensurePeerResolved res m)))"
  using in_dispatched [OF assms] in_enforcement(1,2) by fastforce

lemma process_group:
  assumes "rec_detections r = as_detections ds"
  shows "process res dump now r s = None \<or> process res dump now r s = Some s \<or> (\<exists>n. process res dump now r s = Some (s\<lparr>dl_undetected := n\<rparr>)) \<or>
     (\<exists>n v m. first_verdict ds (rec_bytes r) = Some (n, v, m) \<and>
        process res dump now r s = Some (s\<lparr>dl_pushed := dl_pushed s @ [dispatched res dump now m v (dl_ctx s)]\<rparr>))"
proof (cases "first_verdict ds (rec_bytes r)")
  case None
  then show ?thesis using first_claim_listed [of "rec_bytes r" ds] by (auto simp: process_def Let_def assms)
next
  case (Some c)
  obtain n v m where c: "c = (n, v, m)" by (cases c)
  show ?thesis using first_claim_listed [of "rec_bytes r" ds]
    by (cases "dispatchVerdict res dump now m v (dl_ctx s)") (auto simp: process_def Let_def assms Some c dispatched_def)
qed

lemma finish_step:
  assumes "dl_exec res dump now (Finish i fault) dl = Some (out, dl')"
    and "\<And>r. r \<in> set (dl_running dl) \<Longrightarrow> \<exists>ds. rec_detections r = as_detections ds"
  shows "dl_queue dl' = dl_queue dl \<and> set (dl_running dl') \<subseteq> set (dl_running dl) \<and> dl_ctx dl' = dl_ctx dl \<and>
     (drop (length (dl_pushed dl)) (dl_pushed dl') = [] \<or>
      (\<exists>r ds n v m. r \<in> set (dl_running dl) \<and> rec_detections r = as_detections ds \<and>
         first_verdict ds (rec_bytes r) = Some (n, v, m) \<and>
         drop (length (dl_pushed dl)) (dl_pushed dl') = [dispatched res dump now m v (dl_ctx dl)]))"
proof -
  define r where "r = dl_running dl ! i"
  have i: "i < length (dl_running dl)" "dl' = handleRecord_finish res dump now fault r (dl\<lparr>dl_running := remove_nth i (dl_running dl)\<rparr>)"
    using assms(1) by (auto simp: r_def Let_def split: if_splits)
  have r: "r \<in> set (dl_running dl)" using i(1) by (simp add: r_def)
  then obtain ds where ds: "rec_detections r = as_detections ds" using assms(2) by blast
  have sub: "set (remove_nth i (dl_running dl)) \<subseteq> set (dl_running dl)"
    by (auto simp: remove_nth_def dest: in_set_takeD in_set_dropD)
  let ?dl = "dl\<lparr>dl_running := remove_nth i (dl_running dl)\<rparr>"
  consider "dl_pushed dl' = dl_pushed dl"
    | n v m where "first_verdict ds (rec_bytes r) = Some (n, v, m)"
        "dl_pushed dl' = dl_pushed dl @ [dispatched res dump now m v (dl_ctx dl)]"
    using process_group [OF ds, of res dump now ?dl] i(2) by (cases fault) (auto simp: handleRecord_finish_def)
  then have "drop (length (dl_pushed dl)) (dl_pushed dl') = [] \<or>
      (\<exists>r ds n v m. r \<in> set (dl_running dl) \<and> rec_detections r = as_detections ds \<and>
         first_verdict ds (rec_bytes r) = Some (n, v, m) \<and>
         drop (length (dl_pushed dl)) (dl_pushed dl') = [dispatched res dump now m v (dl_ctx dl)])"
  proof cases
    case (2 n v m)
    then have "drop (length (dl_pushed dl)) (dl_pushed dl') = [dispatched res dump now m v (dl_ctx dl)]" by simp
    with 2(1) r ds show ?thesis by blast
  qed simp
  then show ?thesis using sub i(2) by (auto simp: handleRecord_finish_def process_frame split: option.split)
qed

section \<open>Where everything comes from\<close>

lemma event_of_source_wf:
  "event_of_source env saddr e \<Longrightarrow> length (xe_comm env) = 16 \<Longrightarrow> wf_xdp_event e"
  by (simp add: event_of_source_def wf_xdp_event_def wf_hdr_def wf_client_hello_def fill_hdr_def)

lemma xdp_fill_remote:
  "em_remote_ip (snd (ensurePeerResolved resolve (xdp_fill e EventMeta_init))) =
     setV4 (ct_src_ip_v4 (xdp_conn e)) IpAddress_init"
  by (simp add: ensurePeerResolved_no_resolver xdp_fill_def fillConnection_def fillEnvelope_def EventMeta_init_def)

text \<open>The kernel's events: each carries its program's source, and one of the packet path is of a packet
  that arrived.\<close>

definition events_ok :: "sys_label list \<Rightarrow> system \<Rightarrow> bool" where
  "events_ok ls s \<longleftrightarrow>
     (\<forall>e \<in> set (xs_events (sy_kernel s)). wf_xdp_event e \<and> hdr_event_source (xdp_hdr e) = HG_SOURCE_XDP \<and>
        0 < sent_by (ct_src_ip_v4 (xdp_conn e)) ls) \<and>
     ssl_wf (sy_ssl s) \<and> attributions_ok (probes ls) (sy_ssl s) \<and> (\<forall>u \<in> set (ss_events (sy_ssl s)). hdr_event_source (up_hdr u) = HG_SOURCE_UPROBE) \<and>
     (\<forall>l \<in> set (sy_lsm s). wf_lsm_event l \<and> hdr_event_source (lsm_hdr l) = HG_SOURCE_LSM_CERT_GUARD)"

text \<open>The bytes in the ring buffer and the records in the detect loop are such events, the latter with the
  detections of their program.\<close>

definition genuine_bytes :: "system \<Rightarrow> u8 list \<Rightarrow> bool" where
  "genuine_bytes s bs \<longleftrightarrow> bs \<in> encode_xdp_event ` set (xs_events (sy_kernel s))
     \<union> encode_uprobe_event ` set (ss_events (sy_ssl s)) \<union> encode_lsm_event ` set (sy_lsm s)"

definition genuine_record :: "string \<Rightarrow> system \<Rightarrow> raw_record \<Rightarrow> bool" where
  "genuine_record sni s r \<longleftrightarrow>
     (\<exists>e \<in> set (xs_events (sy_kernel s)). rec_bytes r = encode_xdp_event e \<and> rec_detections r = as_detections (xdp_detections sni)) \<or>
     (\<exists>u \<in> set (ss_events (sy_ssl s)). rec_bytes r = encode_uprobe_event u \<and> rec_detections r = as_detections uprobe_detections) \<or>
     (\<exists>l \<in> set (sy_lsm s). rec_bytes r = encode_lsm_event l \<and>
        (\<exists>rl. rec_detections r = as_detections (lsm_detections rl kAllowedCertExes)))"

definition records_ok :: "string \<Rightarrow> system \<Rightarrow> bool" where
  "records_ok sni s \<longleftrightarrow> (\<forall>bs \<in> set (sy_ring s). genuine_bytes s bs) \<and>
     (\<forall>r \<in> set (dl_queue (sy_detect s)) \<union> set (dl_running (sy_detect s)). genuine_record sni s r)"

definition rates_ok :: "sys_label list \<Rightarrow> system \<Rightarrow> bool" where
  "rates_ok ls s \<longleftrightarrow> counters_ok (\<lambda>b. sent_by b ls) (\<lambda>b. sent_by b ls) (xs_conn_rate (sy_kernel s)) \<and>
     (\<forall>k e. (k, Some e) \<in> set (sy_walk s) \<longrightarrow> charged_at_most (sent_by k ls) (sent_by k ls) e)"

definition setup_ok :: "main_env \<Rightarrow> string list \<Rightarrow> system \<Rightarrow> bool" where
  "setup_ok env argv s \<longleftrightarrow> gp_reach True (main_hooks env argv) (sy_program s, sy_detect s) \<and> gp_ring_buffer (sy_program s) \<noteq> None \<and>
     (\<forall>sw. st_rate (sy_sweep s) = Some sw \<longrightarrow> rate_enabled sw \<and> rs_thresholds sw =
        \<lparr>th_connection_rate = arg_number 6 argv, th_open_conns = arg_number 7 argv, th_handshakes = arg_number 8 argv\<rparr>)"

text \<open>The addresses a spawned coroutine would block.\<close>

fun blocks :: "spawned \<Rightarrow> u32 set" where
  "blocks (One a) = {act_src_ip_v4 b | b. a = BlocklistAdd b}"
| "blocks (Many as) = {act_src_ip_v4 b | b. Some (BlocklistAdd b) \<in> set as}"

definition actions_ok :: "string list \<Rightarrow> sys_label list \<Rightarrow> system \<Rightarrow> bool" where
  "actions_ok argv ls s \<longleftrightarrow>
     (\<forall>a \<in> dom (xs_blocklist (sy_kernel s)) \<union> \<Union> (blocks ` set (al_pending (sy_action s))).
        justified argv ls (xs_events (sy_kernel s)) (ss_events (sy_ssl s)) a)"

section \<open>The invariant is kept\<close>

lemma sent_by_mono: "sent_by a ls \<le> sent_by a (ls @ ls')"
  by (simp add: sent_by_def)

lemma justified_mono:
  assumes "justified argv ls es us a"
  shows "justified argv (ls @ ls') (es @ es') (us @ us') a"
proof -
  have rn: "resolver_named ls u a \<Longrightarrow> resolver_named (ls @ ls') u a" for u
    unfolding resolver_named_def set_append by blast
  show ?thesis using assms sent_by_mono [of a ls ls'] unfolding justified_def
  proof (elim disjE, goal_cases)
    case 1
    then show ?case by (intro disjI1) fastforce
  next
    case 2
    then show ?case using attributed_mono touched_peer_mono rn unfolding probes_append by (intro disjI2 disjI1) (auto split: if_splits)
  next
    case 3
    then show ?case by (intro disjI2) (auto dest: le_trans)
  qed
qed

lemma sweepAll_result:
  assumes "sweepAll disp inp st = Some (groups, ssl, st')"
  shows "ss_events ssl = ss_events (si_ssl inp)" and "ssl_wf (si_ssl inp) \<Longrightarrow> ssl_wf ssl"
    and "groups = fst (sweep_rates disp inp (st_rate st))"
    and "st_rate st' = snd (sweep_rates disp inp (st_rate st))"
    and "attributions_ok steps (si_ssl inp) \<Longrightarrow> attributions_ok steps ssl"
proof -
  have ssl: "ss_thread_tuple_map ssl \<subseteq>\<^sub>m ss_thread_tuple_map (si_ssl inp)" "ss_session_tuple_map ssl \<subseteq>\<^sub>m ss_session_tuple_map (si_ssl inp)"
    and ev: "ss_events ssl = ss_events (si_ssl inp)"
    using assms by (auto simp: sweepAll_def sweep_tuples_def Let_def split: prod.splits option.splits dest: tuple_sweep_removes)
  show "ss_events ssl = ss_events (si_ssl inp)" by (fact ev)
  have "m' k = Some x \<Longrightarrow> m' \<subseteq>\<^sub>m m \<Longrightarrow> m k = Some x" for m m' :: "u64 \<rightharpoonup> hg_bound_tuple" and k x
    by (metis domI map_le_def)
  then show "ssl_wf (si_ssl inp) \<Longrightarrow> ssl_wf ssl" using ssl ev unfolding ssl_wf_def by metis
  show "attributions_ok steps (si_ssl inp) \<Longrightarrow> attributions_ok steps ssl" by (rule attributions_ok_sub [OF _ ev ssl])
  show "groups = fst (sweep_rates disp inp (st_rate st))" "st_rate st' = snd (sweep_rates disp inp (st_rate st))"
    using assms by (auto simp: sweepAll_def armSweepTimer_def Let_def split: prod.splits option.splits if_splits)
qed

text \<open>A step only adds to the kernel's events.\<close>

lemma sys_events_grow:
  assumes "sys_exec l s = Some s'"
  shows "\<exists>es us as. xs_events (sy_kernel s') = xs_events (sy_kernel s) @ es \<and> ss_events (sy_ssl s') = ss_events (sy_ssl s) @ us
     \<and> sy_lsm s' = sy_lsm s @ as"
proof (cases l)
  case (Packet upd env pkt)
  then show ?thesis using assms packet_events [of upd env "sy_kernel s" pkt] by (auto simp: Let_def)
next
  case (Probe k env st)
  then show ?thesis using assms probe_events [of k env st "sy_ssl s"] by (auto simp: Let_def)
next
  case (Open_file d sh env path)
  then show ?thesis using assms cert_events [of d sh env path "sy_lsm s"] by (auto simp: Let_def)
next
  case (End_sweep res dump now inp ok)
  then show ?thesis using assms by (auto split: if_splits dest: sweepAll_result(1))
qed (use assms in \<open>auto simp: Let_def split: if_splits prod.splits\<close>)

lemma events_ok_step:
  assumes "sys_exec l s = Some s'" "kernel_ok l" "events_ok ls s"
  shows "events_ok (ls @ [l]) s'"
proof -
  have old: "\<And>b. 0 < sent_by b ls \<Longrightarrow> 0 < sent_by b (ls @ [l])" by (simp add: sent_by_snoc)
  show ?thesis
  proof (cases l)
    case (Packet upd env pkt)
    from packet_events [of upd env "sy_kernel s" pkt] show ?thesis
    proof (elim disjE exE conjE)
      fix e
      assume e: "is_ipv4 pkt" "event_of_source env (pkt_saddr pkt) e"
        "xs_events (snd (https_guard_xdp upd env (sy_kernel s) pkt)) = xs_events (sy_kernel s) @ [e]"
      have "wf_xdp_event e" using event_of_source_wf [OF e(2)] assms(2) Packet by simp
      moreover have "hdr_event_source (xdp_hdr e) = HG_SOURCE_XDP" "ct_src_ip_v4 (xdp_conn e) = pkt_saddr pkt"
        using e(2) by (simp_all add: event_of_source_def fill_hdr_def)
      moreover have "0 < sent_by (pkt_saddr pkt) (ls @ [l])" using e(1) Packet by (simp add: sent_by_snoc)
      ultimately show ?thesis using assms(1,3) Packet e(3) old by (auto simp: events_ok_def Let_def)
    qed (use assms Packet old in \<open>auto simp: events_ok_def Let_def\<close>)
  next
    case (Probe k env st)
    then show ?thesis using assms old probe_events [of k env st "sy_ssl s"] ssl_wf_exec [of k env st "sy_ssl s"]
      attributions_ok_exec [of k "probes ls" "sy_ssl s" "(env, st)"] ssl_step_ok_kernel [of k env st]
      by (auto simp: events_ok_def Let_def)
  next
    case (Open_file d sh env path)
    then show ?thesis using assms old cert_events [of d sh env path "sy_lsm s"] by (auto simp: events_ok_def Let_def)
  next
    case (End_sweep res dump now inp ok)
    then obtain groups ssl st where sw: "sweepAll (sweep_dispatch res dump now (dl_ctx (sy_detect s)))
        (inp\<lparr>si_walk := sy_walk s, si_ssl := sy_ssl s\<rparr>) (sy_sweep s) = Some (groups, ssl, st)"
      and s': "sy_kernel s' = sy_kernel s" "sy_ssl s' = ssl" "sy_lsm s' = sy_lsm s" using assms(1) by (auto split: if_splits)
    show ?thesis using assms(3) old sweepAll_result(1,2,5) [OF sw] s' End_sweep by (auto simp: events_ok_def)
  qed (use assms old in \<open>auto simp: events_ok_def Let_def split: if_splits prod.splits\<close>)
qed

lemma rates_ok_step:
  assumes "sys_exec l s = Some s'" "kernel_ok l" "rates_ok ls s"
  shows "rates_ok (ls @ [l]) s'"
proof -
  have walk: "charged_at_most (sent_by k (ls @ [l])) (sent_by k (ls @ [l])) e"
    if "charged_at_most (sent_by k ls) (sent_by k ls) e" for k e
    by (rule charged_mono [OF that]) (simp_all add: sent_by_mono)
  show ?thesis
  proof (cases l)
    case (Packet upd env pkt)
    have "(\<lambda>b. sent_by b ls + (if is_ipv4 pkt \<and> pkt_saddr pkt = b then 1 else 0)) = (\<lambda>b. sent_by b (ls @ [l]))"
      by (auto simp: Packet sent_by_snoc)
    with packet_counters [of "\<lambda>b. sent_by b ls" "sy_kernel s" upd pkt env] assms Packet walk show ?thesis
      by (auto simp: rates_ok_def Let_def)
  next
    case (End_sweep res dump now inp ok)
    then have "sy_kernel s' = sy_kernel s" "sy_walk s' = []" using assms(1) by (auto split: if_splits)
    then show ?thesis using assms(3) walk by (auto simp: rates_ok_def counters_ok_def)
  next
    case (Observe k)
    then show ?thesis using assms walk by (auto simp: rates_ok_def counters_ok_def split: if_splits)
  next
    case (Poll_ring rl rc oks)
    then have "sy_kernel s' = sy_kernel s" "sy_walk s' = sy_walk s" using assms(1) by (auto simp: Let_def split: if_splits prod.splits)
    then show ?thesis using assms(3) walk by (auto simp: rates_ok_def counters_ok_def)
  qed (use assms walk in \<open>auto simp: rates_ok_def counters_ok_def Let_def\<close>)
qed

lemma sweep_rates_keeps:
  assumes "snd (sweep_rates disp inp rate) = Some sw'"
  shows "\<exists>sw. rate = Some sw \<and> rs_thresholds sw' = rs_thresholds sw \<and> rate_enabled sw' = rate_enabled sw"
  using assms
  by (auto simp: sweep_rates_def rate_sweep_def rate_enabled_def Let_def split: option.splits prod.splits if_splits)

lemma setup_ok_step:
  assumes "sys_exec l s = Some s'" "setup_ok env argv s"
  shows "setup_ok env argv s'"
proof (cases l)
  case (Poll_ring rl rc oks)
  obtain rc' p dl where e: "pollEvents rl (rc, zip (sy_ring s) oks) (sy_program s, sy_detect s) = (rc', p, dl)"
    by (metis prod_cases3)
  have s': "sy_program s' = p" "sy_detect s' = dl" "sy_sweep s' = sy_sweep s"
    using assms(1) Poll_ring e by (auto split: if_splits)
  obtain n where "p = (sy_program s)\<lparr>gp_unknown_source_count := n\<rparr>" using pollEvents_frame [OF e] by blast
  moreover have "gp_reach True (main_hooks env argv) (p, dl)"
    using gp_reach.step [of True _ "(sy_program s, sy_detect s)" "Poll rl rc (zip (sy_ring s) oks)"] e assms(2) by (simp add: setup_ok_def)
  ultimately show ?thesis using assms(2) s' by (simp add: setup_ok_def)
next
  case (End_sweep res dump now inp ok)
  then obtain groups ssl st where sw: "sweepAll (sweep_dispatch res dump now (dl_ctx (sy_detect s)))
      (inp\<lparr>si_walk := sy_walk s, si_ssl := sy_ssl s\<rparr>) (sy_sweep s) = Some (groups, ssl, st)"
    and s': "sy_program s' = sy_program s" "sy_detect s' = sy_detect s" "sy_sweep s' = st"
    using assms(1) by (auto split: if_splits)
  show ?thesis using assms(2) s' sweepAll_result(4) [OF sw] by (auto simp: setup_ok_def dest!: sweep_rates_keeps)
next
  case (Timer_posted arm_ok)
  then show ?thesis using assms by (auto simp: setup_ok_def armSweepTimer_def split: if_splits)
next
  case (Timer_fire ec spawn_ok arm_ok)
  then show ?thesis using assms by (auto simp: setup_ok_def sweep_timer_handler_def armSweepTimer_def split: if_splits)
qed (use assms in \<open>auto simp: setup_ok_def Let_def intro: gp_reach.others split: if_splits\<close>)

lemma genuine_bytes_route:
  assumes "events_ok ls s" "genuine_bytes s bs" "record_source bs = Some src" "route rl sni src = Some ds"
  shows "genuine_record sni s \<lparr>rec_bytes = bs, rec_detections = as_detections ds\<rparr>"
  using assms record_source_encode [of _ "[]", simplified]
  by (auto simp: genuine_bytes_def genuine_record_def events_ok_def route_def HG_SOURCE_XDP_def HG_SOURCE_UPROBE_def
      HG_SOURCE_LSM_CERT_GUARD_def)

lemma routed_frame:
  "dl_running (routed rl sni x dl) = dl_running dl"
  "dl_queue (routed rl sni x dl) = dl_queue dl \<or> (\<exists>src ds. record_source (fst x) = Some src \<and> route rl sni src = Some ds \<and>
     dl_queue (routed rl sni x dl) = dl_queue dl @ [\<lparr>rec_bytes = fst x, rec_detections = as_detections ds\<rparr>])"
  by (cases x; auto simp: routed_def submit_def countDrop_def Let_def bind_eq_Some_conv split: option.split)+

lemma fold_routed_records:
  assumes "events_ok ls s" "\<And>x. x \<in> set xs \<Longrightarrow> genuine_bytes s (fst x)"
    and "\<And>r. r \<in> set (dl_queue dl) \<union> set (dl_running dl) \<Longrightarrow> genuine_record sni s r"
    and "r \<in> set (dl_queue (fold (routed rl sni) xs dl)) \<union> set (dl_running (fold (routed rl sni) xs dl))"
  shows "genuine_record sni s r"
  using assms
proof (induction xs arbitrary: dl)
  case (Cons x xs)
  have "genuine_record sni s r" if "r \<in> set (dl_queue (routed rl sni x dl)) \<union> set (dl_running (routed rl sni x dl))" for r
    using that routed_frame [of rl sni x dl] Cons.prems(3) genuine_bytes_route [OF Cons.prems(1) Cons.prems(2) [of x]] by auto
  then show ?case using Cons.IH [OF Cons.prems(1), of "routed rl sni x dl"] Cons.prems(2,4) by simp
qed auto

lemma poll_routed:
  assumes "setup_ok env argv s"
  shows "pollEvents rl (rc, samples) (sy_program s, sy_detect s) =
     (rc, (sy_program s)\<lparr>gp_unknown_source_count := gp_unknown_source_count (sy_program s) +
             of_nat (length (filter (unrouted rl (cfg_expected_sni (parse_args argv))) samples))\<rparr>,
      fold (routed rl (cfg_expected_sni (parse_args argv))) samples (sy_detect s))"
proof -
  have "gp_reach True (buildHookModules (cfg_openssl_lib_path (parse_args argv)) (me_if_nametoindex env (cfg_iface (parse_args argv)))
      (cfg_expected_sni (parse_args argv))) (sy_program s, sy_detect s)"
    using assms by (simp add: setup_ok_def main_hooks_def Let_def)
  from deliver_routed [OF hookFor_route [OF this], of rl samples "sy_detect s"] show ?thesis
    using assms by (auto simp: pollEvents_def setup_ok_def)
qed

lemma genuine_mono:
  assumes "sys_exec l s = Some s'"
  shows "genuine_bytes s bs \<Longrightarrow> genuine_bytes s' bs" "genuine_record sni s r \<Longrightarrow> genuine_record sni s' r"
  using sys_events_grow [OF assms] by (fastforce simp: genuine_bytes_def genuine_record_def)+

lemma genuine_listed: "genuine_record sni s r \<Longrightarrow> \<exists>ds. rec_detections r = as_detections ds"
  by (auto simp: genuine_record_def)

text \<open>What a step makes of the ring buffer and of the detect loop.\<close>

lemma ring_step:
  assumes "sys_exec l s = Some s'" "bs \<in> set (sy_ring s')"
  shows "bs \<in> set (sy_ring s) \<or> genuine_bytes s' bs"
proof (cases l)
  case (Packet upd env pkt)
  then show ?thesis using assms packet_events [of upd env "sy_kernel s" pkt]
    by (auto simp: submitted_def genuine_bytes_def Let_def)
next
  case (Probe k env st)
  then show ?thesis using assms probe_events [of k env st "sy_ssl s"] by (auto simp: submitted_def genuine_bytes_def Let_def)
next
  case (Open_file d sh env path)
  then show ?thesis using assms cert_events [of d sh env path "sy_lsm s"] by (auto simp: submitted_def genuine_bytes_def Let_def)
qed (use assms in \<open>auto simp: Let_def split: if_splits prod.splits dest: in_set_dropD\<close>)

lemma detect_step:
  assumes "sys_exec l s = Some s'" "setup_ok env argv s" "events_ok ls s" "records_ok (cfg_expected_sni (parse_args argv)) s"
    and "r \<in> set (dl_queue (sy_detect s')) \<union> set (dl_running (sy_detect s'))"
  shows "genuine_record (cfg_expected_sni (parse_args argv)) s r"
proof -
  let ?sni = "cfg_expected_sni (parse_args argv)"
  have old: "\<And>r. r \<in> set (dl_queue (sy_detect s)) \<union> set (dl_running (sy_detect s)) \<Longrightarrow> genuine_record ?sni s r"
    using assms(4) by (simp add: records_ok_def)
  show ?thesis
  proof (cases l)
    case (Poll_ring rl rc oks)
    then have d: "sy_detect s' = fold (routed rl ?sni) (zip (sy_ring s) oks) (sy_detect s)"
      using assms(1) poll_routed [OF assms(2)] by (auto split: if_splits)
    show ?thesis
      by (rule fold_routed_records [OF assms(3) _ old])
        (use assms(4,5) d in \<open>auto simp: records_ok_def dest: set_zip_leftD\<close>)
  next
    case Start_record
    then show ?thesis using assms(1,5) old
      by (auto simp: handleRecord_start_def split: if_splits list.splits)
  next
    case (Finish_record res dump now i f ok)
    then obtain out where e: "dl_exec res dump now (Finish i f) (sy_detect s) = Some (out, sy_detect s')"
      using assms(1) by auto
    from finish_step [OF e] genuine_listed [OF old] have "dl_queue (sy_detect s') = dl_queue (sy_detect s)"
        "set (dl_running (sy_detect s')) \<subseteq> set (dl_running (sy_detect s))" by auto
    then show ?thesis using assms(5) old by auto
  qed (use assms(1,5) old in \<open>auto simp: Let_def split: if_splits prod.splits\<close>)
qed

lemma records_ok_step:
  assumes "sys_exec l s = Some s'" "setup_ok env argv s" "events_ok ls s" "records_ok (cfg_expected_sni (parse_args argv)) s"
  shows "records_ok (cfg_expected_sni (parse_args argv)) s'"
  unfolding records_ok_def
proof (intro conjI ballI)
  fix bs
  assume "bs \<in> set (sy_ring s')"
  then show "genuine_bytes s' bs" using ring_step [OF assms(1)] assms(4) genuine_mono(1) [OF assms(1)]
    by (auto simp: records_ok_def)
next
  fix r
  assume "r \<in> set (dl_queue (sy_detect s')) \<union> set (dl_running (sy_detect s'))"
  from detect_step [OF assms this] show "genuine_record (cfg_expected_sni (parse_args argv)) s' r"
    by (rule genuine_mono(2) [OF assms(1)])
qed

section \<open>Actions\<close>

lemma execute_async_blocklist:
  assumes "bpf_hash_map (ae_update env)"
  shows "dom (aw_blocklist (snd (execute_async env a w))) \<subseteq> dom (aw_blocklist w) \<union> blocks (One a)"
proof (cases a)
  case (BlocklistAdd b)
  obtain rc m where r: "add (ae_update env) (ae_blocklist env) (ae_now_ns env) (aw_blocklist w) (act_src_ip_v4 b) (act_ttl b) = (rc, m)"
    by fastforce
  have "dom m \<subseteq> insert (act_src_ip_v4 b) (dom (aw_blocklist w))"
  proof (cases "rc = 0")
    case True
    then have "m = (aw_blocklist w)(act_src_ip_v4 b \<mapsto> word_of_int (ae_now_ns env + act_ttl b * ns_per_s))"
      using add_success_map [OF assms] r by blast
    then show ?thesis by auto
  qed (use add_failure_map [OF bpf_hash_map.axioms(1) [OF assms] r] in auto)
  then show ?thesis using r by (auto simp: BlocklistAdd BlocklistAddAction_execute_def Let_def split: if_splits)
qed (auto split: prod.split)

lemma run_ops_blocklist:
  assumes "bpf_hash_map (ae_update env)"
  shows "dom (aw_blocklist (snd (run_ops env as w))) \<subseteq> dom (aw_blocklist w) \<union> blocks (Many as)"
proof (induction as arbitrary: w)
  case (Cons a as)
  show ?case
  proof (cases a)
    case (Some x)
    obtain t w1 where e: "execute_async env x w = (t, w1)" by fastforce
    show ?thesis using Cons.IH [of w1] execute_async_blocklist [OF assms, of x w] e Some
      by (auto split: prod.splits) blast+
  qed (use Cons.IH [of w] in auto)
qed simp

lemma run_spawned_blocklist:
  assumes "bpf_hash_map (ae_update env)"
  shows "dom (aw_blocklist (snd (run_spawned stop env g w))) \<subseteq> dom (aw_blocklist w) \<union> blocks g"
proof (cases g)
  case (One a)
  then have "snd (run_spawned stop env g w) = (if stop then w else snd (execute_async env a w))" by (simp split: prod.split)
  then show ?thesis using execute_async_blocklist [OF assms, of a w] One by auto
next
  case (Many as)
  then have "snd (run_spawned stop env g w) = (if stop then w else snd (run_ops env as w))" by (simp split: prod.split)
  then show ?thesis using run_ops_blocklist [OF assms, of as w] Many by auto
qed

lemma push_groups_pending:
  "set (al_pending (push_groups ok groups al)) \<subseteq> set (al_pending al) \<union> (\<lambda>g. Many (map Some g)) ` set groups"
  unfolding push_groups_def
proof (induction groups arbitrary: al)
  case (Cons g groups)
  have "set (al_pending (pushActions ok (map Some g) al)) \<subseteq> insert (Many (map Some g)) (set (al_pending al))"
    by (auto simp: pushActions_def)
  then show ?case using Cons.IH [of "pushActions ok (map Some g) al"] by (simp, blast)
qed simp

lemma push_groups_blocks:
  "\<Union> (blocks ` set (al_pending (push_groups ok groups al))) \<subseteq> \<Union> (blocks ` set (al_pending al))
     \<union> {act_src_ip_v4 b | b g. g \<in> set groups \<and> BlocklistAdd b \<in> set g}"
proof
  fix a
  assume "a \<in> \<Union> (blocks ` set (al_pending (push_groups ok groups al)))"
  then obtain g where g: "g \<in> set (al_pending (push_groups ok groups al))" "a \<in> blocks g" by blast
  then consider "g \<in> set (al_pending al)" | g' where "g' \<in> set groups" "g = Many (map Some g')"
    using push_groups_pending [of ok groups al] by blast
  then show "a \<in> \<Union> (blocks ` set (al_pending al)) \<union> {act_src_ip_v4 b | b g. g \<in> set groups \<and> BlocklistAdd b \<in> set g}"
    by cases (use g(2) in auto)
qed

lemma as_detections_inject: "as_detections ds = as_detections ds' \<longleftrightarrow> ds = ds'"
proof
  let ?f = "map (\<lambda>d. (fst (the d), \<lambda>x m. the (snd (the d) x m)))"
  assume "as_detections ds = as_detections ds'"
  then have "?f (as_detections ds) = ?f (as_detections ds')" by (simp only:)
  then show "ds = ds'" by (simp only: as_detections_inverse)
qed simp

text \<open>Whom a verdict on an SSL call's event blocks: the peer its binding names, or without one what the
  resolver named.\<close>

lemma uprobe_add_attributed:
  assumes "conn_ok (probes ls) u"
    and "BlocklistAdd b \<in> set (dispatched res dump now (uprobe_fill True u EventMeta_init) v ctx)"
    and "Finish_record res dump now i f ok \<in> set (ls @ ls')"
  shows "if uc_resolved (up_resolved_conn u) = 0 then resolver_named (ls @ ls') u (act_src_ip_v4 b)
     else attributed (probes (ls @ ls')) (up_resolved_conn u) \<and> touched_peer (probes (ls @ ls')) (act_src_ip_v4 b)"
proof (cases "uc_resolved (up_resolved_conn u) = 0")
  case True
  let ?m = "uprobe_fill True u EventMeta_init"
  have "em_remote_ip (snd (ensurePeerResolved res ?m)) = em_remote_ip (snd (res (?m\<lparr>em_peer_attempted := True\<rparr>)))"
    using True by (simp add: ensurePeerResolved_def uprobe_fill_def fillResolvedConnection_def fillEnvelope_def EventMeta_init_def
        split: prod.split)
  with dispatched_add [OF assms(2)] assms(3) have "resolver_named (ls @ ls') u (act_src_ip_v4 b)"
    unfolding resolver_named_def by (intro exI) (rule conjI, assumption, rule conjI, rule refl, simp)
  with True show ?thesis by simp
next
  case False
  let ?c = "up_resolved_conn u"
  have at: "attributed (probes ls) ?c" using assms(1) False by (simp add: conn_ok_def)
  have "em_remote_ip (snd (ensurePeerResolved res (uprobe_fill True u EventMeta_init))) =
      \<lparr>ip_family = if uc_is_ipv6 ?c \<noteq> 0 then kV6 else kV4, ip_bytes16 = uc_remote_addr ?c\<rparr>"
    using False by (simp add: ensurePeerResolved_def uprobe_fill_def fillResolvedConnection_def fillEnvelope_def EventMeta_init_def Let_def)
  with dispatched_add [OF assms(2)] have a: "uc_is_ipv6 ?c = 0" "act_src_ip_v4 b = le_word (take 4 (uc_remote_addr ?c))"
    by (auto simp: v4_def split: if_splits)
  then show ?thesis
    using False attributed_mono [OF at] touched_peer_mono [OF attributed_peer [OF at a(1)]] by (simp add: probes_append)
qed

text \<open>A record with an enforceable verdict is that of an offence.\<close>

lemma record_offence:
  assumes "genuine_record sni s r" "events_ok ls s" "rec_detections r = as_detections ds"
    and "first_verdict ds (rec_bytes r) = Some (n, v, m)" "actionable v"
  obtains (packet) e where "e \<in> set (xs_events (sy_kernel s))" "xdp_offence e" "m = xdp_fill e EventMeta_init"
      "0 < sent_by (ct_src_ip_v4 (xdp_conn e)) ls"
    | (session) u where "u \<in> set (ss_events (sy_ssl s))" "uprobe_offence u" "m = uprobe_fill True u EventMeta_init"
      "conn_ok (probes ls) u"
proof -
  from assms(1) consider
      (xdp) e where "e \<in> set (xs_events (sy_kernel s))" "rec_bytes r = encode_xdp_event e" "ds = xdp_detections sni"
    | (uprobe) u where "u \<in> set (ss_events (sy_ssl s))" "rec_bytes r = encode_uprobe_event u" "ds = uprobe_detections"
    | (lsm) rl where "ds = lsm_detections rl kAllowedCertExes"
    unfolding genuine_record_def assms(3) as_detections_inject by blast
  then show thesis
  proof cases
    case (xdp e)
    have e: "wf_xdp_event e" "0 < sent_by (ct_src_ip_v4 (xdp_conn e)) ls" using assms(2) xdp(1) by (auto simp: events_ok_def)
    have "decode_xdp_event (rec_bytes r) = Some e" using decode_encode_xdp [OF e(1), of "[]"] xdp(2) by simp
    from xdp_first_verdict [OF this, of sni] assms(4,5) xdp(3)
    have "m = xdp_fill e EventMeta_init" "xdp_offence e" by (auto simp: xdp_offence_def)
    then show thesis using packet xdp(1) e(2) by blast
  next
    case (uprobe u)
    have u: "wf_uprobe_event u" "conn_ok (probes ls) u"
      using assms(2) uprobe(1) by (auto simp: events_ok_def ssl_wf_def attributions_ok_def)
    have "decode_uprobe_event (rec_bytes r) = Some u" using decode_encode_uprobe [OF u(1), of "[]"] uprobe(2) by simp
    from uprobe_first_verdict [OF this] assms(4,5) uprobe(3)
    have "m = uprobe_fill True u EventMeta_init" "uprobe_offence u" by (auto simp: uprobe_offence_def)
    then show thesis using session uprobe(1) u(2) by blast
  next
    case (lsm rl)
    then show thesis using lsm_never_actionable assms(4,5) by blast
  qed
qed

lemma record_add_justified:
  assumes "genuine_record sni s r" "events_ok ls s" "rec_detections r = as_detections ds"
    and "first_verdict ds (rec_bytes r) = Some (n, v, m)" "BlocklistAdd b \<in> set (dispatched res dump now m v ctx)"
    and "Finish_record res dump now i f ok \<in> set (ls @ ls')"
  shows "justified argv (ls @ ls') (xs_events (sy_kernel s)) (ss_events (sy_ssl s)) (act_src_ip_v4 b)"
proof -
  note add = dispatched_add [OF assms(5)]
  from assms(1-4) conjunct1 [OF add] show ?thesis
  proof (cases rule: record_offence)
    case (packet e)
    then have "act_src_ip_v4 b = ct_src_ip_v4 (xdp_conn e)" using add by (simp add: xdp_fill_remote)
    then show ?thesis using packet sent_by_mono [of "ct_src_ip_v4 (xdp_conn e)" ls ls'] unfolding justified_def by auto
  next
    case (session u)
    from uprobe_add_attributed [OF session(4) assms(5) [unfolded session(3)] assms(6)] session(1,2)
    show ?thesis unfolding justified_def by blast
  qed
qed

lemma entry_reports_threshold:
  "evt \<in> set (entry_reports sw now k e) \<Longrightarrow> snd (snd (accused evt)) \<in>
     {th_connection_rate (rs_thresholds sw), th_open_conns (rs_thresholds sw), th_handshakes (rs_thresholds sw)}"
  by (auto simp: entry_reports_def split: if_splits)

lemma sweep_rates_groups:
  assumes "g \<in> set (fst (sweep_rates disp inp (Some sw)))" "rate_enabled sw"
  shows "\<exists>k e evt. (k, Some e) \<in> set (si_walk inp) \<and> evt \<in> set (entry_reports sw (monotonic_now_ns (si_clock inp)) k e) \<and>
     (\<exists>groups. disp evt = Some groups \<and> g \<in> set groups)"
proof -
  let ?now = "monotonic_now_ns (si_clock inp)"
  obtain evts out sw' where r: "rate_sweep ?now (si_steady inp) (si_walk inp) sw = (evts, out, sw')" by (metis prod_cases3)
  have ev: "evts = concat (map (obs_reports sw ?now) (si_walk inp))"
    using rate_sweep_reports [OF assms(2), of ?now "si_steady inp" "si_walk inp"] r by simp
  have "\<exists>n. g \<in> set (fst (dispatch_events disp (take n evts)))"
    using assms(1) r by (auto simp: sweep_rates_def split: option.splits prod.splits intro: exI [of _ "length evts"])
  then obtain evt groups where evt: "evt \<in> set evts" "disp evt = Some groups" "g \<in> set groups"
    using dispatch_events_groups [of g disp] in_set_takeD by metis
  then obtain x where x: "x \<in> set (si_walk inp)" "evt \<in> set (obs_reports sw ?now x)" by (auto simp: ev)
  then obtain k e where "x = (k, Some e)" by (cases "(sw, ?now, x)" rule: obs_reports.cases) auto
  then show ?thesis using x evt(2,3) by auto
qed

lemma sweep_add_justified:
  assumes "setup_ok env argv s" "rates_ok ls s" "st_rate (sy_sweep s) = Some sw" "si_walk inp = sy_walk s"
    and "g \<in> set (fst (sweep_rates (sweep_dispatch res dump now ctx) inp (Some sw)))" "BlocklistAdd b \<in> set g"
  shows "justified argv ls es us (act_src_ip_v4 b)"
proof -
  have sw: "rate_enabled sw" "rs_thresholds sw =
      \<lparr>th_connection_rate = arg_number 6 argv, th_open_conns = arg_number 7 argv, th_handshakes = arg_number 8 argv\<rparr>"
    using assms(1,3) by (auto simp: setup_ok_def)
  obtain k e evt groups where k: "(k, Some e) \<in> set (sy_walk s)" "evt \<in> set (entry_reports sw (monotonic_now_ns (si_clock inp)) k e)"
      "sweep_dispatch res dump now ctx evt = Some groups" "g \<in> set groups"
    using sweep_rates_groups [OF assms(5) sw(1)] assms(4) by auto
  have ch: "charged_at_most (sent_by k ls) (sent_by k ls) e" using assms(2) k(1) by (simp add: rates_ok_def)
  obtain what th where a: "accused evt = (k, what, th)" "0 < th" "unat th \<le> sent_by k ls"
    using entry_reports_accused [OF k(2) ch] by (auto split: if_splits)
  have "\<exists>i \<in> {6, 7, 8}. th = arg_number i argv" using entry_reports_threshold [OF k(2)] a(1) sw(2) by auto
  moreover have "act_src_ip_v4 b = k"
  proof -
    obtain v where "BlocklistAdd b \<in> set (dispatched res dump now (sweep_meta (monotonic_now_ns (si_clock inp)) k) v ctx)"
      using sweep_dispatch_groups [OF k(3,4)] assms(6) entry_reports_fire(2) [OF k(2)] by auto
    from dispatched_add [OF this] show ?thesis
      by (simp add: ensurePeerResolved_no_resolver sweep_meta_def EventMeta_init_def)
  qed
  ultimately show ?thesis using a(2,3) unfolding justified_def by blast
qed

text \<open>The addresses that are blocked or about to be.\<close>

definition targeted :: "system \<Rightarrow> u32 set" where
  "targeted s = dom (xs_blocklist (sy_kernel s)) \<union> \<Union> (blocks ` set (al_pending (sy_action s)))"

lemma actions_ok_targeted:
  "actions_ok argv ls s \<longleftrightarrow> (\<forall>a \<in> targeted s. justified argv ls (xs_events (sy_kernel s)) (ss_events (sy_ssl s)) a)"
  by (simp add: actions_ok_def targeted_def)

lemma targeted_push:
  assumes "sy_kernel s' = sy_kernel s" "sy_action s' = push_groups ok groups (sy_action s)" "a \<in> targeted s'"
  obtains "a \<in> targeted s" | g b where "g \<in> set groups" "BlocklistAdd b \<in> set g" "a = act_src_ip_v4 b"
proof -
  have "a \<in> targeted s \<union> {act_src_ip_v4 b | b g. g \<in> set groups \<and> BlocklistAdd b \<in> set g}"
    using assms(3) push_groups_blocks [of ok groups "sy_action s"] unfolding targeted_def assms(1,2) by blast
  then show thesis using that by auto
qed

lemma targeted_finish:
  assumes "sys_exec (Finish_record res dump now i f ok) s = Some s'" "events_ok ls s" "records_ok (cfg_expected_sni (parse_args argv)) s"
    "a \<in> targeted s'"
  shows "a \<in> targeted s \<or> justified argv (ls @ [Finish_record res dump now i f ok]) (xs_events (sy_kernel s)) (ss_events (sy_ssl s)) a"
proof -
  let ?sni = "cfg_expected_sni (parse_args argv)" and ?dl = "sy_detect s" and ?ls = "ls @ [Finish_record res dump now i f ok]"
  obtain out where e: "dl_exec res dump now (Finish i f) ?dl = Some (out, sy_detect s')" and k: "sy_kernel s' = sy_kernel s"
    and act: "sy_action s' = push_groups ok (drop (length (dl_pushed ?dl)) (dl_pushed (sy_detect s'))) (sy_action s)"
    using assms(1) by auto
  have old: "\<And>r. r \<in> set (dl_running ?dl) \<Longrightarrow> genuine_record ?sni s r" using assms(3) by (simp add: records_ok_def)
  have new: "justified argv ?ls (xs_events (sy_kernel s)) (ss_events (sy_ssl s)) (act_src_ip_v4 b)"
    if b: "g \<in> set (drop (length (dl_pushed ?dl)) (dl_pushed (sy_detect s')))" "BlocklistAdd b \<in> set g" for g b
  proof -
    obtain r ds n v m where r: "r \<in> set (dl_running ?dl)" "rec_detections r = as_detections ds"
        "first_verdict ds (rec_bytes r) = Some (n, v, m)" "g = dispatched res dump now m v (dl_ctx ?dl)"
      using finish_step [OF e genuine_listed [OF old]] b(1) by auto
    show ?thesis
      by (rule record_add_justified [OF old [OF r(1)] assms(2) r(2,3)]) (use b(2) r(4) in auto)
  qed
  show ?thesis by (rule targeted_push [OF k act assms(4)]) (use new in auto)
qed

lemma targeted_sweep:
  assumes "sys_exec (End_sweep res dump now inp ok) s = Some s'" "setup_ok env argv s" "rates_ok ls s" "a \<in> targeted s'"
  shows "a \<in> targeted s \<or> justified argv ls (xs_events (sy_kernel s)) (ss_events (sy_ssl s)) a"
proof -
  let ?inp = "inp\<lparr>si_walk := sy_walk s, si_ssl := sy_ssl s\<rparr>" and ?disp = "sweep_dispatch res dump now (dl_ctx (sy_detect s))"
  obtain groups ssl st where sw: "sweepAll ?disp ?inp (sy_sweep s) = Some (groups, ssl, st)"
    and s': "sy_kernel s' = sy_kernel s" "sy_action s' = push_groups ok groups (sy_action s)"
    using assms(1) by (auto split: if_splits)
  have new: "justified argv ls (xs_events (sy_kernel s)) (ss_events (sy_ssl s)) (act_src_ip_v4 b)"
    if b: "g \<in> set groups" "BlocklistAdd b \<in> set g" for g b
  proof (cases "st_rate (sy_sweep s)")
    case None
    then show ?thesis using b(1) sweepAll_result(3) [OF sw] by (simp add: sweep_rates_def)
  next
    case (Some w)
    show ?thesis
      by (rule sweep_add_justified [OF assms(2,3) Some _ _ b(2), where inp = ?inp])
        (use b(1) sweepAll_result(3) [OF sw] Some in auto)
  qed
  show ?thesis by (rule targeted_push [OF s' assms(4)]) (use new in auto)
qed

lemma targeted_act:
  assumes "sys_exec (Act env') s = Some s'" "kernel_ok (Act env')"
  shows "targeted s' \<subseteq> targeted s"
proof -
  obtain g gs where g: "al_pending (sy_action s) = g # gs" "al_pending (sy_action s') = gs"
      "xs_blocklist (sy_kernel s') = aw_blocklist (snd (run_spawned (al_stop (sy_action s)) (env'\<lparr>ae_blocklist := gp_blocklist (sy_program s)\<rparr>) g
         \<lparr>aw_blocklist = xs_blocklist (sy_kernel s), aw_sent = sy_tcp_sent s, aw_logged = sy_logged s\<rparr>))"
    using assms(1) by (auto split: list.splits)
  have u: "bpf_hash_map (ae_update (env'\<lparr>ae_blocklist := gp_blocklist (sy_program s)\<rparr>))" using assms(2) by simp
  have "dom (xs_blocklist (sy_kernel s')) \<subseteq> dom (xs_blocklist (sy_kernel s)) \<union> blocks g"
    using run_spawned_blocklist [OF u, of "al_stop (sy_action s)" g
      "\<lparr>aw_blocklist = xs_blocklist (sy_kernel s), aw_sent = sy_tcp_sent s, aw_logged = sy_logged s\<rparr>"] unfolding g(3) by simp
  moreover have "set (al_pending (sy_action s)) = insert g (set (al_pending (sy_action s')))" by (simp add: g)
  ultimately show ?thesis unfolding targeted_def by blast
qed

lemma targeted_step:
  assumes "sys_exec l s = Some s'" "kernel_ok l" "setup_ok env argv s" "events_ok ls s" "rates_ok ls s"
    "records_ok (cfg_expected_sni (parse_args argv)) s" "a \<in> targeted s'"
  shows "a \<in> targeted s \<or> justified argv (ls @ [l]) (xs_events (sy_kernel s)) (ss_events (sy_ssl s)) a"
proof (cases l)
  case (Packet upd env' pkt)
  then have s': "sy_kernel s' = snd (https_guard_xdp upd env' (sy_kernel s) pkt)" "sy_action s' = sy_action s"
    using assms(1) by (auto simp: Let_def)
  show ?thesis using assms(7) packet_blocklist [of upd env' "sy_kernel s" pkt] unfolding targeted_def s' by blast
next
  case (Finish_record res dump now i f ok)
  then show ?thesis using targeted_finish [OF _ assms(4,6,7)] assms(1) by blast
next
  case (End_sweep res dump now inp ok)
  then show ?thesis using targeted_sweep [OF _ assms(3,5,7)] assms(1)
      justified_mono [of argv ls "xs_events (sy_kernel s)" "ss_events (sy_ssl s)" a "[l]" "[]" "[]"] by fastforce
next
  case (Act env')
  then show ?thesis using targeted_act [of env' s s'] assms(1,2,7) by blast
qed (use assms(1,7) in \<open>auto simp: targeted_def Let_def split: if_splits prod.splits\<close>)

definition sys_inv :: "main_env \<Rightarrow> string list \<Rightarrow> sys_label list \<Rightarrow> system \<Rightarrow> bool" where
  "sys_inv env argv ls s \<longleftrightarrow> setup_ok env argv s \<and> events_ok ls s \<and> rates_ok ls s \<and>
     records_ok (cfg_expected_sni (parse_args argv)) s \<and> actions_ok argv ls s"

lemma sys_inv_start:
  assumes "sys_start env argv = Some s"
  shows "sys_inv env argv [] s"
proof -
  let ?d = "daemon_init env (parse_args argv)"
  obtain ok p where l: "loadFilter (me_bpf env) (dm_program ?d) = (ok, p)" by fastforce
  have s: "ok" "sy_kernel s = \<lparr>xs_blocklist = Map.empty, xs_conn_rate = Map.empty, xs_events = []\<rparr>" "sy_ssl s = ssl_init"
      "sy_lsm s = []" "sy_ring s = []" "sy_program s = p" "sy_detect s = dm_detect ?d" "sy_walk s = []"
      "sy_sweep s = daemon_sweeps env (parse_args argv) p" "sy_action s = dm_action ?d"
    using assms l by (auto simp: sys_start_def Let_def split: if_splits)
  have g0: "gp_reach True (main_hooks env argv) (dm_program ?d, dm_detect ?d)"
    unfolding daemon_init_program by (rule gp_reach.init)
  then have g: "gp_reach True (main_hooks env argv) (p, dm_detect ?d)"
    using gp_reach.step [OF g0, of "Load (me_bpf env)"] l by (simp add: daemon_init_program HttpGuardProgram_init_def)
  have inv: "gp_inv True (main_hooks env argv) p \<and> gp_loaded p = ok"
    using loadFilter_stages [OF _ _ l, of True] gp_reach_inv [OF g0] by (simp add: daemon_init_program HttpGuardProgram_init_def)
  have "setup_ok env argv s"
    using g inv s daemon_sweeps_rate [of env "parse_args argv" p] by (auto simp: setup_ok_def gp_inv_def parse_args_thresholds)
  moreover have "events_ok [] s"
    using attributions_ok_init by (simp add: events_ok_def ssl_wf_def s ssl_init_def probes_def map_filter_def)
  moreover have "rates_ok [] s" by (simp add: rates_ok_def counters_ok_def s)
  moreover have "dl_queue (dm_detect ?d) = [] \<and> dl_running (dm_detect ?d) = []"
    by (simp add: daemon_init_def Let_def configure_def DetectLoop_start_def DetectLoop_init_def)
  then have "records_ok (cfg_expected_sni (parse_args argv)) s" by (simp add: records_ok_def s)
  moreover have "targeted s = {}"
    by (auto simp: targeted_def s daemon_init_def Let_def pushAction_def ActionLoop_init_def)
  then have "actions_ok argv [] s" by (simp add: actions_ok_targeted)
  ultimately show ?thesis by (simp add: sys_inv_def)
qed

lemma sys_inv_step:
  assumes "sys_exec l s = Some s'" "kernel_ok l" "sys_inv env argv ls s"
  shows "sys_inv env argv (ls @ [l]) s'"
proof -
  have i: "setup_ok env argv s" "events_ok ls s" "rates_ok ls s" "records_ok (cfg_expected_sni (parse_args argv)) s"
    "actions_ok argv ls s" using assms(3) by (simp_all add: sys_inv_def)
  obtain es us where g: "xs_events (sy_kernel s') = xs_events (sy_kernel s) @ es" "ss_events (sy_ssl s') = ss_events (sy_ssl s) @ us"
    using sys_events_grow [OF assms(1)] by blast
  have "justified argv (ls @ [l]) (xs_events (sy_kernel s')) (ss_events (sy_ssl s')) a" if a: "a \<in> targeted s'" for a
  proof -
    consider "justified argv ls (xs_events (sy_kernel s)) (ss_events (sy_ssl s)) a"
      | "justified argv (ls @ [l]) (xs_events (sy_kernel s)) (ss_events (sy_ssl s)) a"
      using targeted_step [OF assms(1,2) i(1-4) a] i(5) by (auto simp: actions_ok_targeted)
    then show ?thesis unfolding g
      using justified_mono [where ls' = "[l]"] justified_mono [where ls' = "[]"] by cases fastforce+
  qed
  then show ?thesis
    using setup_ok_step [OF assms(1) i(1)] events_ok_step [OF assms(1,2) i(2)] rates_ok_step [OF assms(1,2) i(3)]
      records_ok_step [OF assms(1) i(1,2,4)] by (simp add: sys_inv_def actions_ok_targeted)
qed

lemma sys_reach_inv: "sys_reach env argv ls s \<Longrightarrow> sys_inv env argv ls s"
  by (induction rule: sys_reach.induct) (auto intro: sys_inv_start sys_inv_step)

section \<open>Runs\<close>

fun sys_run :: "sys_label list \<Rightarrow> system \<Rightarrow> system option" where
  "sys_run [] s = Some s"
| "sys_run (l # ls) s = Option.bind (sys_exec l s) (sys_run ls)"

lemma sys_run_reach:
  assumes "sys_reach env argv ls s" "list_all kernel_ok ls'" "sys_run ls' s = Some s'"
  shows "sys_reach env argv (ls @ ls') s'"
  using assms
proof (induction ls' arbitrary: ls s)
  case (Cons l ls')
  then obtain s1 where e: "sys_exec l s = Some s1" "sys_run ls' s1 = Some s'" by (auto simp: bind_eq_Some_conv)
  from Cons.IH [OF sys_reach.step [OF Cons.prems(1) _ e(1)] _ e(2)] Cons.prems(2) show ?case by simp
qed simp

end
