(* ===== verification/Teardown.thy ===== *)
theory Teardown
  imports System
begin

text \<open>
  Whose connections the composed daemon tears down: every \<open>SOCK_DESTROY\<close> request it ever sends names the
  connection of an offence.  The reasons are those for blocking an address, less the counters, which know no ports; here
  IPv6 counts too.
\<close>

section \<open>Causes\<close>

text \<open>The connection a teardown names: family, local end, remote end.\<close>

definition tuple_of :: "block_tcp_action \<Rightarrow> bool \<times> (u8 list \<times> u16) \<times> (u8 list \<times> u16)" where
  "tuple_of t = (bt_is_ipv6 t, (bt_local_addr t, bt_local_port t), (bt_remote_addr t, bt_remote_port t))"

definition meta_tuple :: "event_meta \<Rightarrow> bool \<times> (u8 list \<times> u16) \<times> (u8 list \<times> u16)" where
  "meta_tuple m = (ip_family (em_remote_ip m) = kV6, (ip_bytes16 (em_local_ip m), em_local_port m),
     (ip_bytes16 (em_remote_ip m), em_remote_port m))"

definition packet_tuple :: "hg_conn_tuple \<Rightarrow> bool \<times> (u8 list \<times> u16) \<times> (u8 list \<times> u16)" where
  "packet_tuple c = (False, (le_bytes 4 (ct_dst_ip_v4 c) @ replicate 12 0, ct_dst_port c),
     (le_bytes 4 (ct_src_ip_v4 c) @ replicate 12 0, ct_src_port c))"

definition session_tuple :: "hg_uprobe_conn \<Rightarrow> bool \<times> (u8 list \<times> u16) \<times> (u8 list \<times> u16)" where
  "session_tuple c = (uc_is_ipv6 c \<noteq> 0, (uc_local_addr c, uc_local_port c), (uc_remote_addr c, uc_remote_port c))"

text \<open>What a resolver that a worker used named for the process behind an event.\<close>

definition resolver_tuple :: "sys_label list \<Rightarrow> uprobe_event \<Rightarrow> bool \<times> (u8 list \<times> u16) \<times> (u8 list \<times> u16) \<Rightarrow> bool" where
  "resolver_tuple ls u tp \<longleftrightarrow> (\<exists>res dump now i f ok. Finish_record res dump now i f ok \<in> set ls \<and>
     tp = meta_tuple (snd (res ((uprobe_fill True u EventMeta_init)\<lparr>em_peer_attempted := True\<rparr>))))"

text \<open>The connection of an event of the probes: the one its session was bound to, with an end on port 443, or without
  a binding the one a resolver named for the process.\<close>

definition session_cause :: "sys_label list \<Rightarrow> uprobe_event \<Rightarrow> block_tcp_action \<Rightarrow> bool" where
  "session_cause ls u t \<longleftrightarrow>
     (if uc_resolved (up_resolved_conn u) = 0 then resolver_tuple ls u (tuple_of t)
      else attributed (probes ls) (up_resolved_conn u) \<and> tuple_of t = session_tuple (up_resolved_conn u) \<and>
        HG_SESSION_TUPLE_PORT \<in> {bt_local_port t, bt_remote_port t})"

text \<open>A teardown is of the connection of an offending packet that arrived or of offending traffic of a process
  on this machine.\<close>

definition teardown_cause :: "sys_label list \<Rightarrow> xdp_event list \<Rightarrow> uprobe_event list \<Rightarrow> block_tcp_action \<Rightarrow> bool" where
  "teardown_cause ls es us t \<longleftrightarrow>
     (\<exists>e \<in> set es. xdp_offence e \<and> 0 < sent_by (ct_src_ip_v4 (xdp_conn e)) ls \<and> tuple_of t = packet_tuple (xdp_conn e))
   \<or> (\<exists>u \<in> set us. uprobe_offence u \<and> session_cause ls u t)"

lemma teardown_cause_mono:
  assumes "teardown_cause ls es us t"
  shows "teardown_cause (ls @ ls') (es @ es') (us @ us') t"
proof -
  have "resolver_tuple ls u tp \<Longrightarrow> resolver_tuple (ls @ ls') u tp" for u tp
    unfolding resolver_tuple_def set_append by blast
  then have r: "session_cause ls u t \<Longrightarrow> session_cause (ls @ ls') u t" for u
    using attributed_mono by (auto simp: session_cause_def probes_append split: if_splits)
  have n: "0 < sent_by a ls \<Longrightarrow> 0 < sent_by a (ls @ ls')" for a using sent_by_mono [of a ls ls'] by simp
  show ?thesis using assms r n unfolding teardown_cause_def set_append by blast
qed

section \<open>What is dispatched\<close>

lemma dispatched_cut:
  assumes "BlockTcp t \<in> set (dispatched res dump now m v ctx)"
  shows "actionable v \<and> isSet (em_local_ip (snd (ensurePeerResolved res m)))
     \<and> tuple_of t = meta_tuple (snd (ensurePeerResolved res m))"
proof -
  have "actionable v" "BlockTcp t \<in> set (fst (enforcement (snd (ensurePeerResolved res m)) v ctx))"
    using in_dispatched [OF assms] by auto
  then show ?thesis by (auto simp: enforcement_def tuple_of_def meta_tuple_def Let_def split: if_splits)
qed

text \<open>A bound tuple is of a socket with one end on port 443.\<close>

lemma attributed_port:
  "attributed steps c \<Longrightarrow> HG_SESSION_TUPLE_PORT \<in> {uc_local_port c, uc_remote_port c}"
proof -
  assume "attributed steps c"
  then obtain pre post ssl tup where a: "bound pre ssl tup" "c = conn_of_tuple tup"
    by (auto simp: attributed_def)
  then obtain env sk where "(env, Touch (Some sk)) \<in> set pre" "read_sock_tuple_if_port_443 (se_now env) sk = Some tup"
    unfolding bound_def recorded_def by fastforce
  then show ?thesis using a(2)
    by (auto simp: read_sock_tuple_if_port_443_def conn_of_tuple_def Let_def split: if_splits)
qed

lemma uprobe_cut_caused:
  assumes "conn_ok (probes ls) u"
    and "BlockTcp t \<in> set (dispatched res dump now (uprobe_fill True u EventMeta_init) v ctx)"
    and "Finish_record res dump now i f ok \<in> set (ls @ ls')"
  shows "session_cause (ls @ ls') u t"
proof (cases "uc_resolved (up_resolved_conn u) = 0")
  case True
  let ?m = "uprobe_fill True u EventMeta_init"
  have "meta_tuple (snd (ensurePeerResolved res ?m)) = meta_tuple (snd (res (?m\<lparr>em_peer_attempted := True\<rparr>)))"
    using True by (simp add: ensurePeerResolved_def uprobe_fill_def fillResolvedConnection_def fillEnvelope_def EventMeta_init_def
        meta_tuple_def split: prod.split)
  with dispatched_cut [OF assms(2)] have "tuple_of t = meta_tuple (snd (res (?m\<lparr>em_peer_attempted := True\<rparr>)))" by simp
  then have "resolver_tuple (ls @ ls') u (tuple_of t)" using assms(3) unfolding resolver_tuple_def by blast
  with True show ?thesis by (simp add: session_cause_def)
next
  case False
  let ?c = "up_resolved_conn u"
  have at: "attributed (probes ls) ?c" using assms(1) False by (simp add: conn_ok_def)
  have "meta_tuple (snd (ensurePeerResolved res (uprobe_fill True u EventMeta_init))) = session_tuple ?c"
    using False by (simp add: ensurePeerResolved_def uprobe_fill_def fillResolvedConnection_def fillEnvelope_def EventMeta_init_def
        meta_tuple_def session_tuple_def Let_def)
  with dispatched_cut [OF assms(2)] have t: "tuple_of t = session_tuple ?c" by simp
  then have "bt_local_port t = uc_local_port ?c" "bt_remote_port t = uc_remote_port ?c"
    by (simp_all add: tuple_of_def session_tuple_def)
  with t at False attributed_port [OF at] attributed_mono [OF at] show ?thesis by (simp add: session_cause_def probes_append)
qed

lemma record_cut_caused:
  assumes "genuine_record sni s r" "events_ok ls s" "rec_detections r = as_detections ds"
    and "first_verdict ds (rec_bytes r) = Some (n, v, m)" "BlockTcp t \<in> set (dispatched res dump now m v ctx)"
    and "Finish_record res dump now i f ok \<in> set (ls @ ls')"
  shows "teardown_cause (ls @ ls') (xs_events (sy_kernel s)) (ss_events (sy_ssl s)) t"
proof -
  note cut = dispatched_cut [OF assms(5)]
  from assms(1-4) conjunct1 [OF cut] show ?thesis
  proof (cases rule: record_offence)
    case (packet e)
    then have "tuple_of t = packet_tuple (xdp_conn e)" using cut
      by (simp add: ensurePeerResolved_no_resolver xdp_fill_def fillConnection_def fillEnvelope_def EventMeta_init_def
          meta_tuple_def packet_tuple_def setV4_def)
    then show ?thesis using packet sent_by_mono [of "ct_src_ip_v4 (xdp_conn e)" ls ls']
      unfolding teardown_cause_def by (intro disjI1 bexI [of _ e]) auto
  next
    case (session u)
    from uprobe_cut_caused [OF session(4) assms(5) [unfolded session(3)] assms(6)] session(1,2) show ?thesis
      unfolding teardown_cause_def by blast
  qed
qed

lemma sweep_never_cuts:
  assumes "g \<in> set (fst (sweep_rates (sweep_dispatch res dump now ctx) inp (Some sw)))" "rate_enabled sw"
  shows "BlockTcp t \<notin> set g"
proof
  assume t: "BlockTcp t \<in> set g"
  obtain k e evt groups where k: "evt \<in> set (entry_reports sw (monotonic_now_ns (si_clock inp)) k e)"
      "sweep_dispatch res dump now ctx evt = Some groups" "g \<in> set groups"
    using sweep_rates_groups [OF assms] by blast
  obtain v where "BlockTcp t \<in> set (dispatched res dump now (sweep_meta (monotonic_now_ns (si_clock inp)) k) v ctx)"
    using sweep_dispatch_groups [OF k(2,3)] t entry_reports_fire(2) [OF k(1)] by auto
  from dispatched_cut [OF this] show False
    by (simp add: ensurePeerResolved_no_resolver sweep_meta_def EventMeta_init_def)
qed

section \<open>What is sent\<close>

text \<open>The teardowns a spawned coroutine holds.\<close>

fun cuts :: "spawned \<Rightarrow> block_tcp_action set" where
  "cuts (One a) = {t. a = BlockTcp t}"
| "cuts (Many as) = {t. Some (BlockTcp t) \<in> set as}"

definition requests :: "block_tcp_action set \<Rightarrow> u8 list set" where
  "requests ts = {destroy_request (TcpDestroyer fd t) | fd t. t \<in> ts}"

lemma requests_mono: "ts \<subseteq> ts' \<Longrightarrow> requests ts \<subseteq> requests ts'"
  unfolding requests_def by blast

lemma async_execute_sent: "set (fst (snd (async_execute env d))) \<subseteq> {destroy_request d}"
  by (auto simp: async_execute_def split: option.split)

lemma execute_async_sent: "set (aw_sent (snd (execute_async env a w))) \<subseteq> set (aw_sent w) \<union> requests (cuts (One a))"
proof (cases a)
  case (BlockTcp t)
  have "set (fst (snd (BlockTcpAction_execute (ae_nl_fd env) (ae_tcp env) t))) \<subseteq> {destroy_request (TcpDestroyer (ae_nl_fd env) t)}"
    using async_execute_sent [of "ae_tcp env" "TcpDestroyer (ae_nl_fd env) t"]
    by (auto simp: BlockTcpAction_execute_def Let_def split: prod.split)
  then show ?thesis by (auto simp: BlockTcp requests_def split: prod.split)
qed (auto split: prod.split)

lemma run_ops_sent: "set (aw_sent (snd (run_ops env as w))) \<subseteq> set (aw_sent w) \<union> requests (cuts (Many as))"
proof (induction as arbitrary: w)
  case (Cons a as)
  have m: "requests (cuts (Many as)) \<subseteq> requests (cuts (Many (a # as)))" by (rule requests_mono) auto
  show ?case
  proof (cases a)
    case (Some x)
    obtain b w1 where e: "execute_async env x w = (b, w1)" by fastforce
    have "requests (cuts (One x)) \<subseteq> requests (cuts (Many (a # as)))" using Some by (intro requests_mono) auto
    moreover have "snd (run_ops env (a # as) w) = snd (run_ops env as w1)" using Some e by (simp split: prod.split)
    ultimately show ?thesis using Cons.IH [of w1] execute_async_sent [of env x w] e m by auto
  qed (use Cons.IH [of w] m in auto)
qed simp

lemma run_spawned_world:
  "snd (run_spawned stop env (One a) w) = (if stop then w else snd (execute_async env a w))"
  "snd (run_spawned stop env (Many as) w) = (if stop then w else snd (run_ops env as w))"
  by (simp_all split: prod.split)

lemma run_spawned_sent: "set (aw_sent (snd (run_spawned stop env g w))) \<subseteq> set (aw_sent w) \<union> requests (cuts g)"
  using execute_async_sent [of env _ w] run_ops_sent [of env _ w]
  by (cases g) (auto simp: run_spawned_world simp del: run_spawned.simps cuts.simps)

text \<open>Where netlink takes requests, every teardown of a coroutine is sent.\<close>

definition sends_requests :: "action_env \<Rightarrow> bool" where
  "sends_requests env \<longleftrightarrow> 0 \<le> ae_nl_fd env \<and> te_assign (ae_tcp env) \<and> te_wait_write (ae_tcp env) \<and> 0 \<le> te_sent (ae_tcp env)"

definition request_of :: "action_env \<Rightarrow> block_tcp_action \<Rightarrow> u8 list" where
  "request_of env t = destroy_request (TcpDestroyer (ae_nl_fd env) t)"

lemma execute_async_sends:
  assumes "sends_requests env"
  shows "set (aw_sent (snd (execute_async env a w))) = set (aw_sent w) \<union> request_of env ` cuts (One a)"
proof (cases a)
  case (BlockTcp t)
  then show ?thesis using assms
    by (auto simp: sends_requests_def BlockTcpAction_execute_def async_execute_def TcpDestroyer_def request_of_def Let_def
        split: option.split)
qed (auto split: prod.split)

lemma run_ops_sends:
  assumes "sends_requests env"
  shows "set (aw_sent (snd (run_ops env as w))) = set (aw_sent w) \<union> request_of env ` cuts (Many as)"
proof (induction as arbitrary: w)
  case (Cons a as)
  show ?case
  proof (cases a)
    case (Some x)
    obtain b w1 where e: "execute_async env x w = (b, w1)" by fastforce
    have "snd (run_ops env (a # as) w) = snd (run_ops env as w1)" using Some e by (simp split: prod.split)
    moreover have "cuts (Many (a # as)) = cuts (One x) \<union> cuts (Many as)" using Some by auto
    ultimately show ?thesis using Cons.IH [of w1] execute_async_sends [OF assms, of x w] e by auto
  qed (use Cons in auto)
qed simp

lemma run_spawned_sends:
  assumes "sends_requests env"
  shows "set (aw_sent (snd (run_spawned False env g w))) = set (aw_sent w) \<union> request_of env ` cuts g"
  by (cases g) (simp_all add: run_spawned_world execute_async_sends [OF assms] run_ops_sends [OF assms] del: run_spawned.simps)

section \<open>The invariant\<close>

abbreviation caused :: "sys_label list \<Rightarrow> system \<Rightarrow> block_tcp_action set" where
  "caused ls s \<equiv> {t. teardown_cause ls (xs_events (sy_kernel s)) (ss_events (sy_ssl s)) t}"

definition teardowns_ok :: "sys_label list \<Rightarrow> system \<Rightarrow> bool" where
  "teardowns_ok ls s \<longleftrightarrow> \<Union> (cuts ` set (al_pending (sy_action s))) \<subseteq> caused ls s \<and> set (sy_tcp_sent s) \<subseteq> requests (caused ls s)"

lemma caused_mono:
  assumes "xs_events (sy_kernel s') = xs_events (sy_kernel s) @ es" "ss_events (sy_ssl s') = ss_events (sy_ssl s) @ us"
  shows "caused ls s \<subseteq> caused (ls @ [l]) s'"
  using teardown_cause_mono unfolding assms by blast

lemma push_groups_cuts:
  "\<Union> (cuts ` set (al_pending (push_groups ok groups al))) \<subseteq>
     \<Union> (cuts ` set (al_pending al)) \<union> {t. \<exists>g \<in> set groups. BlockTcp t \<in> set g}"
proof
  fix t
  assume "t \<in> \<Union> (cuts ` set (al_pending (push_groups ok groups al)))"
  then obtain g where g: "g \<in> set (al_pending (push_groups ok groups al))" "t \<in> cuts g" by blast
  then consider "g \<in> set (al_pending al)" | g' where "g' \<in> set groups" "g = Many (map Some g')"
    using push_groups_pending [of ok groups al] by blast
  then show "t \<in> \<Union> (cuts ` set (al_pending al)) \<union> {t. \<exists>g \<in> set groups. BlockTcp t \<in> set g}"
    by cases (use g(2) in auto)
qed

text \<open>A step leaves what is pending and sent, or adds what was dispatched, or runs one coroutine.\<close>

lemma teardowns_ok_push:
  assumes "teardowns_ok ls s" "sy_action s' = push_groups ok groups (sy_action s)" "sy_tcp_sent s' = sy_tcp_sent s"
    and "xs_events (sy_kernel s') = xs_events (sy_kernel s)" "ss_events (sy_ssl s') = ss_events (sy_ssl s)"
    and "\<And>g t. g \<in> set groups \<Longrightarrow> BlockTcp t \<in> set g \<Longrightarrow>
           teardown_cause (ls @ [l]) (xs_events (sy_kernel s)) (ss_events (sy_ssl s)) t"
  shows "teardowns_ok (ls @ [l]) s'"
proof -
  have m: "caused ls s \<subseteq> caused (ls @ [l]) s'" by (rule caused_mono [of _ _ "[]" "[]"]) (simp_all add: assms)
  have "{t. \<exists>g \<in> set groups. BlockTcp t \<in> set g} \<subseteq> caused (ls @ [l]) s'" using assms(6) by (auto simp: assms(4,5))
  moreover have "\<Union> (cuts ` set (al_pending (sy_action s))) \<subseteq> caused (ls @ [l]) s'"
    by (rule subset_trans [OF _ m]) (use assms(1) in \<open>simp add: teardowns_ok_def\<close>)
  ultimately have "\<Union> (cuts ` set (al_pending (sy_action s'))) \<subseteq> caused (ls @ [l]) s'"
    unfolding assms(2) by (intro subset_trans [OF push_groups_cuts] Un_least)
  moreover have "set (sy_tcp_sent s') \<subseteq> requests (caused (ls @ [l]) s')"
    unfolding assms(3) by (rule subset_trans [OF _ requests_mono [OF m]]) (use assms(1) in \<open>simp add: teardowns_ok_def\<close>)
  ultimately show ?thesis by (simp add: teardowns_ok_def)
qed

lemma teardowns_ok_finish:
  assumes "sys_exec (Finish_record res dump now i f ok) s = Some s'" "events_ok ls s" "records_ok (cfg_expected_sni (parse_args argv)) s"
    and "teardowns_ok ls s"
  shows "teardowns_ok (ls @ [Finish_record res dump now i f ok]) s'"
proof -
  let ?dl = "sy_detect s"
  obtain out where e: "dl_exec res dump now (Finish i f) ?dl = Some (out, sy_detect s')"
    and s': "sy_action s' = push_groups ok (drop (length (dl_pushed ?dl)) (dl_pushed (sy_detect s'))) (sy_action s)"
      "sy_tcp_sent s' = sy_tcp_sent s" "sy_kernel s' = sy_kernel s" "sy_ssl s' = sy_ssl s"
    using assms(1) by auto
  have old: "\<And>r. r \<in> set (dl_running ?dl) \<Longrightarrow> genuine_record (cfg_expected_sni (parse_args argv)) s r"
    using assms(3) by (simp add: records_ok_def)
  have "teardown_cause (ls @ [Finish_record res dump now i f ok]) (xs_events (sy_kernel s)) (ss_events (sy_ssl s)) t"
    if b: "g \<in> set (drop (length (dl_pushed ?dl)) (dl_pushed (sy_detect s')))" "BlockTcp t \<in> set g" for g t
  proof -
    obtain r ds n v m where r: "r \<in> set (dl_running ?dl)" "rec_detections r = as_detections ds"
        "first_verdict ds (rec_bytes r) = Some (n, v, m)" "g = dispatched res dump now m v (dl_ctx ?dl)"
      using finish_step [OF e genuine_listed [OF old]] b(1) by auto
    show ?thesis by (rule record_cut_caused [OF old [OF r(1)] assms(2) r(2,3)]) (use b(2) r(4) in auto)
  qed
  then show ?thesis by (intro teardowns_ok_push [OF assms(4) s'(1,2)]) (simp_all add: s')
qed

lemma teardowns_ok_sweep:
  assumes "sys_exec (End_sweep res dump now inp ok) s = Some s'" "setup_ok env argv s" "teardowns_ok ls s"
  shows "teardowns_ok (ls @ [End_sweep res dump now inp ok]) s'"
proof -
  let ?inp = "inp\<lparr>si_walk := sy_walk s, si_ssl := sy_ssl s\<rparr>" and ?disp = "sweep_dispatch res dump now (dl_ctx (sy_detect s))"
  obtain groups ssl st where sw: "sweepAll ?disp ?inp (sy_sweep s) = Some (groups, ssl, st)"
    and s': "sy_action s' = push_groups ok groups (sy_action s)" "sy_tcp_sent s' = sy_tcp_sent s" "sy_kernel s' = sy_kernel s" "sy_ssl s' = ssl"
    using assms(1) by (auto split: if_splits)
  have "BlockTcp t \<notin> set g" if "g \<in> set groups" for g t
  proof (cases "st_rate (sy_sweep s)")
    case None
    then show ?thesis using that sweepAll_result(3) [OF sw] by (simp add: sweep_rates_def)
  next
    case (Some w)
    then show ?thesis
      using sweep_never_cuts [of g res dump now "dl_ctx (sy_detect s)" ?inp w t] that sweepAll_result(3) [OF sw] assms(2)
      by (auto simp: setup_ok_def)
  qed
  then show ?thesis using sweepAll_result(1) [OF sw]
    by (intro teardowns_ok_push [OF assms(3) s'(1,2)]) (auto simp: s')
qed

lemma teardowns_ok_act:
  assumes "sys_exec (Act env') s = Some s'" "teardowns_ok ls s"
  shows "teardowns_ok (ls @ [Act env']) s'"
proof -
  let ?w = "\<lparr>aw_blocklist = xs_blocklist (sy_kernel s), aw_sent = sy_tcp_sent s, aw_logged = sy_logged s\<rparr>"
  obtain g gs where g: "al_pending (sy_action s) = g # gs" "al_pending (sy_action s') = gs"
      "sy_tcp_sent s' = aw_sent (snd (run_spawned (al_stop (sy_action s)) (env'\<lparr>ae_blocklist := gp_blocklist (sy_program s)\<rparr>) g ?w))"
      "xs_events (sy_kernel s') = xs_events (sy_kernel s)" "ss_events (sy_ssl s') = ss_events (sy_ssl s)"
    using assms(1) by (auto split: list.splits)
  have m: "caused ls s \<subseteq> caused (ls @ [Act env']) s'" by (rule caused_mono [of _ _ "[]" "[]"]) (simp_all add: g)
  have p: "\<Union> (cuts ` set (g # gs)) \<subseteq> caused ls s" "set (sy_tcp_sent s) \<subseteq> requests (caused ls s)"
    using assms(2) g(1) by (auto simp: teardowns_ok_def)
  have "set (sy_tcp_sent s') \<subseteq> set (sy_tcp_sent s) \<union> requests (cuts g)"
    using run_spawned_sent [of "al_stop (sy_action s)" "env'\<lparr>ae_blocklist := gp_blocklist (sy_program s)\<rparr>" g ?w] by (simp add: g(3))
  moreover have "requests (cuts g) \<subseteq> requests (caused ls s)" by (rule requests_mono) (use p(1) in auto)
  ultimately have "set (sy_tcp_sent s') \<subseteq> requests (caused (ls @ [Act env']) s')" using p(2) requests_mono [OF m] by blast
  moreover have "\<Union> (cuts ` set (al_pending (sy_action s'))) \<subseteq> caused (ls @ [Act env']) s'"
    unfolding g(2) by (rule subset_trans [OF _ m]) (use p(1) in simp)
  ultimately show ?thesis by (simp add: teardowns_ok_def)
qed

lemma teardowns_ok_frame:
  assumes "teardowns_ok ls s" "al_pending (sy_action s') = al_pending (sy_action s)" "sy_tcp_sent s' = sy_tcp_sent s"
    and "sys_exec l s = Some s'"
  shows "teardowns_ok (ls @ [l]) s'"
proof -
  obtain es us where "xs_events (sy_kernel s') = xs_events (sy_kernel s) @ es" "ss_events (sy_ssl s') = ss_events (sy_ssl s) @ us"
    using sys_events_grow [OF assms(4)] by blast
  note m = caused_mono [OF this, of ls l]
  from assms(1) show ?thesis unfolding teardowns_ok_def assms(2,3)
    by (elim conjE) (intro conjI; erule subset_trans; rule m requests_mono [OF m])
qed

lemma teardowns_ok_step:
  assumes "sys_exec l s = Some s'" "sys_inv env argv ls s" "teardowns_ok ls s"
  shows "teardowns_ok (ls @ [l]) s'"
proof (cases l)
  case (Finish_record res dump now i f ok)
  have i: "events_ok ls s" "records_ok (cfg_expected_sni (parse_args argv)) s" using assms(2) by (simp_all add: sys_inv_def)
  show ?thesis using teardowns_ok_finish [OF _ i assms(3)] assms(1) Finish_record by blast
next
  case (End_sweep res dump now inp ok)
  have i: "setup_ok env argv s" using assms(2) by (simp add: sys_inv_def)
  show ?thesis using teardowns_ok_sweep [OF _ i assms(3)] assms(1) End_sweep by blast
next
  case (Act env')
  then show ?thesis using teardowns_ok_act assms by blast
qed (intro teardowns_ok_frame [OF assms(3) _ _ assms(1)]; use assms(1) in \<open>auto simp: Let_def split: if_splits prod.splits\<close>)+

lemma sys_reach_teardowns: "sys_reach env argv ls s \<Longrightarrow> teardowns_ok ls s"
proof (induction rule: sys_reach.induct)
  case (init s)
  then show ?case
    by (auto simp: teardowns_ok_def sys_start_def daemon_init_def pushAction_def ActionLoop_init_def Let_def split: if_splits prod.splits)
next
  case (step ls s l s')
  then show ?case using teardowns_ok_step sys_reach_inv by blast
qed

end
