(* ===== verification/Enforcement.thy ===== *)
theory Enforcement
  imports Teardown
begin

text \<open>
  What the composed daemon promises.  No offence is lost: in a run without failing calls every
  event of the packet path that calls for enforcement is in the ring buffer, in the detect loop
  or with the action thread until the group that blocks its source and tears its connection down has been executed, and
  from every state of such a run the threads can bring everything to rest.  And in any run nobody is blocked, and no
  connection torn down, without cause.
\<close>

section \<open>Runs without failing calls\<close>

text \<open>A step in which no allocation or spawn fails, the queue has room for what a poll delivers, the JSON library throws on
  nothing but text that is not UTF-8, and the daemon is not stopped.  With \<open>strict\<close>, it does not throw at all: no
  exception whatever.\<close>

fun flows :: "bool \<Rightarrow> sys_label \<Rightarrow> system \<Rightarrow> bool" where
  "flows strict (Poll_ring rl rc oks) s \<longleftrightarrow> list_all id oks \<and> dl_in_flight (sy_detect s) + length oks \<le> kMaxQueueDepth"
| "flows strict (Finish_record res dump now i fault spawn_ok) s \<longleftrightarrow> \<not> fault \<and> spawn_ok \<and> strict_dump dump \<and> utf8 now \<and>
     (strict \<longrightarrow> process res dump now (dl_running (sy_detect s) ! i) (sy_detect s) \<noteq> None)"
| "flows strict Stop_request s \<longleftrightarrow> False"
| "flows strict l s \<longleftrightarrow> True"

inductive sys_flow :: "bool \<Rightarrow> main_env \<Rightarrow> string list \<Rightarrow> sys_label list \<Rightarrow> system \<Rightarrow> bool" for strict env argv where
  init: "sys_start env argv = Some s \<Longrightarrow> me_detect_threads_ok env \<Longrightarrow> me_action_thread_ok env \<Longrightarrow> sys_flow strict env argv [] s"
| step: "sys_flow strict env argv ls s \<Longrightarrow> kernel_ok l \<Longrightarrow> flows strict l s \<Longrightarrow> sys_exec l s = Some s' \<Longrightarrow>
    sys_flow strict env argv (ls @ [l]) s'"

lemma sys_flow_reach: "sys_flow strict env argv ls s \<Longrightarrow> sys_reach env argv ls s"
  by (induction rule: sys_flow.induct) (auto intro: sys_reach.intros)

section \<open>The loops are running\<close>

definition loops_run :: "system \<Rightarrow> bool" where
  "loops_run s \<longleftrightarrow> (let dl = sy_detect s in dl_configured dl \<and> \<not> dl_stop dl \<and> \<not> dl_halted dl \<and>
     dl_in_flight dl = length (dl_queue dl) \<and> dc_action_loop (dl_ctx dl) \<and> dc_blocklist_ttl (dl_ctx dl) = kDefaultBlocklistTtl) \<and>
     \<not> al_stop (sy_action s)"

text \<open>The loop as a poll leaves it: its flags and context untouched, its queue only longer.\<close>

definition dl_polled :: "nat \<Rightarrow> detect_loop \<Rightarrow> detect_loop \<Rightarrow> bool" where
  "dl_polled n dl dl' \<longleftrightarrow> dl_configured dl' = dl_configured dl \<and> dl_stop dl' = dl_stop dl \<and> dl_halted dl' = dl_halted dl \<and>
     dl_ctx dl' = dl_ctx dl \<and> dl_running dl' = dl_running dl \<and> dl_pushed dl' = dl_pushed dl \<and>
     (\<exists>q. dl_queue dl' = dl_queue dl @ q \<and> dl_in_flight dl' = dl_in_flight dl + length q \<and> length q \<le> n)"

lemma routed_polled: "dl_polled 1 dl (routed rl sni x dl)"
  by (cases x) (auto simp: dl_polled_def routed_def submit_def countDrop_def Let_def split: option.split)

lemma polled_trans: "dl_polled m a b \<Longrightarrow> dl_polled n b c \<Longrightarrow> dl_polled (m + n) a c"
  by (auto simp: dl_polled_def)

lemma fold_routed_polled: "dl_polled (length xs) dl (fold (routed rl sni) xs dl)"
proof (induction xs arbitrary: dl)
  case Nil
  then show ?case by (simp add: dl_polled_def)
next
  case (Cons x xs)
  from polled_trans [OF routed_polled Cons.IH] show ?case by simp
qed

lemma fold_routed_offence:
  assumes "wf_xdp_event e" "hdr_event_source (xdp_hdr e) = HG_SOURCE_XDP" "(encode_xdp_event e, True) \<in> set xs"
    and "dl_configured dl" "\<not> dl_stop dl" "dl_in_flight dl + length xs \<le> kMaxQueueDepth"
  shows "\<lparr>rec_bytes = encode_xdp_event e, rec_detections = as_detections (xdp_detections sni)\<rparr> \<in> set (dl_queue (fold (routed rl sni) xs dl))"
  using assms(3-6)
proof (induction xs arbitrary: dl)
  case (Cons x xs)
  let ?dl = "routed rl sni x dl"
  show ?case
  proof (cases "x = (encode_xdp_event e, True)")
    case True
    have "\<lparr>rec_bytes = encode_xdp_event e, rec_detections = as_detections (xdp_detections sni)\<rparr> \<in> set (dl_queue ?dl)"
      using routed_events(1) [OF _ _ _ assms(1,2), of dl] Cons.prems True by simp
    then show ?thesis using fold_routed_polled [of xs ?dl rl sni] by (auto simp: dl_polled_def)
  next
    case False
    show ?thesis
      using Cons.IH [of ?dl] Cons.prems False routed_polled [of dl rl sni x] by (auto simp: dl_polled_def)
  qed
qed simp

lemma finish_frame:
  assumes "dl_exec res dump now (Finish i fault) dl = Some (out, dl')"
  shows "i < length (dl_running dl)" "dl_running dl' = remove_nth i (dl_running dl)" "dl_queue dl' = dl_queue dl"
    "dl_configured dl' = dl_configured dl" "dl_stop dl' = dl_stop dl" "dl_halted dl' = dl_halted dl"
    "dl_in_flight dl' = dl_in_flight dl" "dl_ctx dl' = dl_ctx dl"
  using assms
  by (auto simp: Let_def handleRecord_finish_def process_frame split: if_splits option.splits)

lemma push_groups_stop: "al_stop (push_groups ok groups al) = al_stop al"
  unfolding push_groups_def by (induction groups arbitrary: al) (auto simp: pushActions_def)

lemma loops_run_step:
  assumes "sys_exec l s = Some s'" "flows strict l s" "setup_ok env argv s" "loops_run s"
  shows "loops_run s'"
proof (cases l)
  case (Poll_ring rl rc oks)
  then have d: "sy_detect s' = fold (routed rl (cfg_expected_sni (parse_args argv))) (zip (sy_ring s) oks) (sy_detect s)"
      "sy_action s' = sy_action s"
    using assms(1) poll_routed [OF assms(3)] by (auto split: if_splits)
  show ?thesis using assms(4) fold_routed_polled [of "zip (sy_ring s) oks" "sy_detect s" rl "cfg_expected_sni (parse_args argv)"] d
    by (auto simp: loops_run_def dl_polled_def Let_def)
next
  case (Finish_record res dump now i f ok)
  then obtain out where e: "dl_exec res dump now (Finish i f) (sy_detect s) = Some (out, sy_detect s')"
      "al_stop (sy_action s') = al_stop (sy_action s)"
    using assms(1) by (auto simp: push_groups_stop)
  show ?thesis using assms(4) finish_frame [OF e(1)] e(2) by (simp add: loops_run_def Let_def)
next
  case Start_record
  then show ?thesis using assms(1,4) by (auto simp: loops_run_def handleRecord_start_def Let_def split: if_splits list.splits)
next
  case (End_sweep res dump now inp ok)
  then show ?thesis using assms(1,4) by (auto simp: loops_run_def push_groups_stop split: if_splits)
next
  case (Act env')
  then show ?thesis using assms(1,4) by (auto simp: loops_run_def split: list.splits)
qed (use assms in \<open>auto simp: loops_run_def Let_def split: if_splits\<close>)

section \<open>No offence is lost\<close>

text \<open>A group that answers an event of the packet path blocks its source, and tears its connection down if the event
  knows both ends.\<close>

definition full_tuple :: "hg_conn_tuple \<Rightarrow> bool" where
  "full_tuple c \<longleftrightarrow> ct_dst_ip_v4 c \<noteq> 0 \<and> ct_dst_port c \<noteq> 0 \<and> ct_src_port c \<noteq> 0"

definition answers :: "xdp_event \<Rightarrow> spawned \<Rightarrow> bool" where
  "answers e g \<longleftrightarrow> ct_src_ip_v4 (xdp_conn e) \<in> blocks g \<and>
     (full_tuple (xdp_conn e) \<longrightarrow> (\<exists>t \<in> cuts g. tuple_of t = packet_tuple (xdp_conn e)))"

text \<open>Where an offence of the packet path is, until a group that answers it has been executed.\<close>

definition awaiting :: "string \<Rightarrow> system \<Rightarrow> xdp_event \<Rightarrow> bool" where
  "awaiting sni s e \<longleftrightarrow> encode_xdp_event e \<in> set (sy_ring s) \<or>
     \<lparr>rec_bytes = encode_xdp_event e, rec_detections = as_detections (xdp_detections sni)\<rparr>
       \<in> set (dl_queue (sy_detect s)) \<union> set (dl_running (sy_detect s)) \<or>
     (\<exists>g \<in> set (al_pending (sy_action s)). answers e g)"

definition answered :: "system \<Rightarrow> xdp_event \<Rightarrow> bool" where
  "answered s e \<longleftrightarrow> (\<exists>g \<in> set (sy_executed s). answers e g)"

text \<open>The report of an offence is valid UTF-8 exactly when the command name in its event is.\<close>

definition printable :: "xdp_event \<Rightarrow> bool" where
  "printable e \<longleftrightarrow> utf8 (boundedString (hdr_comm (xdp_hdr e)))"

lemma offence_reportable:
  assumes "decode_xdp_event data = Some e" "first_verdict (xdp_detections sni) data = Some (n, v, m)" "xdp_offence e"
  shows "reportable v \<longleftrightarrow> printable e"
proof -
  let ?m = "xdp_fill e EventMeta_init"
  let ?t = "TlsVersionDetector_evaluate (TlsVersionEvent xdp_traits ?m e)" and ?p = "PayloadAnomalyDetector_evaluate (PayloadEvent xdp_traits ?m e)"
  have tr: "rt_decode xdp_traits = decode_xdp_event" "rt_fill xdp_traits = xdp_fill" by (simp_all add: xdp_traits_def)
  have m: "em_process ?m = boundedString (hdr_comm (xdp_hdr e))" by (simp add: xdp_fill_def fillConnection_def fillEnvelope_def)
  have meta: "tv_meta (TlsVersionEvent xdp_traits ?m e) = ?m" "pl_meta (PayloadEvent xdp_traits ?m e) = ?m"
    by (simp_all add: TlsVersionEvent_def PayloadEvent_def)
  have "?t = Some v \<or> ?p = Some v"
  proof (cases ?t)
    case (Some w)
    then show ?thesis using assms(1,2) by (simp add: xdp_detections_def TlsVersionDetection_inspect_def tr Let_def)
  next
    case None
    then have "?p \<noteq> None" using assms(3) TlsVersion_xdp_fires [of ?m e] unfolding Payload_fires
      by (simp add: PayloadEvent_def xdp_traits_def xdp_offence_def)
    then show ?thesis using None assms(1,2)
      by (auto simp: xdp_detections_def TlsVersionDetection_inspect_def PayloadAnomalyDetection_inspect_def tr Let_def)
  qed
  then show ?thesis
  proof
    assume "?t = Some v"
    from tls_version_reportable [OF this] show ?thesis by (simp add: meta m printable_def)
  next
    assume "?p = Some v"
    from payload_anomaly_reportable [OF this] show ?thesis by (simp add: meta m printable_def)
  qed
qed

definition offences_ok :: "bool \<Rightarrow> string \<Rightarrow> system \<Rightarrow> bool" where
  "offences_ok strict sni s \<longleftrightarrow> (\<forall>e \<in> set (xs_events (sy_kernel s)).
     xdp_offence e \<and> ct_src_ip_v4 (xdp_conn e) \<noteq> 0 \<and> (strict \<or> printable e) \<longrightarrow> awaiting sni s e \<or> answered s e)"

lemma pushActions_spawned:
  "\<not> al_stop al \<Longrightarrow> g \<noteq> [] \<Longrightarrow> al_pending (push_groups True [g] al) = al_pending al @ [Many (map Some g)]"
  by (simp add: push_groups_def pushActions_def)

lemma push_groups_keeps: "set (al_pending al) \<subseteq> set (al_pending (push_groups ok groups al))"
  unfolding push_groups_def
proof (induction groups arbitrary: al)
  case (Cons g groups)
  have "set (al_pending al) \<subseteq> set (al_pending (pushActions ok (map Some g) al))" by (auto simp: pushActions_def)
  with Cons.IH [of "pushActions ok (map Some g) al"] show ?case by auto
qed simp

lemma dispatched_returned:
  assumes "dc_action_loop ctx" "dispatchVerdict resolve dump now m v ctx \<noteq> None"
  shows "\<exists>l. dispatched resolve dump now m v ctx =
     (if actionable v then fst (enforcement (snd (ensurePeerResolved resolve m)) v ctx) else []) @ [Log l]"
proof -
  obtain as n where d: "dispatchVerdict resolve dump now m v ctx = Some (as, n)" using assms(2) by auto
  from dispatch_actions [OF assms(1) d] show ?thesis by (auto simp: dispatched_def d)
qed

lemma xdp_dispatch_blocklists:
  assumes "dc_action_loop ctx" "actionable v" "ct_src_ip_v4 (xdp_conn e) \<noteq> 0"
    and "dispatchVerdict resolve dump now (xdp_fill e EventMeta_init) v ctx \<noteq> None"
  shows "BlocklistAdd \<lparr>act_src_ip_v4 = ct_src_ip_v4 (xdp_conn e), act_ttl = dc_blocklist_ttl ctx, act_reason = message v\<rparr>
     \<in> set (dispatched resolve dump now (xdp_fill e EventMeta_init) v ctx)"
  using assms(2,3) dispatched_returned [OF assms(1,4)] by (auto simp: enforcement_def xdp_fill_remote Let_def)

lemma xdp_dispatch_answers:
  assumes "dc_action_loop ctx" "actionable v" "ct_src_ip_v4 (xdp_conn e) \<noteq> 0"
    and "dispatchVerdict resolve dump now (xdp_fill e EventMeta_init) v ctx \<noteq> None"
  shows "answers e (Many (map Some (dispatched resolve dump now (xdp_fill e EventMeta_init) v ctx)))"
proof -
  let ?m = "snd (ensurePeerResolved resolve (xdp_fill e EventMeta_init))" and ?c = "xdp_conn e"
  let ?as = "dispatched resolve dump now (xdp_fill e EventMeta_init) v ctx"
  have m: "em_remote_ip ?m = setV4 (ct_src_ip_v4 ?c) IpAddress_init" "em_local_ip ?m = setV4 (ct_dst_ip_v4 ?c) IpAddress_init"
      "em_remote_port ?m = ct_src_port ?c" "em_local_port ?m = ct_dst_port ?c"
    by (simp_all add: ensurePeerResolved_no_resolver xdp_fill_def fillConnection_def fillEnvelope_def EventMeta_init_def)
  have "\<exists>t. BlockTcp t \<in> set ?as \<and> tuple_of t = packet_tuple ?c" if "full_tuple ?c"
  proof -
    have "ip_bytes16 (setV4 a IpAddress_init) = le_bytes 4 a @ replicate 12 0" "ip_family (setV4 a IpAddress_init) = kV4" for a
      by (simp_all add: setV4_def)
    then show ?thesis using assms(2,3) that dispatched_returned [OF assms(1,4)]
      by (auto simp: enforcement_def m full_tuple_def tuple_of_def packet_tuple_def Let_def)
  qed
  with xdp_dispatch_blocklists [OF assms] show ?thesis by (force simp: answers_def)
qed

text \<open>Classifying an offence spawns a group that answers it, unless the JSON library throws.\<close>

lemma process_throws_frame: "process res dump now r (dl\<lparr>dl_running := x\<rparr>) = None \<longleftrightarrow> process res dump now r dl = None"
  by (simp add: process_def Let_def split: option.split prod.split)

lemma finish_offence:
  assumes "loops_run s" "wf_xdp_event e" "xdp_offence e" "ct_src_ip_v4 (xdp_conn e) \<noteq> 0"
    and "dl_exec res dump now (Finish i False) (sy_detect s) = Some (out, dl')"
    and "dl_running (sy_detect s) ! i = \<lparr>rec_bytes = encode_xdp_event e, rec_detections = as_detections (xdp_detections sni)\<rparr>"
    and "strict_dump dump" "utf8 now" "process res dump now (dl_running (sy_detect s) ! i) (sy_detect s) \<noteq> None \<or> printable e"
  shows "\<exists>g. drop (length (dl_pushed (sy_detect s))) (dl_pushed dl') = [g] \<and> g \<noteq> [] \<and> answers e (Many (map Some g))"
proof -
  let ?dl = "sy_detect s" and ?r = "\<lparr>rec_bytes = encode_xdp_event e, rec_detections = as_detections (xdp_detections sni)\<rparr>"
  let ?dl1 = "?dl\<lparr>dl_running := remove_nth i (dl_running ?dl)\<rparr>"
  have loop: "dc_action_loop (dl_ctx ?dl)" using assms(1) by (simp add: loops_run_def Let_def)
  have "sizeof_xdp_event \<le> length (rec_bytes ?r)" using assms(2) by (simp add: length_encode)
  moreover have "dc_action_loop (dl_ctx ?dl1)" using loop by simp
  ultimately obtain n v m where p: "first_verdict (xdp_detections sni) (encode_xdp_event e) = Some (n, v, m)"
      "process res dump now ?r ?dl1 =
         map_option (\<lambda>(response, _). ?dl1\<lparr>dl_pushed := dl_pushed ?dl @ [response]\<rparr>) (dispatchVerdict res dump now m v (dl_ctx ?dl))"
    using xdp_list.claimed [of ?r sni ?dl1 res dump now] by auto
  have d: "decode_xdp_event (encode_xdp_event e) = Some e" using decode_encode_xdp [OF assms(2), of "[]"] by simp
  have m: "m = xdp_fill e EventMeta_init" "actionable v"
    using xdp_first_verdict [OF d, of sni] p(1) assms(3) by (auto simp: xdp_offence_def)
  have "dispatchVerdict res dump now m v (dl_ctx ?dl) \<noteq> None"
    using assms(9) p(2) process_throws_frame [of res dump now ?r "remove_nth i (dl_running ?dl)" ?dl]
      dispatch_throws [OF loop assms(7,8), of res m v] offence_reportable [OF d p(1) assms(3)] by (auto simp: assms(6))
  then have ret: "dispatchVerdict res dump now (xdp_fill e EventMeta_init) v (dl_ctx ?dl) \<noteq> None" by (simp add: m(1))
  then have "dl_pushed dl' = dl_pushed ?dl @ [dispatched res dump now m v (dl_ctx ?dl)]"
    using assms(5,6) p(2) by (auto simp: Let_def handleRecord_finish_def dispatched_def m(1) split: if_splits)
  moreover note b = xdp_dispatch_answers [OF loop m(2) assms(4) ret]
  moreover have "dispatched res dump now m v (dl_ctx ?dl) \<noteq> []" using b by (auto simp: m(1) answers_def)
  ultimately show ?thesis by (intro exI [of _ "dispatched res dump now m v (dl_ctx ?dl)"]) (simp add: m(1))
qed

lemma awaiting_finish:
  assumes "sys_exec (Finish_record res dump now i False True) s = Some s'" "loops_run s"
    and "wf_xdp_event e" "xdp_offence e" "ct_src_ip_v4 (xdp_conn e) \<noteq> 0" "awaiting sni s e"
    and "flows strict (Finish_record res dump now i False True) s" "strict \<or> printable e"
  shows "awaiting sni s' e"
proof -
  let ?dl = "sy_detect s" and ?r = "\<lparr>rec_bytes = encode_xdp_event e, rec_detections = as_detections (xdp_detections sni)\<rparr>"
  obtain out dl' where e: "dl_exec res dump now (Finish i False) ?dl = Some (out, dl')" and s': "s' = s\<lparr>sy_detect := dl',
      sy_action := push_groups True (drop (length (dl_pushed ?dl)) (dl_pushed dl')) (sy_action s)\<rparr>"
    using assms(1) by auto
  note fr = finish_frame [OF e]
  show ?thesis
  proof (cases "?r \<in> set (dl_running ?dl)")
    case True
    show ?thesis
    proof (cases "dl_running ?dl ! i = ?r")
      case True
      have fl: "strict_dump dump" "utf8 now" "process res dump now (dl_running ?dl ! i) ?dl \<noteq> None \<or> printable e"
        using assms(7,8) by auto
      from finish_offence [OF assms(2-5) e True fl] obtain g where g: "drop (length (dl_pushed ?dl)) (dl_pushed dl') = [g]" "g \<noteq> []"
          "answers e (Many (map Some g))" by blast
      have "al_pending (sy_action s') = al_pending (sy_action s) @ [Many (map Some g)]"
        using pushActions_spawned [OF _ g(2)] assms(2) by (simp add: s' g(1) loops_run_def)
      then show ?thesis using g(3) by (simp add: awaiting_def)
    next
      case False
      have "set (dl_running ?dl) = insert (dl_running ?dl ! i) (set (remove_nth i (dl_running ?dl)))"
        using arg_cong [OF mset_remove_nth [OF fr(1)], of set_mset] by simp
      then have "?r \<in> set (remove_nth i (dl_running ?dl))" using True False by (metis insert_iff)
      then show ?thesis by (simp add: awaiting_def s' fr(2))
    qed
  next
    case False
    have "set (al_pending (sy_action s)) \<subseteq> set (al_pending (sy_action s'))" unfolding s' by (simp add: push_groups_keeps)
    moreover have "sy_ring s' = sy_ring s" "dl_queue (sy_detect s') = dl_queue ?dl" by (simp_all add: s' fr(3))
    ultimately show ?thesis using assms(6) False unfolding awaiting_def by auto
  qed
qed

lemma awaiting_poll:
  assumes "sys_exec (Poll_ring rl rc oks) s = Some s'" "flows strict (Poll_ring rl rc oks) s" "setup_ok env argv s" "loops_run s"
    and "wf_xdp_event e" "hdr_event_source (xdp_hdr e) = HG_SOURCE_XDP" "awaiting (cfg_expected_sni (parse_args argv)) s e"
  shows "awaiting (cfg_expected_sni (parse_args argv)) s' e"
proof -
  let ?sni = "cfg_expected_sni (parse_args argv)" and ?xs = "zip (sy_ring s) oks"
  have s': "sy_ring s' = drop (length oks) (sy_ring s)" "sy_detect s' = fold (routed rl ?sni) ?xs (sy_detect s)" "sy_action s' = sy_action s"
      "length oks \<le> length (sy_ring s)"
    using assms(1) poll_routed [OF assms(3)] by (auto split: if_splits)
  note q = fold_routed_polled [of ?xs "sy_detect s" rl ?sni, folded s'(2)]
  have "awaiting ?sni s' e" if "encode_xdp_event e \<in> set (take (length oks) (sy_ring s))"
  proof -
    from that obtain i where i: "i < length oks" "sy_ring s ! i = encode_xdp_event e" using s'(4) by (auto simp: in_set_conv_nth)
    have "oks ! i" using assms(2) i(1) by (simp add: list_all_length)
    then have "(encode_xdp_event e, True) \<in> set ?xs" using i s'(4) by (auto simp: set_zip intro!: exI [of _ i])
    from fold_routed_offence [OF assms(5,6) this, of "sy_detect s" ?sni rl] assms(2,4) s'(2,4)
    show ?thesis by (simp add: awaiting_def loops_run_def Let_def)
  qed
  moreover have "set (sy_ring s) = set (take (length oks) (sy_ring s)) \<union> set (sy_ring s')" unfolding s'(1) by (simp flip: set_append)
  ultimately show ?thesis using assms(7) q s'(3) by (auto simp: awaiting_def dl_polled_def)
qed

lemma awaiting_act:
  assumes "sys_exec (Act env) s = Some s'" "loops_run s" "awaiting sni s e \<or> answered s e"
  shows "awaiting sni s' e \<or> answered s' e"
proof -
  obtain g gs where "al_pending (sy_action s) = g # gs" "al_pending (sy_action s') = gs" "sy_executed s' = sy_executed s @ [g]"
      "sy_ring s' = sy_ring s" "sy_detect s' = sy_detect s"
    using assms(1,2) by (auto simp: loops_run_def split: list.splits)
  then show ?thesis using assms(3) by (auto simp: awaiting_def answered_def)
qed

lemma awaiting_start:
  assumes "sys_exec Start_record s = Some s'" "awaiting sni s e"
  shows "awaiting sni s' e"
  using assms by (auto simp: awaiting_def handleRecord_start_def split: if_splits list.splits)

lemma awaiting_same:
  assumes "set (sy_ring s) \<subseteq> set (sy_ring s')" "sy_detect s' = sy_detect s"
    "set (al_pending (sy_action s)) \<subseteq> set (al_pending (sy_action s'))" "awaiting sni s e"
  shows "awaiting sni s' e"
  using assms(1,3,4) unfolding awaiting_def assms(2) by blast

lemma offence_packet:
  assumes "sys_exec l s = Some s'" "e \<in> set (xs_events (sy_kernel s'))"
  shows "e \<in> set (xs_events (sy_kernel s)) \<or> encode_xdp_event e \<in> set (sy_ring s')"
proof (cases l)
  case (Packet upd env pkt)
  then show ?thesis using assms packet_events [of upd env "sy_kernel s" pkt] by (auto simp: submitted_def Let_def)
qed (use assms in \<open>auto simp: Let_def split: if_splits prod.splits\<close>)

lemma offences_ok_step:
  assumes "sys_exec l s = Some s'" "flows strict l s" "setup_ok env argv s" "events_ok ls s" "loops_run s"
    "offences_ok strict (cfg_expected_sni (parse_args argv)) s"
  shows "offences_ok strict (cfg_expected_sni (parse_args argv)) s'"
  unfolding offences_ok_def
proof (intro ballI impI)
  let ?sni = "cfg_expected_sni (parse_args argv)"
  fix e
  assume e: "e \<in> set (xs_events (sy_kernel s'))" and off: "xdp_offence e \<and> ct_src_ip_v4 (xdp_conn e) \<noteq> 0 \<and> (strict \<or> printable e)"
  show "awaiting ?sni s' e \<or> answered s' e"
  proof (cases "e \<in> set (xs_events (sy_kernel s))")
    case False
    then show ?thesis using offence_packet [OF assms(1) e] by (simp add: awaiting_def)
  next
    case True
    then have ev: "wf_xdp_event e" "hdr_event_source (xdp_hdr e) = HG_SOURCE_XDP" using assms(4) by (auto simp: events_ok_def)
    have old: "awaiting ?sni s e \<or> answered s e" using assms(6) True off by (simp add: offences_ok_def)
    show ?thesis
    proof (cases l)
      case (Poll_ring rl rc oks)
      have "sy_executed s' = sy_executed s" using assms(1) Poll_ring by (auto simp: Let_def split: if_splits prod.splits)
      then show ?thesis using old awaiting_poll [OF _ _ assms(3,5) ev] assms(1,2) Poll_ring by (auto simp: answered_def simp del: flows.simps sys_exec.simps)
    next
      case (Finish_record res dump now i f ok)
      have "sy_executed s' = sy_executed s" using assms(1) Finish_record by auto
      have f: "f = False" "ok = True" using assms(2) Finish_record by simp_all
      show ?thesis using old \<open>sy_executed s' = sy_executed s\<close> awaiting_finish [OF assms(1) [unfolded Finish_record f] assms(5) ev(1)]
          assms(2) [unfolded Finish_record f] off by (auto simp: answered_def simp del: flows.simps)
    next
      case Start_record
      have "sy_executed s' = sy_executed s" using assms(1) Start_record by auto
      then show ?thesis using old awaiting_start assms(1) Start_record by (auto simp: answered_def simp del: sys_exec.simps)
    next
      case (Act env')
      then show ?thesis using awaiting_act [OF _ assms(5) old] assms(1) by blast
    next
      case (End_sweep res dump now inp ok)
      have "sy_executed s' = sy_executed s" "sy_ring s' = sy_ring s" "sy_detect s' = sy_detect s"
          "set (al_pending (sy_action s)) \<subseteq> set (al_pending (sy_action s'))"
        using assms(1) End_sweep by (auto split: if_splits intro: subsetD [OF push_groups_keeps])
      then show ?thesis using old awaiting_same [of s s' ?sni e] by (auto simp: answered_def)
    next
      case Stop_request
      then show ?thesis using assms(2) by simp
    qed (use old assms(1) awaiting_same [of s s' ?sni e] in \<open>auto simp: answered_def Let_def split: if_splits\<close>)
  qed
qed

section \<open>The backlog\<close>

definition at_rest :: "system \<Rightarrow> bool" where
  "at_rest s \<longleftrightarrow> sy_ring s = [] \<and> dl_queue (sy_detect s) = [] \<and> dl_running (sy_detect s) = [] \<and> al_pending (sy_action s) = []"

text \<open>Steps that work off what has been submitted, and a measure of what is left.\<close>

fun working :: "sys_label \<Rightarrow> bool" where
  "working (Poll_ring rl rc oks) \<longleftrightarrow> oks \<noteq> []"
| "working Start_record \<longleftrightarrow> True"
| "working (Finish_record res dump now i fault spawn_ok) \<longleftrightarrow> True"
| "working (Act env) \<longleftrightarrow> True"
| "working _ \<longleftrightarrow> False"

definition backlog :: "system \<Rightarrow> nat" where
  "backlog s = 4 * length (sy_ring s) + 3 * length (dl_queue (sy_detect s)) + 2 * length (dl_running (sy_detect s))
     + length (al_pending (sy_action s))"

lemma push_groups_length: "length (al_pending (push_groups ok groups al)) \<le> length (al_pending al) + length groups"
  unfolding push_groups_def
proof (induction groups arbitrary: al)
  case (Cons g groups)
  have "length (al_pending (pushActions ok (map Some g) al)) \<le> Suc (length (al_pending al))" by (simp add: pushActions_def)
  with Cons.IH [of "pushActions ok (map Some g) al"] show ?case by simp
qed simp

lemma finish_pushed:
  assumes "dl_exec res dump now (Finish i fault) dl = Some (out, dl')"
  shows "length (drop (length (dl_pushed dl)) (dl_pushed dl')) \<le> 1"
  using assms by (auto simp: Let_def handleRecord_finish_def process_def split: if_splits option.splits prod.splits)

lemma working_decreases:
  assumes "sys_exec l s = Some s'" "working l" "setup_ok env argv s"
  shows "backlog s' < backlog s"
proof (cases l)
  case (Poll_ring rl rc oks)
  let ?sni = "cfg_expected_sni (parse_args argv)" and ?xs = "zip (sy_ring s) oks"
  have s': "sy_ring s' = drop (length oks) (sy_ring s)" "sy_detect s' = fold (routed rl ?sni) ?xs (sy_detect s)" "sy_action s' = sy_action s"
      "length oks \<le> length (sy_ring s)" "0 < length oks"
    using assms(1,2) Poll_ring poll_routed [OF assms(3)] by (auto split: if_splits)
  from fold_routed_polled [of ?xs "sy_detect s" rl ?sni, folded s'(2)] obtain q where "dl_queue (sy_detect s') = dl_queue (sy_detect s) @ q"
      "length q \<le> length oks" "dl_running (sy_detect s') = dl_running (sy_detect s)" using s'(4) by (auto simp: dl_polled_def)
  then show ?thesis using s'(4,5) by (simp add: backlog_def s'(1,3) del: length_greater_0_conv)
next
  case Start_record
  then show ?thesis using assms(1) by (auto simp: backlog_def handleRecord_start_def split: if_splits list.splits)
next
  case (Finish_record res dump now i f ok)
  then obtain out dl' where e: "dl_exec res dump now (Finish i f) (sy_detect s) = Some (out, dl')" and s': "s' = s\<lparr>sy_detect := dl',
      sy_action := push_groups ok (drop (length (dl_pushed (sy_detect s))) (dl_pushed dl')) (sy_action s)\<rparr>"
    using assms(1) by auto
  have "length (dl_running (sy_detect s)) = Suc (length (dl_running dl'))"
    using finish_frame(1,2) [OF e] by (simp add: remove_nth_def)
  moreover have "length (al_pending (sy_action s')) \<le> length (al_pending (sy_action s)) + 1"
    using push_groups_length [of ok "drop (length (dl_pushed (sy_detect s))) (dl_pushed dl')" "sy_action s"] finish_pushed [OF e]
    by (simp add: s')
  ultimately show ?thesis using finish_frame(3) [OF e] by (simp add: backlog_def s')
next
  case (Act env')
  then show ?thesis using assms(1) by (auto simp: backlog_def split: list.splits)
qed (use assms(2) in simp_all)

lemma working_bounded:
  assumes "setup_ok env argv s" "list_all working ls" "sys_run ls s = Some s'"
  shows "length ls \<le> backlog s"
  using assms
proof (induction ls arbitrary: s)
  case (Cons l ls)
  then obtain s1 where e: "sys_exec l s = Some s1" "sys_run ls s1 = Some s'" by (auto simp: bind_eq_Some_conv)
  have "length ls \<le> backlog s1" using Cons.IH [OF setup_ok_step [OF e(1) Cons.prems(1)] _ e(2)] Cons.prems(2) by simp
  then show ?case using working_decreases [OF e(1) _ Cons.prems(1)] Cons.prems(2) by simp
qed simp

text \<open>While there is a backlog some working step is enabled, and needs no room the queue has not, whatever the JSON library
  does, as long as it throws only as documented.\<close>

fun dumps_with :: "json_dump \<Rightarrow> string \<Rightarrow> sys_label \<Rightarrow> bool" where
  "dumps_with dump now (Finish_record res d n i fault spawn_ok) \<longleftrightarrow> d = dump \<and> n = now"
| "dumps_with dump now _ \<longleftrightarrow> True"

definition next_work :: "json_dump \<Rightarrow> string \<Rightarrow> action_env \<Rightarrow> system \<Rightarrow> sys_label" where
  "next_work dump now env s =
     (if dl_running (sy_detect s) \<noteq> [] then Finish_record (\<lambda>m. (False, m)) dump now 0 False True
      else if dl_queue (sy_detect s) \<noteq> [] then Start_record
      else if sy_ring s \<noteq> [] then Poll_ring (\<lambda>_ _. None) 1 [True]
      else Act env)"

lemma next_work_enabled:
  assumes "\<not> at_rest s" "loops_run s" "setup_ok env argv s" "bpf_hash_map (ae_update aenv)" "strict_dump dump" "utf8 now"
  shows "\<exists>s'. sys_exec (next_work dump now aenv s) s = Some s'" "flows False (next_work dump now aenv s) s" "working (next_work dump now aenv s)" "kernel_ok (next_work dump now aenv s)"
    "dumps_with dump now (next_work dump now aenv s)"
proof -
  have r: "\<not> dl_halted (sy_detect s)" "dl_in_flight (sy_detect s) = length (dl_queue (sy_detect s))"
    using assms(2) by (simp_all add: loops_run_def Let_def)
  show "flows False (next_work dump now aenv s) s" "working (next_work dump now aenv s)" "kernel_ok (next_work dump now aenv s)"
      "dumps_with dump now (next_work dump now aenv s)"
    using r(2) assms(4-6) by (auto simp: next_work_def kMaxQueueDepth_def)
  show "\<exists>s'. sys_exec (next_work dump now aenv s) s = Some s'"
  proof (cases "dl_running (sy_detect s) = [] \<and> dl_queue (sy_detect s) = []")
    case True
    then show ?thesis using assms(1) poll_routed [OF assms(3)] by (cases "sy_ring s") (auto simp: next_work_def at_rest_def neq_Nil_conv)
  next
    case False
    then show ?thesis using r(1) by (auto simp: next_work_def neq_Nil_conv Let_def)
  qed
qed

section \<open>What the pending actions do\<close>

fun adds :: "spawned \<Rightarrow> blocklist_add_action set" where
  "adds (One a) = {b. a = BlocklistAdd b}"
| "adds (Many as) = {b. Some (BlocklistAdd b) \<in> set as}"

lemma blocks_adds: "blocks g = act_src_ip_v4 ` adds g"
  by (cases g) auto

definition ttl_ok :: "system \<Rightarrow> bool" where
  "ttl_ok s \<longleftrightarrow> (\<forall>g \<in> set (al_pending (sy_action s)). \<forall>b \<in> adds g. act_ttl b = kDefaultBlocklistTtl)"

lemma dispatched_ttl:
  assumes "BlocklistAdd b \<in> set (dispatched res dump now m v ctx)"
  shows "act_ttl b = dc_blocklist_ttl ctx"
  using in_dispatched [OF assms] in_enforcement(2) by auto

lemma ttl_ok_push:
  assumes "ttl_ok s" "sy_action s' = push_groups ok groups (sy_action s)"
    and "\<And>g b. g \<in> set groups \<Longrightarrow> BlocklistAdd b \<in> set g \<Longrightarrow> act_ttl b = kDefaultBlocklistTtl"
  shows "ttl_ok s'"
  unfolding ttl_ok_def
proof (intro ballI)
  fix g b
  assume g: "g \<in> set (al_pending (sy_action s'))" "b \<in> adds g"
  then consider "g \<in> set (al_pending (sy_action s))" | g' where "g' \<in> set groups" "g = Many (map Some g')"
    using push_groups_pending [of ok groups "sy_action s"] assms(2) by auto
  then show "act_ttl b = kDefaultBlocklistTtl" by cases (use assms(1,3) g(2) in \<open>auto simp: ttl_ok_def\<close>)
qed

lemma ttl_ok_step:
  assumes "sys_exec l s = Some s'" "setup_ok env argv s" "records_ok sni s" "loops_run s" "ttl_ok s"
  shows "ttl_ok s'"
proof -
  have ttl: "dc_blocklist_ttl (dl_ctx (sy_detect s)) = kDefaultBlocklistTtl" using assms(4) by (simp add: loops_run_def Let_def)
  show ?thesis
  proof (cases l)
    case (Finish_record res dump now i f ok)
    let ?groups = "drop (length (dl_pushed (sy_detect s))) (dl_pushed (sy_detect s'))"
    obtain out where e: "dl_exec res dump now (Finish i f) (sy_detect s) = Some (out, sy_detect s')"
      and act: "sy_action s' = push_groups ok ?groups (sy_action s)" using assms(1) Finish_record by auto
    have "\<And>r. r \<in> set (dl_running (sy_detect s)) \<Longrightarrow> \<exists>ds. rec_detections r = as_detections ds"
      using assms(3) genuine_listed [of sni s] by (auto simp: records_ok_def)
    note g = finish_step [OF e this]
    show ?thesis by (rule ttl_ok_push [OF assms(5) act]) (use g dispatched_ttl ttl in fastforce)
  next
    case (End_sweep res dump now inp ok)
    let ?inp = "inp\<lparr>si_walk := sy_walk s, si_ssl := sy_ssl s\<rparr>" and ?disp = "sweep_dispatch res dump now (dl_ctx (sy_detect s))"
    obtain groups ssl st where sw: "sweepAll ?disp ?inp (sy_sweep s) = Some (groups, ssl, st)"
      and act: "sy_action s' = push_groups ok groups (sy_action s)" using assms(1) End_sweep by (auto split: if_splits)
    have "act_ttl b = kDefaultBlocklistTtl" if gb: "g \<in> set groups" "BlocklistAdd b \<in> set g" for g b
    proof (cases "st_rate (sy_sweep s)")
      case None
      then show ?thesis using gb(1) sweepAll_result(3) [OF sw] by (simp add: sweep_rates_def)
    next
      case (Some w)
      then obtain evt gs where "?disp evt = Some gs" "g \<in> set gs"
        using sweep_rates_groups [of g ?disp ?inp w] gb(1) sweepAll_result(3) [OF sw] assms(2) by (auto simp: setup_ok_def)
      from sweep_dispatch_groups [OF this] show ?thesis using gb(2) ttl dispatched_ttl by auto
    qed
    then show ?thesis by (rule ttl_ok_push [OF assms(5) act])
  next
    case (Act env')
    then show ?thesis using assms(1,5) by (auto simp: ttl_ok_def split: list.splits)
  qed (use assms(1,5) in \<open>auto simp: ttl_ok_def Let_def split: if_splits prod.splits\<close>)
qed

text \<open>Executing a group with a map that takes the updates writes the deadline for exactly its addresses.\<close>

definition deadline :: "action_env \<Rightarrow> u64" where
  "deadline env = word_of_int (ae_now_ns env + kDefaultBlocklistTtl * ns_per_s)"

definition takes_updates :: "action_env \<Rightarrow> bool" where
  "takes_updates env \<longleftrightarrow> bpf_hash_map (ae_update env) \<and> 0 \<le> bl_fd (ae_blocklist env) \<and> (\<forall>m k v. fst (ae_update env m k v) = 0)"

lemma execute_async_deadline:
  assumes "takes_updates env" "\<And>b. a = BlocklistAdd b \<Longrightarrow> act_ttl b = kDefaultBlocklistTtl"
  shows "aw_blocklist (snd (execute_async env a w)) x = (if x \<in> blocks (One a) then Some (deadline env) else aw_blocklist w x)"
proof (cases a)
  case (BlocklistAdd b)
  have ttl: "act_ttl b = kDefaultBlocklistTtl" using assms(2) BlocklistAdd by blast
  let ?add = "add (ae_update env) (ae_blocklist env) (ae_now_ns env) (aw_blocklist w) (act_src_ip_v4 b) (act_ttl b)"
  have u: "bpf_hash_map (ae_update env)" using assms(1) by (simp add: takes_updates_def)
  have "fst ?add = 0" using assms(1) ttl by (auto simp: takes_updates_def add_def kDefaultBlocklistTtl_def ns_per_s_def Let_def split: prod.splits)
  then obtain m where m: "?add = (0, m)" by (cases ?add) auto
  then have "m = (aw_blocklist w)(act_src_ip_v4 b \<mapsto> deadline env)"
    using add_success_map [OF u m] by (simp add: deadline_def ttl)
  then show ?thesis using m by (auto simp: BlocklistAdd BlocklistAddAction_execute_def)
qed (auto split: prod.split)

lemma run_ops_deadline:
  assumes "takes_updates env" "\<And>b. b \<in> adds (Many as) \<Longrightarrow> act_ttl b = kDefaultBlocklistTtl"
  shows "aw_blocklist (snd (run_ops env as w)) x = (if x \<in> blocks (Many as) then Some (deadline env) else aw_blocklist w x)"
  using assms(2)
proof (induction as arbitrary: w)
  case (Cons a as)
  show ?case
  proof (cases a)
    case (Some y)
    obtain t w1 where e: "execute_async env y w = (t, w1)" by fastforce
    have w1: "aw_blocklist w1 x = (if x \<in> blocks (One y) then Some (deadline env) else aw_blocklist w x)"
      using execute_async_deadline [OF assms(1), of y w x] Cons.prems Some e by simp
    have "snd (run_ops env (a # as) w) = snd (run_ops env as w1)" using Some e by (simp split: prod.split)
    moreover have "blocks (Many (a # as)) = blocks (One y) \<union> blocks (Many as)" using Some by auto
    ultimately show ?thesis using Cons.IH [of w1] Cons.prems w1 by auto
  qed (use Cons in auto)
qed simp

lemma run_spawned_deadline:
  assumes "takes_updates env" "\<And>b. b \<in> adds g \<Longrightarrow> act_ttl b = kDefaultBlocklistTtl"
  shows "aw_blocklist (snd (run_spawned False env g w)) x = (if x \<in> blocks g then Some (deadline env) else aw_blocklist w x)"
  using execute_async_deadline [OF assms(1), of _ w x] run_ops_deadline [OF assms(1), of _ w x] assms(2)
  by (cases g) (simp_all add: run_spawned_world del: run_spawned.simps)

section \<open>The invariant of such runs\<close>

definition flow_inv :: "bool \<Rightarrow> main_env \<Rightarrow> string list \<Rightarrow> sys_label list \<Rightarrow> system \<Rightarrow> bool" where
  "flow_inv strict env argv ls s \<longleftrightarrow> sys_inv env argv ls s \<and> loops_run s \<and> ttl_ok s \<and> offences_ok strict (cfg_expected_sni (parse_args argv)) s"

lemma flow_inv_weaken: "flow_inv strict env argv ls s \<Longrightarrow> flow_inv False env argv ls s"
  by (auto simp: flow_inv_def offences_ok_def)

lemma flow_inv_start:
  assumes "sys_start env argv = Some s" "me_detect_threads_ok env" "me_action_thread_ok env"
  shows "flow_inv strict env argv [] s"
proof -
  let ?d = "daemon_init env (parse_args argv)"
  have s: "sy_detect s = dm_detect ?d" "sy_action s = dm_action ?d" "xs_events (sy_kernel s) = []"
    using assms(1) by (auto simp: sys_start_def Let_def split: if_splits prod.splits)
  have "loops_run s"
    by (simp add: loops_run_def s daemon_init_def Let_def configure_def DetectLoop_start_def DetectLoop_init_def assms
        pushAction_def ActionLoop_init_def)
  moreover have "ttl_ok s" by (auto simp: ttl_ok_def s daemon_init_def Let_def pushAction_def ActionLoop_init_def)
  ultimately show ?thesis using sys_inv_start [OF assms(1)] s(3) by (simp add: flow_inv_def offences_ok_def)
qed

lemma flow_inv_step:
  assumes "sys_exec l s = Some s'" "kernel_ok l" "flows strict l s" "flow_inv strict env argv ls s"
  shows "flow_inv strict env argv (ls @ [l]) s'"
proof -
  have i: "setup_ok env argv s" "events_ok ls s" "records_ok (cfg_expected_sni (parse_args argv)) s" "loops_run s" "ttl_ok s"
      "offences_ok strict (cfg_expected_sni (parse_args argv)) s" "sys_inv env argv ls s"
    using assms(4) by (simp_all add: flow_inv_def sys_inv_def)
  show ?thesis using sys_inv_step [OF assms(1,2) i(7)] loops_run_step [OF assms(1,3) i(1,4)] ttl_ok_step [OF assms(1) i(1,3-5)]
      offences_ok_step [OF assms(1,3) i(1,2,4,6)] by (simp add: flow_inv_def)
qed

lemma sys_flow_inv: "sys_flow strict env argv ls s \<Longrightarrow> flow_inv strict env argv ls s"
  by (induction rule: sys_flow.induct) (auto intro: flow_inv_start flow_inv_step)

text \<open>What working steps leave alone.\<close>

lemma working_frame:
  assumes "sys_exec l s = Some s'" "working l"
  shows "xs_events (sy_kernel s') = xs_events (sy_kernel s)" "gp_blocklist (sy_program s') = gp_blocklist (sy_program s)"
proof -
  show "xs_events (sy_kernel s') = xs_events (sy_kernel s)"
    using assms by (cases l) (auto simp: Let_def split: if_splits prod.splits)
  show "gp_blocklist (sy_program s') = gp_blocklist (sy_program s)"
  proof (cases l)
    case (Poll_ring rl rc oks)
    obtain rc' p dl where e: "pollEvents rl (rc, zip (sy_ring s) oks) (sy_program s, sy_detect s) = (rc', p, dl)"
      by (metis prod_cases3)
    then have "sy_program s' = p" using assms(1) Poll_ring by (auto split: if_splits)
    then show ?thesis using pollEvents_frame [OF e] by auto
  qed (use assms in auto)
qed

text \<open>The groups that ran since \<open>before\<close> have taken effect: the deadline of their addresses, and their teardowns
  where netlink takes requests.\<close>

definition enforced :: "action_env \<Rightarrow> spawned set \<Rightarrow> system \<Rightarrow> bool" where
  "enforced env before s \<longleftrightarrow> (\<forall>g \<in> set (sy_executed s) - before.
     (\<forall>a \<in> blocks g. xs_blocklist (sy_kernel s) a = Some (deadline env)) \<and>
     (sends_requests env \<longrightarrow> request_of env ` cuts g \<subseteq> set (sy_tcp_sent s)))"

lemma enforced_step:
  assumes "sys_exec (next_work dump now env s) s = Some s'" "loops_run s" "ttl_ok s" "takes_updates (env\<lparr>ae_blocklist := gp_blocklist (sy_program s)\<rparr>)"
    and "enforced env before s"
  shows "enforced env before s'"
proof (cases "next_work dump now env s = Act env")
  case False
  then have "sy_kernel s' = sy_kernel s \<and> sy_executed s' = sy_executed s \<and> sy_tcp_sent s' = sy_tcp_sent s"
    using assms(1) by (auto simp: next_work_def Let_def split: if_splits prod.splits)
  then show ?thesis using assms(5) by (simp add: enforced_def)
next
  case True
  let ?env = "env\<lparr>ae_blocklist := gp_blocklist (sy_program s)\<rparr>"
  let ?w = "\<lparr>aw_blocklist = xs_blocklist (sy_kernel s), aw_sent = sy_tcp_sent s, aw_logged = sy_logged s\<rparr>"
  obtain g gs where g: "al_pending (sy_action s) = g # gs" "sy_executed s' = sy_executed s @ [g]"
      "xs_blocklist (sy_kernel s') = aw_blocklist (snd (run_spawned False ?env g ?w))"
      "sy_tcp_sent s' = aw_sent (snd (run_spawned False ?env g ?w))"
    using assms(1,2) True by (auto simp: loops_run_def split: list.splits)
  have b: "xs_blocklist (sy_kernel s') x = (if x \<in> blocks g then Some (deadline env) else xs_blocklist (sy_kernel s) x)" for x
    using run_spawned_deadline [OF assms(4), of g _ x] assms(3) g by (simp add: ttl_ok_def deadline_def)
  have t: "set (sy_tcp_sent s') = set (sy_tcp_sent s) \<union> request_of env ` cuts g" if "sends_requests env"
    using run_spawned_sends [of ?env g ?w] that by (simp add: g(4) sends_requests_def request_of_def [abs_def])
  show ?thesis unfolding enforced_def
  proof (intro ballI conjI impI)
    fix h
    assume h: "h \<in> set (sy_executed s') - before"
    show "xs_blocklist (sy_kernel s') a = Some (deadline env)" if "a \<in> blocks h" for a
      using assms(5) b h that by (auto simp: enforced_def g(2))
    show "request_of env ` cuts h \<subseteq> set (sy_tcp_sent s')" if "sends_requests env"
      using assms(5) t [OF that] h that by (auto simp: enforced_def g(2))
  qed
qed

lemma answered_enforced:
  assumes "answered s' e" "enforced env before s'"
  shows "(\<exists>g \<in> before. answers e g) \<or> xs_blocklist (sy_kernel s') (ct_src_ip_v4 (xdp_conn e)) = Some (deadline env) \<and>
     (sends_requests env \<and> full_tuple (xdp_conn e) \<longrightarrow>
        (\<exists>t. tuple_of t = packet_tuple (xdp_conn e) \<and> request_of env t \<in> set (sy_tcp_sent s')))"
  using assms unfolding answered_def answers_def enforced_def by blast

lemma drain:
  assumes "flow_inv False env argv ls s" "takes_updates (aenv\<lparr>ae_blocklist := gp_blocklist (sy_program s)\<rparr>)" "enforced aenv before s"
    and "strict_dump dump" "utf8 now"
  shows "\<exists>ls' s'. list_all working ls' \<and> list_all kernel_ok ls' \<and> list_all (dumps_with dump now) ls' \<and> sys_run ls' s = Some s' \<and> at_rest s' \<and>
     flow_inv False env argv (ls @ ls') s' \<and> xs_events (sy_kernel s') = xs_events (sy_kernel s) \<and> enforced aenv before s'"
  using assms(1-3)
proof (induction "backlog s" arbitrary: ls s rule: less_induct)
  case less
  show ?case
  proof (cases "at_rest s")
    case True
    then show ?thesis using less.prems by (intro exI [of _ "[]"] exI [of _ s]) simp
  next
    case False
    have i: "setup_ok env argv s" "loops_run s" "ttl_ok s" using less.prems(1) by (simp_all add: flow_inv_def sys_inv_def)
    have u: "bpf_hash_map (ae_update aenv)" using less.prems(2) by (simp add: takes_updates_def)
    let ?l = "next_work dump now aenv s"
    obtain s1 where e: "sys_exec ?l s = Some s1" using next_work_enabled(1) [OF False i(2,1) u assms(4,5)] by blast
    note en = next_work_enabled(2-5) [OF False i(2,1) u assms(4,5)]
    note fr = working_frame [OF e en(2)]
    obtain ls' s' where r: "list_all working ls'" "list_all kernel_ok ls'" "list_all (dumps_with dump now) ls'" "sys_run ls' s1 = Some s'" "at_rest s'"
        "flow_inv False env argv ((ls @ [?l]) @ ls') s'" "xs_events (sy_kernel s') = xs_events (sy_kernel s1)" "enforced aenv before s'"
      using less.hyps [OF working_decreases [OF e en(2) i(1)] flow_inv_step [OF e en(3,1) less.prems(1)] _
          enforced_step [OF e i(2,3) less.prems(2,3)]] less.prems(2) fr(2) by auto
    show ?thesis using r e en fr(1) by (intro exI [of _ "?l # ls'"] exI [of _ s']) simp
  qed
qed

section \<open>Properties\<close>

definition demo_action_env :: action_env where
  "demo_action_env = \<lparr>ae_update = (\<lambda>m k v. (0, m(k \<mapsto> v))), ae_blocklist = \<lparr>bl_fd = -1\<rparr>, ae_now_ns = 1000, ae_nl_fd = 3,
     ae_tcp = demo_tcp_env [], ae_log = (\<lambda>_. \<lparr>le_lock = True, le_stream = Opened, le_write = Some 1\<rparr>)\<rparr>"

definition demo_dump :: json_dump where
  "demo_dump j = (if json_utf8 j then Some [] else None)"

lemma demo_dump_strict: "strict_dump demo_dump" "utf8 []"
  by (simp_all add: strict_dump_def demo_dump_def)

definition demo_packet :: sys_label where
  "demo_packet = Packet (conn_rate_map_update (\<lambda>_. 0)) sample_env (segment_bytes (sample_segment 0x18 443))"

lemma demo_start:
  "case sys_start demo_main_env [''d''] of None \<Rightarrow> False | Some s \<Rightarrow> 0 \<le> bl_fd (gp_blocklist (sy_program s))"
  by code_simp

lemma demo_takes_updates:
  assumes "0 \<le> bl_fd bl"
  shows "takes_updates (demo_action_env\<lparr>ae_blocklist := bl\<rparr>)"
proof -
  have "bpf_hash_map (\<lambda>m k v. (0, m(k \<mapsto> v)))" by unfold_locales auto
  then show ?thesis using assms by (simp add: takes_updates_def demo_action_env_def)
qed

lemma demo_sends: "sends_requests demo_action_env"
  by (simp add: sends_requests_def demo_action_env_def demo_tcp_env_def)

text \<open>The daemon has just seen a violating packet of 7.0.0.0.\<close>

lemma demo_flow:
  "\<exists>s. sys_flow strict demo_main_env [''d''] [demo_packet] s \<and> 0 \<le> bl_fd (gp_blocklist (sy_program s)) \<and> sy_executed s = [] \<and>
     (\<exists>e \<in> set (xs_events (sy_kernel s)). xdp_offence e \<and> ct_src_ip_v4 (xdp_conn e) = 7 \<and> full_tuple (xdp_conn e)
       \<and> printable e)"
proof -
  let ?pkt = "segment_bytes (sample_segment 0x18 443)" and ?upd = "conn_rate_map_update (\<lambda>_. 0)"
  obtain s0 where s0: "sys_start demo_main_env [''d''] = Some s0" "0 \<le> bl_fd (gp_blocklist (sy_program s0))"
    using demo_start by (auto split: option.splits)
  have k: "sy_kernel s0 = sample_state Map.empty" "sy_executed s0 = []"
    using s0(1) by (auto simp: sys_start_def sample_state_def Let_def split: if_splits prod.splits)
  have drop: "fst (https_guard_xdp ?upd sample_env (sy_kernel s0) ?pkt) = XDP_DROP"
    unfolding https_guard_xdp_segment [OF sample_segment_wf] k
    by (simp add: xdp_on_segment_def blocklist_check_def sample_state_def
        sample_segment_def sample_env_def xdp_handshake_def be16_of_def TLS_1_2_def Let_def)
  have full: "\<forall>e \<in> set (xs_events (snd (https_guard_xdp ?upd sample_env (sy_kernel s0) ?pkt))). full_tuple (xdp_conn e)"
    unfolding https_guard_xdp_segment [OF sample_segment_wf] k
    by (simp add: xdp_on_segment_def blocklist_check_def sample_state_def xdp_count_flags_def tcp_syn_def tcp_fin_def tcp_rst_def
        sample_segment_def sample_env_def xdp_handshake_def be16_of_def TLS_1_2_def full_tuple_def fill_xdp_event_fields_def Let_def)
  have src: "is_ipv4 ?pkt" "pkt_saddr ?pkt = 7"
    by (rule segment_is_ipv4(1) [OF sample_segment_wf]) (simp add: segment_is_ipv4(2) [OF sample_segment_wf], simp add: sample_segment_def)
  have nb: "pkt_saddr ?pkt \<notin> blocked (xe_now_check sample_env) (xs_blocklist (sy_kernel s0))"
    by (simp add: k sample_state_def blocked_def)
  obtain e where e: "xs_events (snd (https_guard_xdp ?upd sample_env (sy_kernel s0) ?pkt)) = xs_events (sy_kernel s0) @ [e]"
      "event_of_source sample_env 7 e" "xt_is_violation (xdp_tls e) = 1"
    using explained_xdp [OF src(1) nb, of ?upd] drop src(2) by (auto simp: explained_def)
  obtain s1 where s1: "sys_exec demo_packet s0 = Some s1" "sy_kernel s1 = snd (https_guard_xdp ?upd sample_env (sy_kernel s0) ?pkt)"
      "sy_program s1 = sy_program s0" "sy_executed s1 = []"
    by (auto simp: demo_packet_def Let_def k)
  have "sys_flow strict demo_main_env [''d''] ([] @ [demo_packet]) s1"
    by (rule sys_flow.step [OF sys_flow.init [OF s0(1)] _ _ s1(1)])
      (auto simp: demo_main_env_def demo_packet_def sample_env_def intro: conn_rate_lru)
  moreover have "xdp_offence e" "ct_src_ip_v4 (xdp_conn e) = 7"
    using e(2,3) by (simp_all add: xdp_offence_def tls_violation_def event_of_source_def)
  moreover have "printable e" using e(2) by (simp add: printable_def event_of_source_def fill_hdr_def sample_env_def boundedString_def)
  moreover have "full_tuple (xdp_conn e)" using full e(1) by simp
  ultimately show ?thesis using s0(2) s1 e(1) by auto
qed

lemma demo_enforced:
  "\<exists>ls s. sys_reach demo_main_env [''d''] ls s \<and> xs_blocklist (sy_kernel s) 7 \<noteq> None \<and> sy_tcp_sent s \<noteq> []"
proof -
  obtain s e where s: "sys_flow False demo_main_env [''d''] [demo_packet] s" "0 \<le> bl_fd (gp_blocklist (sy_program s))" "sy_executed s = []"
      "e \<in> set (xs_events (sy_kernel s))" "xdp_offence e" "ct_src_ip_v4 (xdp_conn e) = 7" "full_tuple (xdp_conn e)" "printable e"
    using demo_flow by blast
  have "enforced demo_action_env {} s" by (simp add: enforced_def s(3))
  from drain [OF sys_flow_inv [OF s(1)] demo_takes_updates [OF s(2)] this demo_dump_strict]
  obtain ls' s' where r: "list_all kernel_ok ls'" "sys_run ls' s = Some s'" "at_rest s'" "flow_inv False demo_main_env [''d''] ([demo_packet] @ ls') s'"
      "xs_events (sy_kernel s') = xs_events (sy_kernel s)" "enforced demo_action_env {} s'" by blast
  have "answered s' e" using r(3-5) s(4-6,8) by (auto simp: flow_inv_def offences_ok_def at_rest_def awaiting_def)
  then obtain g t where g: "g \<in> set (sy_executed s')" "7 \<in> blocks g" "t \<in> cuts g" using s(6,7) by (auto simp: answered_def answers_def)
  then have "xs_blocklist (sy_kernel s') 7 \<noteq> None" "request_of demo_action_env t \<in> set (sy_tcp_sent s')"
    using r(6) demo_sends by (auto simp: enforced_def)
  then show ?thesis using sys_run_reach [OF sys_flow_reach [OF s(1)] r(1,2)] by (metis empty_iff empty_set)
qed

text \<open>C2: Nobody is blocked without cause, in any run of the whole daemon from its start: packets, probes,
  file accesses, polls, worker, timer and action-thread steps in any order, with any faults.  An address is in the
  blocklist only if a packet of that address was an offence (its TLS version, or an attack
  signature in its plaintext), or traffic captured in a process on this machine was such an offence and attributed
  to that address: as the peer of a socket with an end on port 443 that the thread of the handshake had touched, if the
  session was bound to one, and otherwise as what a resolver named for the process; or at least as many packets of that
  address arrived as the smallest limit given on the command line allows.  And whatever packet is dropped is of
  such an address, or is itself a TLS version violation.\<close>

theorem blocked_only_with_cause:
  assumes "sys_reach env argv ls s"
  shows "(xs_blocklist (sy_kernel s) a \<noteq> None \<longrightarrow> justified argv ls (xs_events (sy_kernel s)) (ss_events (sy_ssl s)) a)
     \<and> (https_guard_xdp upd penv (sy_kernel s) pkt = (XDP_DROP, k') \<longrightarrow>
          justified argv ls (xs_events (sy_kernel s)) (ss_events (sy_ssl s)) (pkt_saddr pkt) \<or>
          (\<exists>e. xs_events k' = xs_events (sy_kernel s) @ [e] \<and> ct_src_ip_v4 (xdp_conn e) = pkt_saddr pkt \<and> tls_violation e))"
proof (intro conjI impI)
  have ok: "\<And>a. a \<in> dom (xs_blocklist (sy_kernel s)) \<Longrightarrow> justified argv ls (xs_events (sy_kernel s)) (ss_events (sy_ssl s)) a"
    using sys_reach_inv [OF assms] by (simp add: sys_inv_def actions_ok_def)
  then show "xs_blocklist (sy_kernel s) a \<noteq> None \<Longrightarrow> justified argv ls (xs_events (sy_kernel s)) (ss_events (sy_ssl s)) a" by auto
  assume d: "https_guard_xdp upd penv (sy_kernel s) pkt = (XDP_DROP, k')"
  then have ip: "is_ipv4 pkt" using https_guard_xdp_not_ipv4 [of pkt] by fastforce
  show "justified argv ls (xs_events (sy_kernel s)) (ss_events (sy_ssl s)) (pkt_saddr pkt) \<or>
      (\<exists>e. xs_events k' = xs_events (sy_kernel s) @ [e] \<and> ct_src_ip_v4 (xdp_conn e) = pkt_saddr pkt \<and> tls_violation e)"
  proof (cases "pkt_saddr pkt \<in> blocked (xe_now_check penv) (xs_blocklist (sy_kernel s))")
    case True
    then show ?thesis using ok by (auto simp: blocked_def)
  next
    case False
    from explained_xdp [OF ip this, of upd] d show ?thesis
      by (auto simp: explained_def event_of_source_def tls_violation_def)
  qed
qed

theorem blocked_only_with_cause_witness:
  "\<exists>ls s. sys_reach demo_main_env [''d''] ls s \<and> xs_blocklist (sy_kernel s) 7 \<noteq> None \<and>
     justified [''d''] ls (xs_events (sy_kernel s)) (ss_events (sy_ssl s)) 7"
  using demo_enforced blocked_only_with_cause [where env = demo_main_env and argv = "[''d'']" and a = 7] by blast



text \<open>C4: No connection is torn down without cause, in any run of the whole daemon from its start.  Every request to
  destroy a socket that was sent names the connection of an offence: of a packet that arrived with an insecure TLS version or
  an attack signature, source and destination as in the packet; or of such traffic in a process on this
  machine, and then the connection with an end on port 443 that its session was bound to when the event was
  submitted or, without a binding, the one that a resolver named for the process.  The
  counters of the sweep never lead to a teardown.\<close>

theorem torn_down_only_with_cause:
  assumes "sys_reach env argv ls s" "bs \<in> set (sy_tcp_sent s)"
  shows "\<exists>fd t. bs = destroy_request (TcpDestroyer fd t) \<and> teardown_cause ls (xs_events (sy_kernel s)) (ss_events (sy_ssl s)) t"
  using sys_reach_teardowns [OF assms(1)] assms(2) by (auto simp: teardowns_ok_def requests_def)

theorem torn_down_only_with_cause_witness:
  "\<exists>ls s bs fd t. sys_reach demo_main_env [''d''] ls s \<and> bs \<in> set (sy_tcp_sent s) \<and> bs = destroy_request (TcpDestroyer fd t) \<and>
     teardown_cause ls (xs_events (sy_kernel s)) (ss_events (sy_ssl s)) t"
proof -
  obtain ls s where s: "sys_reach demo_main_env [''d''] ls s" "sy_tcp_sent s \<noteq> []" using demo_enforced by blast
  then obtain bs where bs: "bs \<in> set (sy_tcp_sent s)" by (cases "sy_tcp_sent s") auto
  from torn_down_only_with_cause [OF s(1) bs] show ?thesis using s(1) bs by blast
qed

end
