(* ===== verification/Record_Types.thy ===== *)
theory Record_Types
  imports Enforcement
begin

text \<open>
  Well-typed records do not go wrong: between the kernel programs, which write structs into the
  ring buffer, and the detections, which read them back from bytes, nothing but the layout is
  shared.  In every run of the composed daemon the bytes are images of well-formed events, and the counters for
  records nobody could make sense of stay at zero.
\<close>

section \<open>Every record is claimed\<close>

lemma genuine_record_claimed:
  assumes "events_ok ls s" "genuine_record sni s r"
  shows "\<exists>ds n v m. rec_detections r = as_detections ds \<and> first_verdict ds (rec_bytes r) = Some (n, v, m) \<and>
     4 \<le> length (rec_bytes r) \<and> length (rec_bytes r) \<le> HG_MAX_RAW_EVENT_SIZE"
proof -
  have u: "u \<in> set (ss_events (sy_ssl s)) \<Longrightarrow> wf_uprobe_event u" for u using assms(1) by (simp add: events_ok_def ssl_wf_def)
  from assms(2) consider
      (xdp) e where "e \<in> set (xs_events (sy_kernel s))" "rec_bytes r = encode_xdp_event e" "rec_detections r = as_detections (xdp_detections sni)"
    | (uprobe) e where "e \<in> set (ss_events (sy_ssl s))" "rec_bytes r = encode_uprobe_event e" "rec_detections r = as_detections uprobe_detections"
    | (lsm) e rl where "e \<in> set (sy_lsm s)" "rec_bytes r = encode_lsm_event e"
        "rec_detections r = as_detections (lsm_detections rl kAllowedCertExes)"
    unfolding genuine_record_def by blast
  then show ?thesis
  proof cases
    case (xdp e)
    then have "length (rec_bytes r) = sizeof_xdp_event" using assms(1) by (simp add: length_encode events_ok_def)
    then show ?thesis using xdp(3) xdp_list.total [of "rec_bytes r" sni] by (auto simp: event_sizes)
  next
    case (uprobe e)
    then have "length (rec_bytes r) = sizeof_uprobe_event" using u by (simp add: length_encode)
    then show ?thesis using uprobe(3) uprobe_list.total [of "rec_bytes r"] by (auto simp: event_sizes)
  next
    case (lsm e rl)
    then have "length (rec_bytes r) = sizeof_lsm_event" using assms(1) by (simp add: length_encode events_ok_def)
    then show ?thesis using lsm(3) lsm_list.total [of "rec_bytes r" rl kAllowedCertExes] by (auto simp: event_sizes)
  qed
qed

lemma genuine_bytes_routed:
  assumes "events_ok ls s" "genuine_bytes s bs"
  shows "\<not> unrouted rl sni (bs, ok)"
  using assms record_source_encode [of _ "[]", simplified]
  by (auto simp: genuine_bytes_def unrouted_def events_ok_def route_def HG_SOURCE_XDP_def HG_SOURCE_UPROBE_def HG_SOURCE_LSM_CERT_GUARD_def)

section \<open>The counters\<close>

definition counts_ok :: "system \<Rightarrow> bool" where
  "counts_ok s \<longleftrightarrow> dl_undetected (sy_detect s) = 0 \<and> dl_unconfigured (sy_detect s) = 0 \<and>
     (dl_stop (sy_detect s) \<or> dl_configured (sy_detect s)) \<and> gp_unknown_source_count (sy_program s) = 0"

lemma routed_counts:
  assumes "dl_stop dl \<or> dl_configured dl"
  shows "dl_undetected (routed rl sni x dl) = dl_undetected dl" "dl_unconfigured (routed rl sni x dl) = dl_unconfigured dl"
    "dl_stop (routed rl sni x dl) = dl_stop dl" "dl_configured (routed rl sni x dl) = dl_configured dl"
  using assms by (cases x; auto simp: routed_def submit_def countDrop_def Let_def split: option.split)+

lemma fold_routed_counts:
  assumes "dl_stop dl \<or> dl_configured dl"
  shows "dl_undetected (fold (routed rl sni) xs dl) = dl_undetected dl \<and> dl_unconfigured (fold (routed rl sni) xs dl) = dl_unconfigured dl
     \<and> dl_stop (fold (routed rl sni) xs dl) = dl_stop dl \<and> dl_configured (fold (routed rl sni) xs dl) = dl_configured dl"
  using assms
proof (induction xs arbitrary: dl)
  case (Cons x xs)
  then show ?case using routed_counts [OF Cons.prems, of rl sni x] by simp
qed simp

lemma process_claimed:
  assumes "rec_detections r = as_detections ds" "first_verdict ds (rec_bytes r) = Some (n, v, m)"
    and "process res dump now r dl = Some dl'"
  shows "dl_undetected dl' = dl_undetected dl"
  using assms(3) first_claim_listed [of "rec_bytes r" ds] unfolding process_def assms(1,2)
  by (auto simp: Let_def split: if_splits option.splits prod.splits)

lemma counts_ok_step:
  assumes "sys_exec l s = Some s'" "sys_inv env argv ls s" "counts_ok s"
  shows "counts_ok s'"
proof -
  let ?sni = "cfg_expected_sni (parse_args argv)"
  have i: "setup_ok env argv s" "events_ok ls s" "records_ok ?sni s" using assms(2) by (simp_all add: sys_inv_def)
  show ?thesis
  proof (cases l)
    case (Poll_ring rl rc oks)
    have none: "filter (unrouted rl ?sni) (zip (sy_ring s) oks) = []"
      using genuine_bytes_routed [OF i(2)] i(3) by (fastforce simp: records_ok_def filter_empty_conv dest: set_zip_leftD)
    then have "sy_detect s' = fold (routed rl ?sni) (zip (sy_ring s) oks) (sy_detect s)"
        "gp_unknown_source_count (sy_program s') = gp_unknown_source_count (sy_program s)"
      using assms(1) Poll_ring poll_routed [OF i(1), of rl rc "zip (sy_ring s) oks"] by (auto split: if_splits)
    then show ?thesis using assms(3) fold_routed_counts [of "sy_detect s" rl ?sni "zip (sy_ring s) oks"] by (auto simp: counts_ok_def)
  next
    case (Finish_record res dump now j f ok)
    then obtain out where e: "dl_exec res dump now (Finish j f) (sy_detect s) = Some (out, sy_detect s')"
      and p: "sy_program s' = sy_program s" using assms(1) by auto
    let ?r = "dl_running (sy_detect s) ! j" and ?dl = "(sy_detect s)\<lparr>dl_running := remove_nth j (dl_running (sy_detect s))\<rparr>"
    have j: "j < length (dl_running (sy_detect s))" "sy_detect s' = ?dl \<or> process res dump now ?r ?dl = Some (sy_detect s')"
      using e by (auto simp: Let_def handleRecord_finish_def split: if_splits option.splits)
    have "genuine_record ?sni s ?r" using i(3) nth_mem [OF j(1)] by (simp add: records_ok_def)
    then obtain ds n v m where "rec_detections ?r = as_detections ds" "first_verdict ds (rec_bytes ?r) = Some (n, v, m)"
      using genuine_record_claimed [OF i(2)] by blast
    note c = process_claimed [OF this, of res dump now ?dl "sy_detect s'"]
    show ?thesis using assms(3) c p j(2) by (auto simp: counts_ok_def process_frame)
  next
    case Start_record
    then show ?thesis using assms(1,3) by (auto simp: counts_ok_def handleRecord_start_def split: if_splits list.splits)
  next
    case (End_sweep res dump now inp ok)
    then show ?thesis using assms(1,3) by (auto simp: counts_ok_def split: if_splits)
  qed (use assms(1,3) in \<open>auto simp: counts_ok_def Let_def split: if_splits\<close>)
qed

lemma loadFilter_unknown: "gp_unknown_source_count (snd (loadFilter env p)) = gp_unknown_source_count p"
  by (auto simp: loadFilter_def openObject_def attachHooks_def registerEventHandler_def closeObject_def detachFilter_def
      releaseRingBuffer_def destroyLinks_def Let_def split: prod.splits if_splits option.splits)

lemma counts_ok_start:
  assumes "sys_start env argv = Some s"
  shows "counts_ok s"
proof -
  let ?d = "daemon_init env (parse_args argv)"
  have s: "sy_detect s = dm_detect ?d" "sy_program s = snd (loadFilter (me_bpf env) (dm_program ?d))"
    using assms by (auto simp: sys_start_def Let_def split: if_splits prod.splits)
  have "gp_unknown_source_count (sy_program s) = 0"
    by (simp add: s loadFilter_unknown daemon_init_program HttpGuardProgram_init_def)
  then show ?thesis
    by (simp add: counts_ok_def s(1) daemon_init_def Let_def configure_def DetectLoop_start_def DetectLoop_init_def)
qed

lemma sys_reach_counts: "sys_reach env argv ls s \<Longrightarrow> counts_ok s"
proof (induction rule: sys_reach.induct)
  case (step ls s l s')
  then show ?case using counts_ok_step [OF step.hyps(3) sys_reach_inv [OF step.hyps(1)]] by blast
qed (rule counts_ok_start)

section \<open>Every event is dispatched\<close>

definition submitted_events :: "system \<Rightarrow> nat" where
  "submitted_events s = length (xs_events (sy_kernel s)) + length (ss_events (sy_ssl s)) + length (sy_lsm s)"

definition accounted :: "system \<Rightarrow> bool" where
  "accounted s \<longleftrightarrow> submitted_events s = length (sy_ring s) + length (dl_queue (sy_detect s)) + length (dl_running (sy_detect s))
     + length (dl_pushed (sy_detect s)) \<and> (\<forall>g \<in> set (dl_pushed (sy_detect s)). \<exists>acts l. g = acts @ [Log l] \<and> (\<forall>l. Log l \<notin> set acts))"

lemma routed_genuine:
  assumes "events_ok ls s" "genuine_bytes s bs" "dl_configured dl" "\<not> dl_stop dl" "dl_in_flight dl < kMaxQueueDepth"
  shows "length (dl_queue (routed rl sni (bs, True) dl)) = Suc (length (dl_queue dl))"
  using assms(1,2) routed_events [OF assms(3-5), of _ rl sni] by (auto simp: genuine_bytes_def events_ok_def ssl_wf_def)

lemma fold_routed_genuine:
  assumes "events_ok ls s" "\<forall>x \<in> set xs. genuine_bytes s (fst x) \<and> snd x"
    and "dl_configured dl" "\<not> dl_stop dl" "dl_in_flight dl + length xs \<le> kMaxQueueDepth"
  shows "length (dl_queue (fold (routed rl sni) xs dl)) = length (dl_queue dl) + length xs"
  using assms(2-5)
proof (induction xs arbitrary: dl)
  case (Cons x xs)
  obtain bs where x: "x = (bs, True)" "genuine_bytes s bs" using Cons.prems(1) by (cases x) auto
  have q: "length (dl_queue (routed rl sni x dl)) = Suc (length (dl_queue dl))"
    unfolding x(1) by (rule routed_genuine [OF assms(1) x(2)]) (use Cons.prems in auto)
  have p: "dl_polled 1 dl (routed rl sni x dl)" by (rule routed_polled)
  show ?case using Cons.IH [of "routed rl sni x dl"] Cons.prems q p by (auto simp: dl_polled_def)
qed simp

lemma dispatched_group:
  assumes "dc_action_loop ctx" "dispatchVerdict res dump now m v ctx \<noteq> None"
  shows "\<exists>acts l. dispatched res dump now m v ctx = acts @ [Log l] \<and> (\<forall>l. Log l \<notin> set acts)"
  using dispatched_returned [OF assms] in_enforcement(4) by (metis empty_iff empty_set)

lemma finish_dispatches:
  assumes "dl_exec res dump now (Finish i False) dl = Some (out, dl')" "dc_action_loop (dl_ctx dl)"
    and "rec_detections (dl_running dl ! i) = as_detections ds" "first_verdict ds (rec_bytes (dl_running dl ! i)) = Some (n, v, m)"
    and "4 \<le> length (rec_bytes (dl_running dl ! i))" "process res dump now (dl_running dl ! i) dl \<noteq> None"
  shows "dispatchVerdict res dump now m v (dl_ctx dl) \<noteq> None"
    and "dl_pushed dl' = dl_pushed dl @ [dispatched res dump now m v (dl_ctx dl)]"
proof -
  have p: "process res dump now (dl_running dl ! i) (dl\<lparr>dl_running := x\<rparr>) = map_option
      (\<lambda>(response, _). dl\<lparr>dl_running := x, dl_pushed := dl_pushed dl @ [response]\<rparr>) (dispatchVerdict res dump now m v (dl_ctx dl))" for x
    using process_listed [OF assms(3,5), of "dl\<lparr>dl_running := x\<rparr>"] assms(2,4) by simp
  show d: "dispatchVerdict res dump now m v (dl_ctx dl) \<noteq> None"
    using assms(6) p [of "[]"] process_throws_frame [of res dump now "dl_running dl ! i" "[]" dl] by auto
  show "dl_pushed dl' = dl_pushed dl @ [dispatched res dump now m v (dl_ctx dl)]"
    using assms(1) p d by (auto simp: Let_def handleRecord_finish_def dispatched_def split: if_splits)
qed

lemma accounted_poll:
  assumes "sys_exec (Poll_ring rl rc oks) s = Some s'" "flows strict (Poll_ring rl rc oks) s" "sys_inv env argv ls s" "loops_run s" "accounted s"
  shows "accounted s'"
proof -
  let ?sni = "cfg_expected_sni (parse_args argv)" and ?dl = "sy_detect s" and ?xs = "zip (sy_ring s) oks"
  have i: "setup_ok env argv s" "events_ok ls s" "records_ok ?sni s" using assms(3) by (simp_all add: sys_inv_def)
  have run: "dl_configured ?dl" "\<not> dl_stop ?dl" using assms(4) by (simp_all add: loops_run_def Let_def)
  have s': "sy_ring s' = drop (length oks) (sy_ring s)" "sy_detect s' = fold (routed rl ?sni) ?xs ?dl" "length oks \<le> length (sy_ring s)"
      "submitted_events s' = submitted_events s"
    using assms(1) poll_routed [OF i(1)] by (auto simp: submitted_events_def split: if_splits)
  have "\<forall>x \<in> set ?xs. genuine_bytes s (fst x) \<and> snd x"
  proof
    fix x
    assume "x \<in> set ?xs"
    then have x: "(fst x, snd x) \<in> set ?xs" by simp
    have "list_all id oks" using assms(2) by simp
    then have "\<forall>ok \<in> set oks. ok" unfolding list_all_iff id_apply .
    from bspec [OF this set_zip_rightD [OF x]] have "snd x" .
    moreover have "genuine_bytes s (fst x)" using i(3) set_zip_leftD [OF x] by (simp add: records_ok_def)
    ultimately show "genuine_bytes s (fst x) \<and> snd x" by blast
  qed
  from fold_routed_genuine [OF i(2) this run, of rl ?sni] assms(2) s'(2,3)
  have "length (dl_queue (sy_detect s')) = length (dl_queue ?dl) + length oks" by simp
  moreover have "dl_running (sy_detect s') = dl_running ?dl" "dl_pushed (sy_detect s') = dl_pushed ?dl"
    using fold_routed_polled [of ?xs ?dl rl ?sni] s'(2) by (auto simp: dl_polled_def)
  ultimately show ?thesis using assms(5) s'(1,3,4) by (simp add: accounted_def)
qed

lemma accounted_finish:
  assumes "sys_exec (Finish_record res dump now j False ok) s = Some s'" "sys_inv env argv ls s" "loops_run s" "accounted s"
    and "process res dump now (dl_running (sy_detect s) ! j) (sy_detect s) \<noteq> None"
  shows "accounted s'"
proof -
  let ?sni = "cfg_expected_sni (parse_args argv)" and ?dl = "sy_detect s"
  have i: "events_ok ls s" "records_ok ?sni s" using assms(2) by (simp_all add: sys_inv_def)
  have run: "dc_action_loop (dl_ctx ?dl)" using assms(3) by (simp add: loops_run_def Let_def)
  obtain out where e: "dl_exec res dump now (Finish j False) ?dl = Some (out, sy_detect s')"
    and s': "sy_ring s' = sy_ring s" "submitted_events s' = submitted_events s"
    using assms(1) by (auto simp: submitted_events_def)
  note fr = finish_frame [OF e]
  have "genuine_record ?sni s (dl_running ?dl ! j)" using i(2) nth_mem [OF fr(1)] by (simp add: records_ok_def)
  then obtain ds n v m where "rec_detections (dl_running ?dl ! j) = as_detections ds"
      "first_verdict ds (rec_bytes (dl_running ?dl ! j)) = Some (n, v, m)" "4 \<le> length (rec_bytes (dl_running ?dl ! j))"
    using genuine_record_claimed [OF i(1)] by blast
  note p = finish_dispatches [OF e run this assms(5)]
  have "length (dl_running ?dl) = Suc (length (dl_running (sy_detect s')))" using fr(1,2) by (simp add: remove_nth_def)
  then show ?thesis using assms(4) s' fr(3) p(2) dispatched_group [OF run p(1)] by (auto simp: accounted_def)
qed

lemma accounted_step:
  assumes "sys_exec l s = Some s'" "flows True l s" "sys_inv env argv ls s" "loops_run s" "accounted s"
  shows "accounted s'"
proof (cases l)
  case (Packet upd env pkt)
  then show ?thesis using assms(1,5) packet_events [of upd env "sy_kernel s" pkt]
    by (auto simp: accounted_def submitted_events_def submitted_def Let_def)
next
  case (Probe k env st)
  then show ?thesis using assms(1,5) probe_events [of k env st "sy_ssl s"]
    by (auto simp: accounted_def submitted_events_def submitted_def Let_def)
next
  case (Open_file d sh env path)
  then show ?thesis using assms(1,5) cert_events [of d sh env path "sy_lsm s"]
    by (auto simp: accounted_def submitted_events_def submitted_def Let_def)
next
  case (Poll_ring rl rc oks)
  then show ?thesis using accounted_poll [OF _ _ assms(3-5)] assms(1,2) by blast
next
  case (Finish_record res dump now j f ok)
  then have f: "f = False" "process res dump now (dl_running (sy_detect s) ! j) (sy_detect s) \<noteq> None" using assms(2) by simp_all
  show ?thesis using accounted_finish [OF _ assms(3-5) f(2)] assms(1) Finish_record f(1) by blast
next
  case Start_record
  then show ?thesis using assms(1,5)
    by (auto simp: accounted_def submitted_events_def handleRecord_start_def split: if_splits list.splits)
next
  case (End_sweep res dump now inp ok)
  then show ?thesis using assms(1,5) by (auto simp: accounted_def submitted_events_def split: if_splits dest: sweepAll_result(1))
next
  case (Act env')
  then show ?thesis using assms(1,5) by (auto simp: accounted_def submitted_events_def split: list.splits)
qed (use assms(1,5) in \<open>auto simp: accounted_def submitted_events_def Let_def split: if_splits\<close>)

lemma accounted_start:
  assumes "sys_start env argv = Some s"
  shows "accounted s"
  using assms by (auto simp: sys_start_def accounted_def submitted_events_def ssl_init_def daemon_init_def configure_def
      DetectLoop_start_def DetectLoop_init_def Let_def split: if_splits prod.splits)

lemma sys_flow_accounted: "sys_flow True env argv ls s \<Longrightarrow> accounted s"
proof (induction rule: sys_flow.induct)
  case (step ls s l s')
  have "flow_inv True env argv ls s" by (rule sys_flow_inv [OF step.hyps(1)])
  then show ?case using accounted_step [OF step.hyps(4,3)] step.IH by (auto simp: flow_inv_def)
qed (rule accounted_start)

section \<open>Properties\<close>

text \<open>C13: Records are well typed from end to end.  In every run of the whole daemon, each record in the ring
  buffer is the exact image of an event one of the three kernel programs submitted: it has that
  struct's size and decodes to that event.  Each record waiting for or in classification carries a list of
  detections one of which will claim it.  So no record is ever counted as being of an unknown source, as arriving
  before the configuration, or as claimed by no detection.\<close>

theorem records_well_typed:
  assumes "sys_reach env argv ls s"
  shows "(\<forall>bs \<in> set (sy_ring s).
         (\<exists>e \<in> set (xs_events (sy_kernel s)). bs = encode_xdp_event e \<and> length bs = sizeof_xdp_event \<and> decode_xdp_event bs = Some e)
       \<or> (\<exists>u \<in> set (ss_events (sy_ssl s)). bs = encode_uprobe_event u \<and> length bs = sizeof_uprobe_event \<and> decode_uprobe_event bs = Some u)
       \<or> (\<exists>l \<in> set (sy_lsm s). bs = encode_lsm_event l \<and> length bs = sizeof_lsm_event \<and> decode_lsm_event bs = Some l))
     \<and> (\<forall>r \<in> set (dl_queue (sy_detect s)) \<union> set (dl_running (sy_detect s)). \<exists>ds n v m.
         rec_detections r = as_detections ds \<and> first_verdict ds (rec_bytes r) = Some (n, v, m))
     \<and> gp_unknown_source_count (sy_program s) = 0 \<and> dl_unconfigured (sy_detect s) = 0 \<and> dl_undetected (sy_detect s) = 0"
proof (intro conjI ballI)
  have i: "events_ok ls s" "records_ok (cfg_expected_sni (parse_args argv)) s"
    using sys_reach_inv [OF assms] by (simp_all add: sys_inv_def)
  note rt = decode_encode_xdp [of _ "[]", simplified] decode_encode_uprobe [of _ "[]", simplified] decode_encode_lsm [of _ "[]", simplified]
  fix bs
  assume "bs \<in> set (sy_ring s)"
  then have "genuine_bytes s bs" using i(2) by (simp add: records_ok_def)
  then show "(\<exists>e \<in> set (xs_events (sy_kernel s)). bs = encode_xdp_event e \<and> length bs = sizeof_xdp_event \<and> decode_xdp_event bs = Some e)
       \<or> (\<exists>u \<in> set (ss_events (sy_ssl s)). bs = encode_uprobe_event u \<and> length bs = sizeof_uprobe_event \<and> decode_uprobe_event bs = Some u)
       \<or> (\<exists>l \<in> set (sy_lsm s). bs = encode_lsm_event l \<and> length bs = sizeof_lsm_event \<and> decode_lsm_event bs = Some l)"
    using i(1) by (auto simp: genuine_bytes_def events_ok_def ssl_wf_def length_encode rt)
next
  fix r
  assume r: "r \<in> set (dl_queue (sy_detect s)) \<union> set (dl_running (sy_detect s))"
  have "events_ok ls s" "genuine_record (cfg_expected_sni (parse_args argv)) s r"
    using sys_reach_inv [OF assms] r by (simp_all add: sys_inv_def records_ok_def)
  then show "\<exists>ds n v m. rec_detections r = as_detections ds \<and> first_verdict ds (rec_bytes r) = Some (n, v, m)"
    using genuine_record_claimed by blast
qed (use sys_reach_counts [OF assms] in \<open>simp_all add: counts_ok_def\<close>)

theorem records_well_typed_witness:
  "\<exists>s. sys_reach demo_main_env [''d''] [demo_packet] s \<and> xs_events (sy_kernel s) \<noteq> [] \<and> dl_undetected (sy_detect s) = 0"
proof -
  obtain s where s: "sys_flow True demo_main_env [''d''] [demo_packet] s" "xs_events (sy_kernel s) \<noteq> []" using demo_flow by fastforce
  show ?thesis using records_well_typed [OF sys_flow_reach [OF s(1)]] sys_flow_reach [OF s(1)] s(2) by auto
qed

text \<open>C5: Every event is dispatched exactly once.  In a run of the whole daemon in which no call fails, no
  exception is thrown and the queue has room, the events the three kernel programs have submitted are as many as the records in the ring buffer, those waiting
  for or in classification, and the groups of actions dispatched, taken together; and each group dispatched ends with
  its one entry for the log.  So when everything has come to rest, there is one log entry for each event.\<close>

theorem every_event_dispatched:
  assumes "sys_flow True env argv ls s"
  shows "length (xs_events (sy_kernel s)) + length (ss_events (sy_ssl s)) + length (sy_lsm s) =
       length (sy_ring s) + length (dl_queue (sy_detect s)) + length (dl_running (sy_detect s)) + length (dl_pushed (sy_detect s))
     \<and> (\<forall>g \<in> set (dl_pushed (sy_detect s)). \<exists>acts l. g = acts @ [Log l] \<and> (\<forall>l. Log l \<notin> set acts))
     \<and> (at_rest s \<longrightarrow> length (dl_pushed (sy_detect s)) = submitted_events s)"
  using sys_flow_accounted [OF assms] by (auto simp: accounted_def submitted_events_def at_rest_def)

theorem every_event_dispatched_witness:
  "\<exists>s. sys_flow True demo_main_env [''d''] [demo_packet] s \<and>
     0 < length (sy_ring s) + length (dl_queue (sy_detect s)) + length (dl_running (sy_detect s)) + length (dl_pushed (sy_detect s))"
proof -
  obtain s where s: "sys_flow True demo_main_env [''d''] [demo_packet] s" "xs_events (sy_kernel s) \<noteq> []" using demo_flow by fastforce
  have "0 < length (xs_events (sy_kernel s))" using s(2) by simp
  then show ?thesis using every_event_dispatched [OF s(1)] s(1) by (intro exI [of _ s]) linarith
qed

end
