(* ===== verification/Runner.thy ===== *)
theory Runner
  imports Daemon
begin

text \<open>
  \<open>detections/core/main.cpp\<close> and \<open>actions/core/main.cpp\<close>: the stand-alone runners, the first of which drives a \<open>DetectLoop\<close> through its
  operations without a kernel.  Its \<open>main\<close> is the sequence of calls of one thread; between any two of them, and
  after the last, the worker threads take any steps.  Output is not modelled.
\<close>

section \<open>The two detections\<close>

definition DecliningDetection_inspect :: inspect where
  "DecliningDetection_inspect data m = (None, m)"

definition ClaimingDetection_inspect :: inspect where
  "ClaimingDetection_inspect data m =
     (Some \<lparr>severity = ''OK'', message_id = ''OemSecurityEvent.1.0.HttpsTrafficObserved'',
        message = ''synthetic record from detect_runner'', actionable = False\<rparr>,
      m\<lparr>em_process := ''detect_runner'', em_pid := 1\<rparr>)"

definition one_declining :: "(string \<times> inspect) list" where
  "one_declining = [(''declining'', DecliningDetection_inspect)]"

definition one_claiming :: "(string \<times> inspect) list" where
  "one_claiming = [(''claiming'', ClaimingDetection_inspect)]"

section \<open>The program\<close>

definition runner_rec :: "u8 list" where
  "runner_rec = le_bytes 4 HG_SOURCE_UPROBE @ replicate 12 0"

definition runner_runt :: "u8 list" where
  "runner_runt = [0, 0]"

text \<open>The calls of \<open>main\<close>, with whether the three allocations that are attempted succeed.\<close>

definition runner_main :: "bool \<Rightarrow> bool \<Rightarrow> bool \<Rightarrow> dl_label list" where
  "runner_main a b c =
     [Submit True runner_rec (as_detections one_claiming),
      Configure 300 ''/dev/null'',
      Configure 300 ''/dev/null'',
      Submit True runner_rec [],
      Submit a runner_rec (as_detections one_declining),
      Submit b runner_rec (as_detections one_claiming),
      Submit c runner_runt (as_detections one_claiming),
      Stop]"

text \<open>What the executor may do on its own: start the next record, finish a started one without an
  exception from outside the detections, and come to rest after the stop.\<close>

fun executor_label :: "dl_label \<Rightarrow> bool" where
  "executor_label Start = True"
| "executor_label (Finish i fault) = (\<not> fault)"
| "executor_label Halt = True"
| "executor_label _ = False"

text \<open>The calls still to be made, and the loop.\<close>

inductive runner :: "peer_resolver \<Rightarrow> json_dump \<Rightarrow> string \<Rightarrow> bool \<Rightarrow> bool \<Rightarrow> bool \<Rightarrow> dl_label list \<Rightarrow> detect_loop \<Rightarrow> bool"
  for res dump now a b c where
  start: "runner res dump now a b c (runner_main a b c) (DetectLoop_start True)"
| call: "runner res dump now a b c (l # calls) s \<Longrightarrow> dl_exec res dump now l s = Some (out, s') \<Longrightarrow> runner res dump now a b c calls s'"
| worker: "runner res dump now a b c calls s \<Longrightarrow> executor_label l \<Longrightarrow> dl_exec res dump now l s = Some (out, s')
    \<Longrightarrow> runner res dump now a b c calls s'"

text \<open>\<open>actions/core/main.cpp\<close> only starts the action loop: its exit status, and the loop.\<close>

definition action_runner :: "bool \<Rightarrow> int \<times> action_loop" where
  "action_runner thread_ok = (0, ActionLoop_init thread_ok)"

section \<open>The invariant\<close>

definition rec_declined :: raw_record where
  "rec_declined = \<lparr>rec_bytes = runner_rec, rec_detections = as_detections one_declining\<rparr>"

definition rec_claimed :: raw_record where
  "rec_claimed = \<lparr>rec_bytes = runner_rec, rec_detections = as_detections one_claiming\<rparr>"

definition rec_runt :: raw_record where
  "rec_runt = \<lparr>rec_bytes = runner_runt, rec_detections = as_detections one_claiming\<rparr>"

lemma length_runner_rec [simp]: "length runner_rec = 16" "length runner_runt = 2"
  by (simp_all add: runner_rec_def runner_runt_def)

lemma runner_rec_runt [simp]: "runner_rec \<noteq> runner_runt" "runner_runt \<noteq> runner_rec" "runner_rec \<noteq> []" "runner_runt \<noteq> []"
  by (auto dest: arg_cong [of _ _ length])

lemma runner_records_distinct [simp]:
  "rec_declined \<noteq> rec_claimed" "rec_claimed \<noteq> rec_declined" "rec_declined \<noteq> rec_runt" "rec_runt \<noteq> rec_declined"
  "rec_claimed \<noteq> rec_runt" "rec_runt \<noteq> rec_claimed"
  by (auto simp: rec_declined_def rec_claimed_def rec_runt_def as_detections_def
      one_declining_def one_claiming_def)

definition waiting :: "raw_record \<Rightarrow> detect_loop \<Rightarrow> nat" where
  "waiting r s = count_list (dl_queue s) r + count_list (dl_running s) r"

text \<open>After the first \<open>k\<close> calls.\<close>

definition runner_inv :: "bool \<Rightarrow> bool \<Rightarrow> bool \<Rightarrow> nat \<Rightarrow> detect_loop \<Rightarrow> bool" where
  "runner_inv a b c k s \<longleftrightarrow>
     (dl_configured s \<longleftrightarrow> 2 \<le> k) \<and> (dl_stop s \<longleftrightarrow> 8 \<le> k) \<and> (2 \<le> k \<longrightarrow> dc_action_loop (dl_ctx s)) \<and>
     dl_unconfigured s = of_bool (1 \<le> k) \<and>
     dl_dropped s = of_bool (4 \<le> k) + of_bool (5 \<le> k \<and> \<not> a) + of_bool (6 \<le> k \<and> \<not> b) + of_bool (7 \<le> k \<and> \<not> c) \<and>
     dl_undetected s + waiting rec_declined s = of_bool (5 \<le> k \<and> a) \<and>
     length (dl_pushed s) + waiting rec_claimed s = of_bool (6 \<le> k \<and> b) \<and>
     (\<forall>g \<in> set (dl_pushed s). \<exists>l. g = [Log l]) \<and>
     set (dl_queue s) \<union> set (dl_running s) \<subseteq> {rec_declined, rec_claimed, rec_runt} \<and>
     (k < 2 \<longrightarrow> dl_queue s = [] \<and> dl_running s = []) \<and> dl_in_flight s = length (dl_queue s) \<and> length (dl_queue s) \<le> k"

lemma runner_inv_start: "runner_inv a b c 0 (DetectLoop_start True)"
  by (simp add: runner_inv_def DetectLoop_start_def DetectLoop_init_def waiting_def)

lemma runner_submit:
  assumes "runner_inv a b c k s" "2 \<le> k" "k < 8"
  shows "snd (submit ok bs [] s) = (if bs = [] then s else countDrop s)"
    "bs \<noteq> [] \<Longrightarrow> length bs \<le> 16 \<Longrightarrow> ds \<noteq> [] \<Longrightarrow> length ds \<le> 1 \<Longrightarrow>
     snd (submit ok bs ds s) = (if ok then s\<lparr>dl_in_flight := dl_in_flight s + 1, dl_queue := dl_queue s @ [\<lparr>rec_bytes = bs, rec_detections = ds\<rparr>]\<rparr>
       else countDrop s)"
  using assms
  by (auto simp: submit_def runner_inv_def kMaxDetectionsPerRecord_def kMaxQueueDepth_def HG_MAX_RAW_EVENT_SIZE_def Let_def countDrop_def)

lemma runner_inv_call:
  assumes "runner_inv a b c k s" "k < 8" "dl_exec res dump now (runner_main a b c ! k) s = Some (out, s')"
  shows "runner_inv a b c (Suc k) s'"
proof -
  consider "k = 0" | "k = 1" | "k = 2" | "k = 3" | "k = 4" | "k = 5" | "k = 6" | "k = 7" using assms(2) by linarith
  then show ?thesis
  proof cases
    case 1
    have "snd (submit True runner_rec (as_detections one_claiming) s) = s\<lparr>dl_unconfigured := dl_unconfigured s + 1\<rparr>"
      using assms(1) 1 by (auto simp: submit_def runner_inv_def runner_rec_def)
    then have "s' = s\<lparr>dl_unconfigured := dl_unconfigured s + 1\<rparr>" using assms(3) 1 by (auto simp: runner_main_def split: prod.splits)
    then show ?thesis using assms(1) 1 by (simp add: runner_inv_def waiting_def)
  next
    case 2
    then show ?thesis using assms(1,3) by (auto simp: runner_main_def runner_inv_def configure_def waiting_def)
  next
    case 3
    then show ?thesis using assms(1,3) by (auto simp: runner_main_def runner_inv_def configure_def waiting_def)
  next
    case 4
    have "s' = countDrop s" using runner_submit(1) [OF assms(1), of True runner_rec] assms(3) 4
      by (auto simp: runner_main_def runner_rec_def split: prod.splits)
    then show ?thesis using assms(1) 4 by (simp add: runner_inv_def waiting_def countDrop_def)
  next
    case 5
    have "s' = (if a then s\<lparr>dl_in_flight := dl_in_flight s + 1, dl_queue := dl_queue s @ [rec_declined]\<rparr> else countDrop s)"
      using runner_submit(2) [OF assms(1), of runner_rec "as_detections one_declining" a] assms(3) 5
      by (auto simp: runner_main_def as_detections_def one_declining_def runner_rec_def rec_declined_def split: prod.splits)
    then show ?thesis using assms(1) 5 by (auto simp: runner_inv_def waiting_def countDrop_def)
  next
    case 6
    have "s' = (if b then s\<lparr>dl_in_flight := dl_in_flight s + 1, dl_queue := dl_queue s @ [rec_claimed]\<rparr> else countDrop s)"
      using runner_submit(2) [OF assms(1), of runner_rec "as_detections one_claiming" b] assms(3) 6
      by (auto simp: runner_main_def as_detections_def one_claiming_def runner_rec_def rec_claimed_def split: prod.splits)
    then show ?thesis using assms(1) 6 by (auto simp: runner_inv_def waiting_def countDrop_def)
  next
    case 7
    have "s' = (if c then s\<lparr>dl_in_flight := dl_in_flight s + 1, dl_queue := dl_queue s @ [rec_runt]\<rparr> else countDrop s)"
      using runner_submit(2) [OF assms(1), of runner_runt "as_detections one_claiming" c] assms(3) 7
      by (auto simp: runner_main_def as_detections_def one_claiming_def runner_runt_def rec_runt_def split: prod.splits)
    then show ?thesis using assms(1) 7 by (auto simp: runner_inv_def waiting_def countDrop_def)
  next
    case 8
    then show ?thesis using assms(1,3) by (auto simp: runner_main_def runner_inv_def waiting_def)
  qed
qed

lemma process_runner:
  assumes "dc_action_loop (dl_ctx s)" "strict_dump dump" "utf8 now"
  shows "process res dump now rec_declined s = Some (s\<lparr>dl_undetected := dl_undetected s + 1\<rparr>)"
    and "\<exists>l. process res dump now rec_claimed s = Some (s\<lparr>dl_pushed := dl_pushed s @ [[Log l]]\<rparr>)"
    and "process res dump now rec_runt s = Some s"
proof -
  show "process res dump now rec_declined s = Some (s\<lparr>dl_undetected := dl_undetected s + 1\<rparr>)"
    by (simp add: process_def rec_declined_def as_detections_def one_declining_def inspectOne_def DecliningDetection_inspect_def)
  obtain v m where cl: "ClaimingDetection_inspect runner_rec EventMeta_init = (Some v, m)" "\<not> actionable v" "reportable v"
    by (simp add: ClaimingDetection_inspect_def reportable_def)
  obtain as n where d: "dispatchVerdict res dump now m v (dl_ctx s) = Some (as, n)"
    using dispatch_throws [OF assms, of res m v] cl(3) by fastforce
  have "process res dump now rec_claimed s = Some (s\<lparr>dl_pushed := dl_pushed s @ [as]\<rparr>)"
    using assms(1) cl(1) by (simp add: process_def rec_claimed_def as_detections_def one_claiming_def inspectOne_def d)
  then show "\<exists>l. process res dump now rec_claimed s = Some (s\<lparr>dl_pushed := dl_pushed s @ [[Log l]]\<rparr>)"
    using dispatch_actions [OF assms(1) d] cl(2) by auto
  show "process res dump now rec_runt s = Some s" by (simp add: process_def rec_runt_def)
qed

lemma waiting_remove_nth:
  "i < length (dl_running s) \<Longrightarrow>
   waiting r s = waiting r (s\<lparr>dl_running := remove_nth i (dl_running s)\<rparr>) + of_bool (dl_running s ! i = r)"
  using arg_cong [OF mset_remove_nth [of i "dl_running s"], of "\<lambda>m. count m r"] by (simp add: waiting_def count_mset)

lemma waiting_frame [simp]:
  "waiting r (s\<lparr>dl_undetected := u\<rparr>) = waiting r s" "waiting r (s\<lparr>dl_pushed := p\<rparr>) = waiting r s"
  by (simp_all add: waiting_def)

lemma runner_inv_finish:
  assumes "runner_inv a b c k s" "i < length (dl_running s)" "strict_dump dump" "utf8 now"
  shows "runner_inv a b c k (handleRecord_finish res dump now False (dl_running s ! i) (s\<lparr>dl_running := remove_nth i (dl_running s)\<rparr>))"
proof -
  let ?s = "s\<lparr>dl_running := remove_nth i (dl_running s)\<rparr>"
  have k: "2 \<le> k" using assms by (cases "k < 2") (auto simp: runner_inv_def)
  have loop: "dc_action_loop (dl_ctx ?s)" using assms(1) k by (simp add: runner_inv_def)
  note p = process_runner [OF loop assms(3,4), of res] and w = waiting_remove_nth [OF assms(2)]
  have sub: "set (remove_nth i (dl_running s)) \<subseteq> set (dl_running s)"
    by (auto simp: remove_nth_def dest: in_set_takeD in_set_dropD)
  have "set (dl_running s) \<subseteq> {rec_declined, rec_claimed, rec_runt}" using assms(1) unfolding runner_inv_def by blast
  then have "dl_running s ! i \<in> {rec_declined, rec_claimed, rec_runt}" using nth_mem [OF assms(2)] by blast
  then consider "dl_running s ! i = rec_declined" | "dl_running s ! i = rec_claimed" | "dl_running s ! i = rec_runt" by blast
  then show ?thesis
  proof cases
    case 1
    then show ?thesis using assms(1) k sub w [of rec_declined] w [of rec_claimed] by (auto simp: runner_inv_def handleRecord_finish_def p(1))
  next
    case 2
    then obtain l where "process res dump now (dl_running s ! i) ?s = Some (?s\<lparr>dl_pushed := dl_pushed ?s @ [[Log l]]\<rparr>)" using p(2) by auto
    then show ?thesis using assms(1) k sub w [of rec_declined] w [of rec_claimed] 2 by (auto simp: runner_inv_def handleRecord_finish_def)
  next
    case 3
    then show ?thesis using assms(1) k sub w [of rec_declined] w [of rec_claimed] by (auto simp: runner_inv_def handleRecord_finish_def p(3))
  qed
qed

lemma runner_inv_worker:
  assumes "runner_inv a b c k s" "executor_label l" "dl_exec res dump now l s = Some (out, s')" "strict_dump dump" "utf8 now"
  shows "runner_inv a b c k s'"
proof (cases l)
  case Start
  then obtain r q where q: "dl_queue s = r # q" "s' = s\<lparr>dl_queue := q, dl_in_flight := dl_in_flight s - 1, dl_running := dl_running s @ [r]\<rparr>"
    using assms(3) by (auto simp: handleRecord_start_def split: if_splits list.splits)
  have w: "waiting x s' = waiting x s" for x by (simp add: q waiting_def)
  have sets: "set (dl_queue s') \<union> set (dl_running s') = set (dl_queue s) \<union> set (dl_running s)" by (auto simp: q)
  from assms(1) show ?thesis unfolding runner_inv_def w sets by (simp add: q split del: split_of_bool)
next
  case (Finish i fault)
  then have "i < length (dl_running s)" "s' = handleRecord_finish res dump now False (dl_running s ! i) (s\<lparr>dl_running := remove_nth i (dl_running s)\<rparr>)"
    using assms(2,3) by (auto simp: Let_def split: if_splits)
  then show ?thesis using runner_inv_finish [OF assms(1) _ assms(4,5)] by simp
next
  case Halt
  then show ?thesis using assms(1,3) by (auto simp: runner_inv_def waiting_def split: if_splits)
qed (use assms(2) in simp_all)

lemma runner_reaches:
  "runner res dump now a b c calls s \<Longrightarrow> strict_dump dump \<Longrightarrow> utf8 now \<Longrightarrow>
   \<exists>k \<le> 8. calls = drop k (runner_main a b c) \<and> runner_inv a b c k s"
proof (induction rule: runner.induct)
  case start
  show ?case using runner_inv_start by (intro exI [of _ 0]) simp
next
  case (call l calls s out s')
  then obtain k where k: "k \<le> 8" "l # calls = drop k (runner_main a b c)" "runner_inv a b c k s" by blast
  have len: "length (runner_main a b c) = 8" by (simp add: runner_main_def)
  then have k8: "k < 8" using k(1,2) by (cases "k = 8") auto
  then have "drop k (runner_main a b c) = runner_main a b c ! k # drop (Suc k) (runner_main a b c)"
    using len by (simp add: Cons_nth_drop_Suc)
  then show ?case using k k8 call.hyps(2) runner_inv_call [OF k(3) k8] by (intro exI [of _ "Suc k"]) auto
next
  case (worker calls s l out s')
  then show ?case using runner_inv_worker by blast
qed

section \<open>Properties\<close>

text \<open>The runner shows what it says it shows, however the workers are scheduled.  When \<open>main\<close> has made all its
  calls, exactly one record was refused for arriving before \<open>configure\<close> and one was dropped for its empty
  list, besides those whose allocation failed; the declined record is counted as unclaimed once and the claimed one
  dispatched once, to a log entry alone, unless they are still waiting; and the loop is
  stopped.  If nothing is waiting, each has been dealt with.\<close>

theorem runner_demonstrates:
  assumes "runner res dump now a b c [] s" "strict_dump dump" "utf8 now"
  shows "dl_stop s \<and> dl_configured s \<and> dl_unconfigured s = 1
     \<and> dl_dropped s = 1 + of_bool (\<not> a) + of_bool (\<not> b) + of_bool (\<not> c)
     \<and> dl_undetected s + waiting rec_declined s = of_bool a
     \<and> length (dl_pushed s) + waiting rec_claimed s = of_bool b
     \<and> (\<forall>g \<in> set (dl_pushed s). \<exists>l. g = [Log l])
     \<and> (dl_queue s = [] \<and> dl_running s = [] \<longrightarrow> dl_undetected s = of_bool a \<and> length (dl_pushed s) = of_bool b)"
proof -
  obtain k where k: "k \<le> 8" "[] = drop k (runner_main a b c)" "runner_inv a b c k s" using runner_reaches [OF assms] by blast
  then have "k = 8" by (simp add: runner_main_def)
  then show ?thesis using k(3) by (auto simp: runner_inv_def waiting_def)
qed

text \<open>A run in which the workers get to everything before the stop.\<close>

definition runner_dump :: json_dump where
  "runner_dump j = (if json_utf8 j then Some [] else None)"

fun run_labels :: "dl_label list \<Rightarrow> detect_loop \<Rightarrow> detect_loop option" where
  "run_labels [] s = Some s"
| "run_labels (l # ls) s = Option.bind (dl_exec (\<lambda>m. (False, m)) runner_dump [] l s) (\<lambda>(_, s). run_labels ls s)"

lemma runner_calls:
  "runner (\<lambda>m. (False, m)) runner_dump [] a b c (ls @ calls) s \<Longrightarrow> run_labels ls s = Some s' \<Longrightarrow>
   runner (\<lambda>m. (False, m)) runner_dump [] a b c calls s'"
  by (induction ls arbitrary: s) (auto simp: bind_eq_Some_conv intro: runner.call)

lemma runner_workers:
  "runner (\<lambda>m. (False, m)) runner_dump [] a b c calls s \<Longrightarrow> list_all executor_label ls \<Longrightarrow> run_labels ls s = Some s' \<Longrightarrow>
   runner (\<lambda>m. (False, m)) runner_dump [] a b c calls s'"
  by (induction ls arbitrary: s) (auto simp: bind_eq_Some_conv intro: runner.worker)

theorem runner_demonstrates_witness:
  "\<exists>s. runner (\<lambda>m. (False, m)) runner_dump [] True True True [] s \<and> dl_unconfigured s = 1 \<and> dl_dropped s = 1 \<and>
     dl_undetected s = 1 \<and> length (dl_pushed s) = 1"
proof -
  let ?work = "[Start, Start, Finish 1 False, Start, Finish 1 False, Finish 0 False]"
  let ?R = "runner (\<lambda>m. (False, m)) runner_dump [] True True True"
  have "case run_labels (take 7 (runner_main True True True)) (DetectLoop_start True) of None \<Rightarrow> False | Some s1 \<Rightarrow>
      (case run_labels ?work s1 of None \<Rightarrow> False | Some s2 \<Rightarrow>
        (case run_labels [Stop] s2 of None \<Rightarrow> False | Some s3 \<Rightarrow> dl_queue s3 = [] \<and> dl_running s3 = []))"
    by code_simp
  then obtain s1 s2 s3 where r: "run_labels (take 7 (runner_main True True True)) (DetectLoop_start True) = Some s1"
      "run_labels ?work s1 = Some s2" "run_labels [Stop] s2 = Some s3" "dl_queue s3 = []" "dl_running s3 = []"
    by (auto split: option.splits)
  have "?R (take 7 (runner_main True True True) @ [Stop]) (DetectLoop_start True)"
    using runner.start [of "\<lambda>m. (False, m)" runner_dump "[]" True True True] by (simp add: runner_main_def)
  from runner_calls [OF this r(1)] have "?R [Stop] s1" .
  from runner_workers [OF this _ r(2)] have "?R ([Stop] @ []) s2" by simp
  from runner_calls [OF this r(3)] have R: "?R [] s3" .
  show ?thesis using runner_demonstrates [OF R] R r(4,5) by (auto simp: strict_dump_def runner_dump_def)
qed

end
