(* ===== verification/Timestamp.thy ===== *)
theory Timestamp
  imports Dispatch
begin

text \<open>
  \<open>RedfishEventMessage::nowUtcIso8601\<close> of \<open>actions/log/redfish_event_message.hpp\<close>: the text of the wall
  clock in a logged event.  The clock's value is an argument, in seconds since 1970; \<open>gmtime_r\<close> and
  \<open>std::put_time\<close> are those of the standard library, by the Gregorian calendar.
\<close>

section \<open>The calendar\<close>

definition leap :: "nat \<Rightarrow> bool" where
  "leap y \<longleftrightarrow> 4 dvd y \<and> (\<not> 100 dvd y \<or> 400 dvd y)"

definition year_days :: "nat \<Rightarrow> nat" where
  "year_days y = (if leap y then 366 else 365)"

definition month_days :: "nat \<Rightarrow> nat list" where
  "month_days y = [31, if leap y then 29 else 28, 31, 30, 31, 30, 31, 31, 30, 31, 30, 31]"

record tm =
  tm_year :: nat
  tm_mon :: nat
  tm_mday :: nat
  tm_hour :: nat
  tm_min :: nat
  tm_sec :: nat

text \<open>The year a day falls in, counted from the first day of year \<open>y\<close>, and the day of that year.\<close>

function split_year :: "nat \<Rightarrow> nat \<Rightarrow> nat \<times> nat" where
  "split_year y d = (if d < year_days y then (y, d) else split_year (Suc y) (d - year_days y))"
  by auto
termination
  by (relation "measure snd") (auto simp: year_days_def)

declare split_year.simps [simp del]

fun split_month :: "nat list \<Rightarrow> nat \<Rightarrow> nat \<times> nat" where
  "split_month [] d = (0, d)"
| "split_month (n # ns) d = (if d < n then (0, d) else (let (m, r) = split_month ns (d - n) in (Suc m, r)))"

text \<open>\<open>tm_year\<close> is the year itself; the month and the day count from 1.\<close>

definition gmtime :: "nat \<Rightarrow> tm" where
  "gmtime t =
     (let (y, d) = split_year 1970 (t div 86400); (m, r) = split_month (month_days y) d; s = t mod 86400 in
      \<lparr>tm_year = y, tm_mon = Suc m, tm_mday = Suc r, tm_hour = s div 3600, tm_min = s mod 3600 div 60, tm_sec = s mod 60\<rparr>)"

definition two_digits :: "nat \<Rightarrow> string" where
  "two_digits n = [digit_char (n div 10), digit_char (n mod 10)]"

text \<open>\<open>%Y-%m-%dT%H:%M:%SZ\<close>.\<close>

definition put_time :: "tm \<Rightarrow> string" where
  "put_time c = to_string (tm_year c) @ ''-'' @ two_digits (tm_mon c) @ ''-'' @ two_digits (tm_mday c) @ ''T'' @
     two_digits (tm_hour c) @ '':'' @ two_digits (tm_min c) @ '':'' @ two_digits (tm_sec c) @ ''Z''"

definition nowUtcIso8601 :: "nat \<Rightarrow> string" where
  "nowUtcIso8601 now = put_time (gmtime now)"

section \<open>Reading it back\<close>

fun days_between :: "nat \<Rightarrow> nat \<Rightarrow> nat" where
  "days_between y 0 = 0"
| "days_between y (Suc n) = year_days y + days_between (Suc y) n"

definition seconds_of :: "tm \<Rightarrow> nat" where
  "seconds_of c = 86400 * (days_between 1970 (tm_year c - 1970) + sum_list (take (tm_mon c - 1) (month_days (tm_year c))) + (tm_mday c - 1))
     + 3600 * tm_hour c + 60 * tm_min c + tm_sec c"

definition wf_tm :: "tm \<Rightarrow> bool" where
  "wf_tm c \<longleftrightarrow> 1970 \<le> tm_year c \<and> tm_mon c \<in> {1..12} \<and> tm_mday c \<in> {1..month_days (tm_year c) ! (tm_mon c - 1)} \<and>
     tm_hour c < 24 \<and> tm_min c < 60 \<and> tm_sec c < 60"

lemma split_year_days:
  "split_year y d = (y', d') \<Longrightarrow> y \<le> y' \<and> d' < year_days y' \<and> d = days_between y (y' - y) + d'"
proof (induction y d rule: split_year.induct)
  case (1 y d)
  show ?case
  proof (cases "d < year_days y")
    case True
    then show ?thesis using 1(2) by (simp add: split_year.simps [of y d])
  next
    case False
    then have r: "split_year (Suc y) (d - year_days y) = (y', d')" using 1(2) by (simp add: split_year.simps [of y d])
    from 1(1) [OF False r] have "Suc y \<le> y'" "d' < year_days y'" "d - year_days y = days_between (Suc y) (y' - Suc y) + d'" by auto
    moreover from this have "y' - y = Suc (y' - Suc y)" by simp
    ultimately show ?thesis using False by simp
  qed
qed

lemma split_month_days:
  "split_month ns d = (m, r) \<Longrightarrow> d < sum_list ns \<Longrightarrow> m < length ns \<and> r < ns ! m \<and> d = sum_list (take m ns) + r"
proof (induction ns arbitrary: d m r)
  case (Cons n ns)
  show ?case
  proof (cases "d < n")
    case False
    obtain m' r' where r: "split_month ns (d - n) = (m', r')" by fastforce
    then have "m = Suc m'" "r = r'" using Cons.prems(1) False by auto
    moreover have "d - n < sum_list ns" using Cons.prems(2) False by simp
    ultimately show ?thesis using Cons.IH [OF r] False by auto
  qed (use Cons.prems in auto)
qed simp

lemma month_days_sum: "sum_list (month_days y) = year_days y" "length (month_days y) = 12"
  by (simp_all add: month_days_def year_days_def)

lemma month_days_le: "m < 12 \<Longrightarrow> month_days y ! m \<le> 31"
  by (auto simp: month_days_def less_Suc_eq numeral_eq_Suc)

lemma clock_exact: "3600 * (s div 3600) + 60 * (s mod 3600 div 60) + s mod 60 = (s :: nat)"
proof -
  have "s mod 3600 mod 60 = s mod 60" by (rule mod_mod_cancel) simp
  then show ?thesis using mult_div_mod_eq [of 3600 s] mult_div_mod_eq [of 60 "s mod 3600"] by linarith
qed

lemma gmtime_exact: "wf_tm (gmtime t) \<and> seconds_of (gmtime t) = t"
proof -
  obtain y d where y: "split_year 1970 (t div 86400) = (y, d)" by fastforce
  obtain m r where m: "split_month (month_days y) d = (m, r)" by fastforce
  have d: "1970 \<le> y" "d < year_days y" "t div 86400 = days_between 1970 (y - 1970) + d" using split_year_days [OF y] by auto
  have r: "m < 12" "r < month_days y ! m" "d = sum_list (take m (month_days y)) + r"
    using split_month_days [OF m] d(2) by (auto simp: month_days_sum)
  note s = clock_exact [of "t mod 86400"]
  have "86400 * (t div 86400) + t mod 86400 = t" by simp
  then have "86400 * (days_between 1970 (y - 1970) + sum_list (take m (month_days y)) + r) + t mod 86400 = t"
    using d(3) r(3) by (simp add: add.assoc)
  with s have "seconds_of (gmtime t) = t" by (simp add: seconds_of_def gmtime_def y m Let_def)
  moreover have "wf_tm (gmtime t)" using d(1) r(1,2) by (auto simp: wf_tm_def gmtime_def y m Let_def)
  ultimately show ?thesis by simp
qed

section \<open>The text\<close>

text \<open>A reader of the fixed format, and whether it denotes a time.\<close>

definition parse_iso8601 :: "string \<Rightarrow> nat option" where
  "parse_iso8601 s =
     (if length s = 20 \<and> map (\<lambda>i. s ! i) [4, 7, 10, 13, 16, 19] = ''--T::Z'' then
        let f = (\<lambda>i n. dec_value (take n (drop i s)));
            c = \<lparr>tm_year = f 0 4, tm_mon = f 5 2, tm_mday = f 8 2, tm_hour = f 11 2, tm_min = f 14 2, tm_sec = f 17 2\<rparr>
        in if wf_tm c then Some (seconds_of c) else None
      else None)"

lemma two_digits_text: "n < 100 \<Longrightarrow> dec_value (two_digits n) = n" "length (two_digits n) = 2"
  by (simp_all add: two_digits_def dec_value_def less_mult_imp_div_less)

lemma length_year: "1000 \<le> y \<Longrightarrow> y < 10000 \<Longrightarrow> length (to_string y) = 4"
proof -
  assume y: "1000 \<le> y" "y < 10000"
  then have "100 \<le> y div 10" "y div 10 < 1000" by simp_all
  then have "length (to_string (y div 10)) = 3" by (simp add: to_string_hundreds)
  then show ?thesis using y by (simp add: to_string.simps [of y])
qed

lemma parse_put_time:
  assumes "wf_tm c" "tm_year c < 10000"
  shows "parse_iso8601 (put_time c) = Some (seconds_of c)"
proof -
  have c: "1970 \<le> tm_year c" "tm_mon c < 100" "tm_mday c < 100" "tm_hour c < 100" "tm_min c < 100" "tm_sec c < 100"
  proof -
    have "tm_mon c - 1 < 12" using assms(1) by (auto simp: wf_tm_def)
    from month_days_le [OF this, of "tm_year c"] have "tm_mday c \<le> 31" using assms(1) by (auto simp: wf_tm_def)
    then show "tm_mday c < 100" by simp
  qed (use assms(1) in \<open>auto simp: wf_tm_def\<close>)
  obtain y0 y1 y2 y3 where y: "to_string (tm_year c) = [y0, y1, y2, y3]"
  proof -
    have "length (to_string (tm_year c)) = Suc (Suc (Suc (Suc 0)))" using length_year [of "tm_year c"] c(1) assms(2) by simp
    then show thesis using that by (auto simp: length_Suc_conv)
  qed
  have yv: "dec_value [y0, y1, y2, y3] = tm_year c" using dec_value_to_string [of "tm_year c"] y by simp
  have two: "dec_value [digit_char (n div 10), digit_char (n mod 10)] = n" if "n < 100" for n
    using two_digits_text(1) [OF that] by (simp add: two_digits_def)
  have eq: "\<lparr>tm_year = tm_year c, tm_mon = tm_mon c, tm_mday = tm_mday c, tm_hour = tm_hour c, tm_min = tm_min c, tm_sec = tm_sec c\<rparr> = c"
    by simp
  show ?thesis
    using assms(1) by (simp add: parse_iso8601_def put_time_def two_digits_def y yv two c eq nth_Cons' Let_def)
qed

lemma split_year_bound: "d < days_between y n \<Longrightarrow> fst (split_year y d) < y + n"
proof (induction n arbitrary: y d)
  case (Suc n)
  show ?case
  proof (cases "d < year_days y")
    case True
    then show ?thesis by (simp add: split_year.simps [of y d])
  next
    case False
    then show ?thesis using Suc.IH [of "d - year_days y" "Suc y"] Suc.prems by (simp add: split_year.simps [of y d])
  qed
qed simp

text \<open>The number of days by the leap-year counts.\<close>

definition day_count :: "nat \<Rightarrow> int" where
  "day_count m = 365 * int m + int (m div 4) - int (m div 100) + int (m div 400)"

lemma day_count_Suc: "day_count (Suc m) = day_count m + int (year_days (Suc m))"
proof -
  have d: "int (Suc m div k) = int (m div k) + (if k dvd Suc m then 1 else 0)" for k
    by (simp add: div_Suc dvd_eq_mod_eq_0)
  have "400 dvd Suc m \<Longrightarrow> 100 dvd Suc m" "100 dvd Suc m \<Longrightarrow> 4 dvd Suc m"
    using dvd_trans [of "100 :: nat" 400 "Suc m"] dvd_trans [of "4 :: nat" 100 "Suc m"] by simp_all
  then show ?thesis unfolding day_count_def year_days_def leap_def d
    by (cases "4 dvd Suc m"; cases "100 dvd Suc m"; cases "400 dvd Suc m") (simp_all only: if_True if_False simp_thms, simp_all)
qed

lemma days_between_count: "int (days_between (Suc m) n) = day_count (m + n) - day_count m"
proof (induction n arbitrary: m)
  case (Suc n)
  show ?case using Suc.IH [of "Suc m"] day_count_Suc [of m] by simp
qed simp

lemma gmtime_year_bound:
  assumes "t < 253402300800"
  shows "tm_year (gmtime t) < 10000"
proof -
  have "int (days_between 1970 8030) = 2932897"
    using days_between_count [of 1969 8030] by (simp add: day_count_def)
  then have "t div 86400 < days_between 1970 8030" using assms by simp
  from split_year_bound [OF this] show ?thesis by (simp add: gmtime_def Let_def case_prod_beta)
qed

section \<open>Properties\<close>

text \<open>C40: the time stamp of a logged event can be read back.  For every second from 1970 to the end of the year
  9999 the event's \<open>EventTimestamp\<close> has the twenty characters of an ISO 8601 date and time, denotes a date that
  exists in the calendar, and a reader of that format gets exactly the clock's value from it.\<close>

theorem timestamp_roundtrip:
  assumes "t < 253402300800"
  shows "parse_iso8601 (nowUtcIso8601 t) = Some t \<and> wf_tm (gmtime t)
     \<and> (\<exists>members. redfish_payload (nowUtcIso8601 t) e = JObject members \<and>
          (\<exists>entry. map_of members ''Events'' = Some (JArray [JObject entry]) \<and>
             map_of entry ''EventTimestamp'' = Some (JString (nowUtcIso8601 t))))"
  using gmtime_exact [of t] parse_put_time [of "gmtime t"] gmtime_year_bound [OF assms]
  by (simp add: nowUtcIso8601_def redfish_payload_def)

theorem timestamp_roundtrip_witness:
  "nowUtcIso8601 68214896 = ''1972-02-29T12:34:56Z'' \<and> parse_iso8601 ''1972-02-29T12:34:56Z'' = Some 68214896"
proof -
  have "gmtime 68214896 = \<lparr>tm_year = 1972, tm_mon = 2, tm_mday = 29, tm_hour = 12, tm_min = 34, tm_sec = 56\<rparr>"
    by (simp add: gmtime_def split_year.simps year_days_def leap_def month_days_def)
  then have "nowUtcIso8601 68214896 = ''1972-02-29T12:34:56Z''"
    by (simp add: nowUtcIso8601_def put_time_def two_digits_def to_string.simps digit_char_def char_of_def bit_0 bit_Suc)
  then show ?thesis using timestamp_roundtrip [of 68214896] by simp
qed

end
