(* ===== verification/Locked_Stream.thy ===== *)
theory Locked_Stream
  imports Log_Action "HOL-Library.Multiset"
begin

text \<open>
  \<open>AsyncFileStreamManager::LockedStream\<close> of \<open>actions/log/async_mutex.hpp\<close>: the handle that owns a file's lock
  and hands it back when it is destroyed.  Handles are moved, never copied.  The state is the
  handles alive (a slot per handle, \<open>None\<close> once destroyed), the locks acquired, those \<open>acquire_stream\<close> left without
  a handle by an exception, and the calls of \<open>unlock\<close> so far; what \<open>lock\<close> and \<open>unlock\<close> do is the subject of
  \<open>Log_Action\<close>.
\<close>

record locked_stream =
  lk_owner :: bool  \<comment> \<open>\<open>owner_ != nullptr\<close>\<close>
  lk_filename :: string
  lk_stream :: bool  \<comment> \<open>\<open>stream_\<close> is not null\<close>

definition LockedStream_default :: locked_stream where
  "LockedStream_default = \<lparr>lk_owner = False, lk_filename = [], lk_stream = False\<rparr>"

definition LockedStream :: "string \<Rightarrow> locked_stream" where
  "LockedStream filename = \<lparr>lk_owner = True, lk_filename = filename, lk_stream = True\<rparr>"

text \<open>With the calls of \<open>unlock\<close>.\<close>

definition release :: "locked_stream \<times> string list \<Rightarrow> locked_stream \<times> string list" where
  "release = (\<lambda>(h, unlocks). if lk_owner h then (h\<lparr>lk_owner := False\<rparr>, unlocks @ [lk_filename h]) else (h, unlocks))"

text \<open>The new handle and what is left of the other.\<close>

definition LockedStream_move :: "locked_stream \<Rightarrow> locked_stream \<times> locked_stream" where
  "LockedStream_move other = (other, \<lparr>lk_owner = False, lk_filename = [], lk_stream = False\<rparr>)"

definition LockedStream_assign ::
  "locked_stream \<Rightarrow> locked_stream \<Rightarrow> string list \<Rightarrow> locked_stream \<times> locked_stream \<times> string list" where
  "LockedStream_assign this other unlocks =
     (let (this, unlocks) = release (this, unlocks); (this, other) = LockedStream_move other in (this, other, unlocks))"

definition LockedStream_destroy :: "locked_stream \<Rightarrow> string list \<Rightarrow> string list" where
  "LockedStream_destroy h unlocks = snd (release (h, unlocks))"

section \<open>Programs over handles\<close>

record handles =
  hs_slots :: "locked_stream option list"
  hs_acquired :: "string list"  \<comment> \<open>\<open>lock\<close> completed\<close>
  hs_stranded :: "string list"  \<comment> \<open>and \<open>acquire_stream\<close> threw before the handle existed\<close>
  hs_unlocks :: "string list"

datatype handle_label =
    Acquire string        \<comment> \<open>\<open>acquire_stream\<close> returns a handle\<close>
  | Acquire_failed string \<comment> \<open>it could not open the file: it unlocks and returns an empty handle\<close>
  | Acquire_threw string  \<comment> \<open>an exception between \<open>lock\<close> and the handle (the \<open>stream_descriptor\<close>, the cache, the handle's name)\<close>
  | Move_new nat        \<comment> \<open>move construction from the handle in a slot\<close>
  | Move_assign nat nat \<comment> \<open>from the second to the first\<close>
  | Destroy nat

fun live :: "handles \<Rightarrow> nat \<Rightarrow> locked_stream option" where
  "live s i = (if i < length (hs_slots s) then hs_slots s ! i else None)"

fun handle_exec :: "handle_label \<Rightarrow> handles \<Rightarrow> handles option" where
  "handle_exec (Acquire f) s = Some (s\<lparr>hs_slots := hs_slots s @ [Some (LockedStream f)], hs_acquired := hs_acquired s @ [f]\<rparr>)"
| "handle_exec (Acquire_failed f) s = Some (s\<lparr>hs_slots := hs_slots s @ [Some LockedStream_default],
     hs_acquired := hs_acquired s @ [f], hs_unlocks := hs_unlocks s @ [f]\<rparr>)"
| "handle_exec (Acquire_threw f) s = Some (s\<lparr>hs_acquired := hs_acquired s @ [f], hs_stranded := hs_stranded s @ [f]\<rparr>)"
| "handle_exec (Move_new j) s =
     (case live s j of
        None \<Rightarrow> None
      | Some other \<Rightarrow> let (this, other) = LockedStream_move other in
          Some (s\<lparr>hs_slots := (hs_slots s)[j := Some other] @ [Some this]\<rparr>))"
| "handle_exec (Move_assign i j) s =
     (case (live s i, live s j) of
        (Some this, Some other) \<Rightarrow>
          if i = j then Some s
          else let (this, other, unlocks) = LockedStream_assign this other (hs_unlocks s) in
            Some (s\<lparr>hs_slots := (hs_slots s)[j := Some other, i := Some this], hs_unlocks := unlocks\<rparr>)
      | _ \<Rightarrow> None)"
| "handle_exec (Destroy i) s =
     (case live s i of
        None \<Rightarrow> None
      | Some h \<Rightarrow> Some (s\<lparr>hs_slots := (hs_slots s)[i := None], hs_unlocks := LockedStream_destroy h (hs_unlocks s)\<rparr>))"

inductive handle_reach :: "handles \<Rightarrow> bool" where
  init: "handle_reach \<lparr>hs_slots = [], hs_acquired = [], hs_stranded = [], hs_unlocks = []\<rparr>"
| step: "handle_reach s \<Longrightarrow> handle_exec l s = Some s' \<Longrightarrow> handle_reach s'"

section \<open>Ownership\<close>

fun owned_by :: "locked_stream option \<Rightarrow> string multiset" where
  "owned_by None = {#}"
| "owned_by (Some h) = (if lk_owner h then {#lk_filename h#} else {#})"

definition owned_locks :: "handles \<Rightarrow> string multiset" where
  "owned_locks s = sum_list (map owned_by (hs_slots s))"

lemma sum_list_replace:
  "i < length xs \<Longrightarrow> sum_list (map f (xs[i := v])) + f (xs ! i) = sum_list (map f xs) + (f v :: 'a multiset)"
proof (induction xs arbitrary: i)
  case (Cons x xs)
  then show ?case by (cases i) (auto simp: ac_simps)
qed simp

lemma live_SomeD: "live s i = Some h \<Longrightarrow> i < length (hs_slots s) \<and> hs_slots s ! i = Some h"
  by (auto split: if_splits)

lemma released_or_owned:
  assumes "handle_exec l s = Some s'" "mset (hs_acquired s) = mset (hs_unlocks s) + owned_locks s + mset (hs_stranded s)"
  shows "mset (hs_acquired s') = mset (hs_unlocks s') + owned_locks s' + mset (hs_stranded s')"
proof (cases l)
  case (Move_new j)
  then obtain h where h: "live s j = Some h" using assms(1) by (auto simp del: live.simps split: option.splits)
  note j = live_SomeD [OF h]
  from sum_list_replace [OF conjunct1 [OF j], of owned_by "Some LockedStream_default"] j
  have "owned_locks s = sum_list (map owned_by ((hs_slots s)[j := Some LockedStream_default])) + owned_by (Some h)"
    by (simp add: owned_locks_def LockedStream_default_def)
  then show ?thesis using assms Move_new h
    by (auto simp: owned_locks_def LockedStream_move_def LockedStream_default_def simp del: live.simps)
next
  case (Move_assign i j)
  then obtain this other where h: "live s i = Some this" "live s j = Some other"
    using assms(1) by (auto simp del: live.simps split: option.splits)
  note i = live_SomeD [OF h(1)] and j = live_SomeD [OF h(2)]
  show ?thesis
  proof (cases "i = j")
    case True
    then show ?thesis using assms Move_assign h by (simp del: live.simps)
  next
    case False
    let ?xs = "(hs_slots s)[j := Some LockedStream_default]"
    have "sum_list (map owned_by ?xs) + owned_by (Some other) = owned_locks s"
      using sum_list_replace [OF conjunct1 [OF j], of owned_by "Some LockedStream_default"] j
      by (simp add: owned_locks_def LockedStream_default_def)
    moreover have "sum_list (map owned_by (?xs[i := Some other])) + owned_by (Some this) = sum_list (map owned_by ?xs) + owned_by (Some other)"
      using sum_list_replace [of i ?xs owned_by "Some other"] i False by simp
    ultimately have "sum_list (map owned_by (?xs[i := Some other])) + owned_by (Some this) = owned_locks s" by simp
    then show ?thesis using assms Move_assign h False
      by (auto simp: owned_locks_def LockedStream_assign_def LockedStream_move_def LockedStream_default_def release_def
          simp del: live.simps split: if_splits)
  qed
next
  case (Destroy i)
  then obtain h where h: "live s i = Some h" using assms(1) by (auto simp del: live.simps split: option.splits)
  from sum_list_replace [of i "hs_slots s" owned_by None] live_SomeD [OF h]
  have "sum_list (map owned_by ((hs_slots s)[i := None])) + owned_by (Some h) = owned_locks s" by (simp add: owned_locks_def)
  then show ?thesis using assms Destroy h
    by (auto simp: owned_locks_def LockedStream_destroy_def release_def simp del: live.simps split: if_splits)
qed (use assms in \<open>auto simp: owned_locks_def LockedStream_def LockedStream_default_def\<close>)

section \<open>Properties\<close>

text \<open>C39: every file lock a handle owns is handed back exactly once.  Whatever handles are acquired, moved into new
  ones, moved over others and destroyed, in any order, the locks taken are those whose \<open>unlock\<close> was called together
  with those some handle still owns and those an exception of \<open>acquire_stream\<close> left behind before the handle existed;
  so once every handle is gone each lock taken has been matched by exactly one \<open>unlock\<close> of its file, except the ones left
  behind, which are never unlocked.  The locks left behind are exactly the calls of \<open>acquire_stream\<close> that threw: no
  operation on handles adds to them.\<close>

theorem locks_released_once:
  assumes "handle_reach s"
  shows "mset (hs_acquired s) = mset (hs_unlocks s) + sum_list (map owned_by (hs_slots s)) + mset (hs_stranded s)
     \<and> ((\<forall>i < length (hs_slots s). hs_slots s ! i = None) \<longrightarrow> mset (hs_acquired s) = mset (hs_unlocks s) + mset (hs_stranded s))
     \<and> (\<forall>l s'. handle_exec l s = Some s' \<longrightarrow>
          hs_stranded s' = hs_stranded s @ (case l of Acquire_threw f \<Rightarrow> [f] | _ \<Rightarrow> []))"
proof -
  have "mset (hs_acquired s) = mset (hs_unlocks s) + owned_locks s + mset (hs_stranded s)"
    using assms by (induction rule: handle_reach.induct) (auto simp: owned_locks_def dest: released_or_owned)
  moreover have "hs_stranded s' = hs_stranded s @ (case l of Acquire_threw f \<Rightarrow> [f] | _ \<Rightarrow> [])" if "handle_exec l s = Some s'" for l s'
    using that by (cases l) (auto simp: Let_def split: option.splits prod.splits if_splits)
  moreover have "sum_list (map owned_by xs) = {#}" if "\<forall>i < length xs. xs ! i = None" for xs
  proof -
    have "\<forall>x \<in> set xs. x = None" using that by (auto simp: in_set_conv_nth)
    then show ?thesis by (induction xs) auto
  qed
  ultimately show ?thesis by (simp add: owned_locks_def)
qed

theorem locks_released_once_witness:
  "\<exists>s. handle_reach s \<and> hs_slots s = [None, None, None] \<and> hs_acquired s = [''a'', ''b'', ''c'', ''d''] \<and> hs_stranded s = [''d'']
     \<and> mset (hs_acquired s) = mset (hs_unlocks s) + {#''d''#}"
proof -
  let ?run = "[Acquire ''a'', Acquire ''b'', Move_assign 0 1, Acquire_failed ''c'', Acquire_threw ''d'', Destroy 0, Destroy 1, Destroy 2]"
  have run: "handle_reach s \<Longrightarrow> foldl (\<lambda>s l. Option.bind s (handle_exec l)) (Some s) ls = Some s' \<Longrightarrow> handle_reach s'" for ls s s'
  proof (induction ls arbitrary: s)
    case (Cons l ls)
    have none: "foldl (\<lambda>s l. Option.bind s (handle_exec l)) None ls = None" by (induction ls) auto
    from Cons.prems(2) obtain s1 where "handle_exec l s = Some s1"
      by (cases "handle_exec l s") (auto simp: none)
    then show ?case using Cons.IH [of s1] Cons.prems handle_reach.step by simp
  qed simp
  let ?s = "\<lparr>hs_slots = [None, None, None], hs_acquired = [''a'', ''b'', ''c'', ''d''], hs_stranded = [''d''],
    hs_unlocks = [''a'', ''c'', ''b'']\<rparr>"
  have s: "foldl (\<lambda>s l. Option.bind s (handle_exec l)) (Some \<lparr>hs_slots = [], hs_acquired = [], hs_stranded = [], hs_unlocks = []\<rparr>) ?run = Some ?s"
    by (simp add: LockedStream_assign_def LockedStream_move_def LockedStream_destroy_def release_def LockedStream_def LockedStream_default_def)
  have r: "handle_reach ?s" by (rule run [OF handle_reach.init s])
  have "\<forall>i < length (hs_slots ?s). hs_slots ?s ! i = None" by (auto simp: less_Suc_eq)
  then have "mset (hs_acquired ?s) = mset (hs_unlocks ?s) + mset (hs_stranded ?s)" using locks_released_once [OF r] by blast
  then show ?thesis using r by (intro exI [of _ ?s]) simp
qed

end
