(* ===== verification/Spec2Isabelle.thy ===== *)
theory Spec2Isabelle
  imports Record_Types Runner Timestamp Locked_Stream
begin

text \<open>
  HTTPS-Guard: a verification development.

  HTTPS-Guard watches the HTTPS service of a baseboard management controller.  Three kernel programs
  observe (an XDP program on the interface, uprobes on OpenSSL with kprobes on the TCP calls, an LSM hook on the
  certificate file); they share one ring buffer, one blocklist map and a few counter maps with a
  daemon that classifies what they report, writes it to a log, and for some verdicts
  blocklists the peer and tears its connection down.  All paths below are under
  \<open>src/recipes-https-guard/https-guard/files\<close>.

  \<^bold>\<open>How the parts interact.\<close>  A packet runs through \<open>https_guard_xdp\<close>, which consults the blocklist, counts
  connection flags and may submit an \<open>xdp_event\<close>; SSL calls submit \<open>uprobe_event\<close>s, opens of the certificate
  \<open>lsm_cert_guard_event\<close>s.  \<open>main\<close> polls the ring buffer; \<open>HttpGuardProgram::dispatchRecord\<close>
  finds the module that owns the record's source, whose handler submits the bytes with its list of
  detections to \<open>DetectLoop\<close>; a worker decodes them, the first detection with a verdict wins, and
  \<open>dispatchVerdict\<close> turns the verdict into a group of actions for \<open>ActionLoop\<close>: log, blocklist, teardown.  A timer
  sweeps the counter map for floods and the session maps for stale bindings.

  \<^bold>\<open>Theories.\<close>  Each opens with the files it models; records carry the source's fields, one definition
  stands for one function, and names are the source's.

  \<^item> \<open>Prelude\<close>: byte and word lemmas, \<open>boundedString\<close>, decimal text, the machine types \<open>u8\<close> to \<open>u64\<close> as words.
  \<^item> \<open>Bpf_Map\<close>: a map as a partial function, updating as an argument; the locales \<open>bpf_map\<close>, \<open>bpf_hash_map\<close> and
    \<open>bpf_lru_map\<close> state what the kernel promises of an update, which for an LRU map may evict anything else.
  \<^item> \<open>Blocklist\<close>: \<open>actions/blocklist\<close>, kernel check and daemon side over the same map.
  \<^item> \<open>Conn_Rate\<close>: \<open>conn_rate.bpf.h\<close>, counters at their width; exactness, no overcharge under eviction, the open level as
    a refinement of an abstract count.
  \<^item> \<open>Client_Hello\<close>: \<open>parse_client_hello.h\<close>, the bounded walk; the round trip with the wire format.
  \<^item> \<open>Raw_Event\<close>: the event structs and their byte layout, both directions.
  \<^item> \<open>Xdp_Tls\<close>: \<open>xdp_tls.bpf.h\<close>, the whole packet program; the drop rule, refinement to segment fields, the bound on what is read.
  \<^item> \<open>Ssl_Uprobe\<close>: \<open>ssl_uprobe.bpf.h\<close>, the nine probes as steps that interleave by thread; provenance of bindings.
  \<^item> \<open>Lsm_Cert\<close>: \<open>lsm_cert_guard.bpf.h\<close>; \<open>bpf_d_path\<close> as a locale.
  \<^item> \<open>Json_Text\<close>: what is relied on of the JSON library: its values, valid UTF-8, and that \<open>dump\<close> throws on other text.
  \<^item> \<open>Event_Meta\<close>, \<open>Detections\<close>, \<open>Dispatch\<close>: the envelope, the nine rules with their lists, and what a verdict leads to,
    the exception included that a report which is not UTF-8 raises before anything is handed over.
  \<^item> \<open>Detect_Loop\<close>: \<open>DetectLoop.cpp\<close>, admission and processing as atomic steps; accounting over all runs, and the locale
    \<open>hook_list\<close> of what a list of detections must satisfy, interpreted for the three lists.
  \<^item> \<open>Sweepers\<close>, \<open>Sweep_Timer\<close>: the two sweepers and the timer that runs them.
  \<^item> \<open>Peer_Resolver\<close>: \<open>proc_peer_resolver.hpp\<close>, the number parsers of the C++ library included.
  \<^item> \<open>Tcp_Destroyer\<close>, \<open>Log_Action\<close>, \<open>Action_Loop\<close>: the actions, with the exits by which an exception leaves them, and the loop
    that runs them.
  \<^item> \<open>Hooks\<close>: the three hook modules; the locale \<open>bpf_program\<close> is the interface of the base class, interpreted
    on their \<open>attach\<close>.
  \<^item> \<open>Program\<close>: \<open>HttpGuardProgram.cpp\<close>, ownership of kernel resources over any run, loading a loaded program included.
  \<^item> \<open>Daemon\<close>: \<open>main.cpp\<close>, configuration, start-up, poll loop, shutdown, and the routing of records.
  \<^item> \<open>System\<close>: all of these composed, one step of the system being one atomic step of one part on the state they
    share; where every event, record, counter and pending action comes from, as an invariant of all runs.
  \<^item> \<open>Teardown\<close>: where every pending and every sent teardown comes from, as another invariant of all runs.
  \<^item> \<open>Enforcement\<close>: what the composed daemon promises: nobody is blocked and no connection torn down without cause, no
    offence is lost.
  \<^item> \<open>Record_Types\<close>: records are well typed from the kernel's structs to the detections, in every run, and without failing calls
    every event is dispatched exactly once.
  \<^item> \<open>Locked_Stream\<close>, \<open>Timestamp\<close>: the lock handle of the log and the time text of an event.
  \<^item> \<open>Runner\<close>: the stand-alone runners, over the detect loop.
  \<^item> this theory: properties that span the kernel and the daemon.

  \<^bold>\<open>Arguments that stand for other code.\<close>  The kernel's maps, clocks and helpers; libbpf
  (\<open>bpf_env\<close>); the sockets of the teardown (\<open>tcp_env\<close>, whose waits end, by readiness or by an exception); the contents of \<open>/proc\<close> and \<open>readlink\<close>; the JSON library's
  \<open>dump\<close>, of which \<open>strict_dump\<close> states what is documented, that it throws exactly on text that is not UTF-8;
  the wall clock, whose text is \<open>nowUtcIso8601\<close> and reaches \<open>dispatchVerdict\<close> as its argument \<open>now\<close>; the success of allocations and of Asio's posts and spawns.  Where a property relies on
  more than their type, the hypothesis says so and its witness instantiates it.  Asio itself is the
  scheduler: theories with concurrency have a step function and an inductive reachability predicate that
  allows every order of steps the executor allows.

  \<^bold>\<open>Bounds and fuel.\<close>  The loops of the kernel programs have the source's own trip counts (32 suites, 16
  extensions, 63 name bytes), which are the recursion arguments; no other fuel is used.  The
  stale-binding sweep walks with \<open>get_next_key\<close>, whose documented order is a hypothesis under which it is proved to terminate.  The queue
  is bounded by 4096 records, a record by 8 detections and 1024 bytes, the memo of the resolver by 257 entries.
  Word-sized counters wrap or saturate as the code does; the statistics of the detect loop are natural numbers.
  The target is the 32-bit little-endian board: \<open>unsigned long\<close> has 32 bits.

  \<^bold>\<open>Not modelled.\<close>  Diagnostics on the standard streams and the trace pipe; the memory orders of the atomics; the
  threads' own life cycle beyond whether they started; the text of an IPv6 address, which only diagnostics show; the service scripts,
  unit files and build recipes; the tests.  A run of a kernel program is one step: two packets on different processors
  do not interleave inside one lookup, update or deletion of a map (the lookup and the deletion of \<open>blocklist_check\<close>, the
  read and the write of \<open>conn_rate_record\<close>).  Exceptions of the executor's tasks are the ones named in each theory; a failing
  allocation elsewhere in them is the task's fault flag.
\<close>

section \<open>From a packet to the blocklist and back\<close>

lemma violation_dispatch:
  assumes "event_of_source env saddr e" "length (xe_comm env) = 16"
    and "first_verdict (xdp_detections sni) (encode_xdp_event e) = Some (n', v, m)" "actionable v" "xt_is_violation (xdp_tls e) = 1"
    and "saddr \<noteq> 0" "dc_action_loop ctx" "strict_dump dump" "utf8 now"
  shows "case dispatchVerdict resolve dump now (xdp_fill e EventMeta_init) v ctx of
       None \<Rightarrow> \<not> utf8 (boundedString (xe_comm env))
     | Some (actions, n) \<Rightarrow> utf8 (boundedString (xe_comm env)) \<and>
         BlocklistAdd \<lparr>act_src_ip_v4 = saddr, act_ttl = dc_blocklist_ttl ctx, act_reason = message v\<rparr> \<in> set actions"
proof -
  have src: "ct_src_ip_v4 (xdp_conn e) = saddr" "hdr_comm (xdp_hdr e) = xe_comm env"
    using assms(1) by (simp_all add: event_of_source_def fill_hdr_def)
  have d: "decode_xdp_event (encode_xdp_event e) = Some e"
    using decode_encode_xdp [OF event_of_source_wf [OF assms(1,2)], of "[]"] by simp
  have "xdp_offence e" using assms(5) by (simp add: xdp_offence_def tls_violation_def)
  from offence_reportable [OF d assms(3) this] have "reportable v \<longleftrightarrow> utf8 (boundedString (xe_comm env))" by (simp add: printable_def src)
  then show ?thesis using dispatch_throws [OF assms(7-9), of resolve "xdp_fill e EventMeta_init" v]
      xdp_dispatch_blocklists [OF assms(7,4), of e resolve dump now] assms(6) by (auto simp: src dispatched_def split: option.split)
qed

lemma violation_verdict:
  assumes "wf_xdp_event e" "xt_is_violation (xdp_tls e) = 1"
  shows "\<exists>v. first_verdict (xdp_detections sni) (encode_xdp_event e) =
           Some (''tls_version'', v, xdp_fill e EventMeta_init) \<and> actionable v"
proof -
  have "decode_xdp_event (encode_xdp_event e) = Some e" using decode_encode_xdp [OF assms(1), of "[]"] by simp
  from xdp_first_verdict [OF this, of sni] show ?thesis using assms(2) by (auto simp: tls_violation_def)
qed



end
